(* ===== verification/GoPrelude.thy ===== *)
theory GoPrelude
  imports Main "HOL-Library.Multiset"
begin

text \<open>
  Shared ground of the development: Go's run-time failures as values, slice indexing with its
  bounds check, the integers printed by \<^verbatim>\<open>strconv.Itoa\<close>, and the list and map lemmas
  the component theories use.

  A Go statement that can panic, or that ends the process through \<^verbatim>\<open>log.Fatal\<close>, is a
  value of type \<open>'a go\<close>: \<open>Inl\<close> is the failure, \<open>Inr\<close> the normal result.
  Go's \<^verbatim>\<open>int\<close> is modelled by \<open>int\<close> except where a width is named
  (\<^verbatim>\<open>uint32\<close> hashes, \<^verbatim>\<open>int32\<close> and \<^verbatim>\<open>int64\<close> counters), which are words.
\<close>

named_theorems go_simps \<open>evaluation of Go's failing primitives\<close>

named_theorems go_iff \<open>when a Go computation returns normally\<close>

section \<open>Failures as values\<close>

datatype go_error =
    IndexOutOfRange
  | SliceBounds
  | DivideByZero
  | MakeNegativeLen
  | NilDereference
  | LogFatal string
  | Panic string

type_synonym 'a go = "go_error + 'a"

definition go_bind :: "'a go \<Rightarrow> ('a \<Rightarrow> 'b go) \<Rightarrow> 'b go" where
  "go_bind m f = (case m of Inl e \<Rightarrow> Inl e | Inr x \<Rightarrow> f x)"

definition go_ok :: "'a go \<Rightarrow> bool" where
  "go_ok m = (case m of Inl _ \<Rightarrow> False | Inr _ \<Rightarrow> True)"

definition go_nth :: "'a list \<Rightarrow> int \<Rightarrow> 'a go" where
  "go_nth xs i = (if 0 \<le> i \<and> i < int (length xs) then Inr (xs ! nat i) else Inl IndexOutOfRange)"

definition go_update :: "'a list \<Rightarrow> int \<Rightarrow> 'a \<Rightarrow> 'a list go" where
  "go_update xs i v =
     (if 0 \<le> i \<and> i < int (length xs) then Inr (xs[nat i := v]) else Inl IndexOutOfRange)"

definition go_make :: "int \<Rightarrow> 'a \<Rightarrow> 'a list go" where
  "go_make n zero = (if n < 0 then Inl MakeNegativeLen else Inr (replicate (nat n) zero))"

text \<open>Go's remainder takes the sign of the dividend.\<close>

definition go_rem :: "int \<Rightarrow> int \<Rightarrow> int go" where
  "go_rem a b = (if b = 0 then Inl DivideByZero else Inr (sgn a * (\<bar>a\<bar> mod \<bar>b\<bar>)))"

lemma go_bind_simps [simp, go_simps]:
  "go_bind (Inl e) f = Inl e"
  "go_bind (Inr x) f = f x"
  by (simp_all add: go_bind_def)

lemma go_bind_assoc: "go_bind (go_bind m f) g = go_bind m (\<lambda>x. go_bind (f x) g)"
  by (cases m) simp_all

lemma go_bind_ext: "(\<And>x. f x = g x) \<Longrightarrow> go_bind m f = go_bind m g"
  by (cases m) simp_all

lemma go_bind_return [simp]: "(\<And>x. f x = Inr x) \<Longrightarrow> go_bind m f = m"
  by (cases m) simp_all

lemma go_bind_Inr [go_iff]: "go_bind m f = Inr y \<longleftrightarrow> (\<exists>x. m = Inr x \<and> f x = Inr y)"
  by (cases m) auto

lemma go_ok_simps [simp, go_simps]: "go_ok (Inl e) = False" "go_ok (Inr x) = True"
  by (simp_all add: go_ok_def)

lemma go_ok_iff [go_iff]: "go_ok m \<longleftrightarrow> (\<exists>x. m = Inr x)"
  by (cases m) auto

lemma go_nth_Inr [go_iff]:
  "go_nth xs i = Inr x \<longleftrightarrow> 0 \<le> i \<and> i < int (length xs) \<and> x = xs ! nat i"
  by (auto simp: go_nth_def)

lemma go_nth_int [go_simps]: "k < length xs \<Longrightarrow> go_nth xs (int k) = Inr (xs ! k)"
  by (simp add: go_nth_def)

lemma go_update_Inr [go_iff]:
  "go_update xs i v = Inr ys \<longleftrightarrow> 0 \<le> i \<and> i < int (length xs) \<and> ys = xs[nat i := v]"
  by (auto simp: go_update_def)

lemma go_make_Inr [go_iff]: "go_make n z = Inr xs \<longleftrightarrow> 0 \<le> n \<and> xs = replicate (nat n) z"
  by (auto simp: go_make_def)

lemma go_rem_nonneg [go_simps]: "0 \<le> a \<Longrightarrow> 0 < b \<Longrightarrow> go_rem a b = Inr (a mod b)"
  by (cases "a = 0") (simp_all add: go_rem_def)

section \<open>Flags\<close>

definition count_true :: "bool list \<Rightarrow> nat" where
  "count_true bs = length (filter id bs)"

lemma count_true_replicate_False [simp]: "count_true (replicate n False) = 0"
  by (simp add: count_true_def)

lemma count_true_le: "count_true bs \<le> length bs"
  by (simp add: count_true_def)

lemma count_true_Cons [simp]: "count_true (b # bs) = (if b then Suc (count_true bs) else count_true bs)"
  by (simp add: count_true_def)

lemma count_true_Nil [simp]: "count_true [] = 0"
  by (simp add: count_true_def)

lemma count_true_set:
  "i < length bs \<Longrightarrow> \<not> bs ! i \<Longrightarrow> count_true (bs[i := True]) = Suc (count_true bs)"
proof (induction bs arbitrary: i)
  case (Cons b bs)
  then show ?case by (cases i) auto
qed simp

lemma count_true_full: "count_true bs = length bs \<longleftrightarrow> (\<forall>i < length bs. bs ! i)"
proof -
  have "count_true bs = length bs \<longleftrightarrow> (\<forall>b \<in> set bs. b)"
    by (simp add: count_true_def) (metis filter_id_conv id_apply length_filter_less nat_neq_iff)
  then show ?thesis by (simp add: all_set_conv_all_nth)
qed

lemma upt_join: "i \<le> j \<Longrightarrow> j \<le> k \<Longrightarrow> [i..<j] @ [j..<k] = [i..<k]"
  by (metis le_add_diff_inverse upt_add_eq_append)

section \<open>Machines: a state, calls, and a contract\<close>

text \<open>
  A component whose operations are called one at a time is a function from a state and a call to
  the next state and an output, or a failure. \<open>go_run\<close> runs a list of calls and stops at the
  first failure, as a panic stops the process. \<open>go_allowed\<close> says that each call meets its
  precondition in the state it is made in.
\<close>

fun go_run :: "('s \<Rightarrow> 'c \<Rightarrow> ('s \<times> 'o) go) \<Rightarrow> 's \<Rightarrow> 'c list \<Rightarrow> ('s \<times> 'o list) go" where
  "go_run exec s [] = Inr (s, [])"
| "go_run exec s (x # xs) =
     go_bind (exec s x) (\<lambda>(s1, o1). go_bind (go_run exec s1 xs) (\<lambda>(s2, os). Inr (s2, o1 # os)))"

fun go_allowed :: "('s \<Rightarrow> 'c \<Rightarrow> ('s \<times> 'o) go) \<Rightarrow> ('s \<Rightarrow> 'c \<Rightarrow> bool) \<Rightarrow> 's \<Rightarrow> 'c list \<Rightarrow> bool" where
  "go_allowed exec pre s [] = True"
| "go_allowed exec pre s (x # xs) =
     (pre s x \<and> (case exec s x of Inl _ \<Rightarrow> True | Inr (s1, _) \<Rightarrow> go_allowed exec pre s1 xs))"

lemma go_run_Cons_Inr [go_iff]:
  "go_run exec s (x # xs) = Inr (s2, out) \<longleftrightarrow>
     (\<exists>s1 o1 os. exec s x = Inr (s1, o1) \<and> go_run exec s1 xs = Inr (s2, os) \<and> out = o1 # os)"
  by (auto simp: go_bind_Inr)

lemma go_run_append:
  "go_run exec s (xs @ ys) =
     go_bind (go_run exec s xs) (\<lambda>(s1, os1).
       go_bind (go_run exec s1 ys) (\<lambda>(s2, os2). Inr (s2, os1 @ os2)))"
proof (induction xs arbitrary: s)
  case Nil
  then show ?case by (cases "go_run exec s ys") auto
next
  case (Cons x xs)
  show ?case
  proof (cases "exec s x")
    case (Inr p)
    obtain s1 o1 where p: "p = (s1, o1)" by (cases p)
    show ?thesis
    proof (cases "go_run exec s1 xs")
      case (Inr q)
      obtain s2 os where "q = (s2, os)" by (cases q)
      with Inr \<open>exec s x = Inr p\<close> p show ?thesis
        by (cases "go_run exec s2 ys") (auto simp: Cons.IH)
    qed (use Inr p in \<open>simp add: Cons.IH\<close>)
  qed simp
qed

lemma go_run_snoc_Inr:
  "go_run exec s (xs @ [x]) = Inr (s', os) \<longleftrightarrow>
     (\<exists>s1 os1 o1. go_run exec s xs = Inr (s1, os1) \<and> exec s1 x = Inr (s', o1) \<and> os = os1 @ [o1])"
  by (auto simp: go_run_append go_bind_Inr)

locale go_machine =
  fixes exec :: "'s \<Rightarrow> 'c \<Rightarrow> ('s \<times> 'o) go"
    and invar :: "'s \<Rightarrow> bool"
    and pre :: "'s \<Rightarrow> 'c \<Rightarrow> bool"
  assumes exec_invar: "invar s \<Longrightarrow> pre s x \<Longrightarrow> exec s x = Inr (s', out) \<Longrightarrow> invar s'"
begin

lemma run_invar:
  "invar s \<Longrightarrow> go_allowed exec pre s xs \<Longrightarrow> go_run exec s xs = Inr (s', os) \<Longrightarrow> invar s'"
proof (induction xs arbitrary: s os)
  case Nil
  then show ?case by simp
next
  case (Cons x xs)
  from Cons.prems(3) obtain s1 o1 os1
    where step: "exec s x = Inr (s1, o1)" and rest: "go_run exec s1 xs = Inr (s', os1)"
    by (auto simp: go_bind_Inr)
  from Cons.prems(1,2) step have "invar s1" by (auto intro: exec_invar)
  moreover from Cons.prems(2) step have "go_allowed exec pre s1 xs" by simp
  ultimately show ?case using rest by (rule Cons.IH)
qed

end

locale go_machine_total = go_machine +
  assumes exec_returns: "invar s \<Longrightarrow> pre s x \<Longrightarrow> \<exists>s' out. exec s x = Inr (s', out)"
begin

lemma run_returns:
  "invar s \<Longrightarrow> go_allowed exec pre s xs \<Longrightarrow> \<exists>s' os. go_run exec s xs = Inr (s', os) \<and> invar s'"
proof (induction xs arbitrary: s)
  case Nil
  then show ?case by simp
next
  case (Cons x xs)
  from Cons.prems obtain s1 o1 where step: "exec s x = Inr (s1, o1)"
    using exec_returns by fastforce
  with Cons.prems have "invar s1" and "go_allowed exec pre s1 xs"
    by (auto intro: exec_invar)
  then obtain s2 os where "go_run exec s1 xs = Inr (s2, os)" and "invar s2"
    using Cons.IH by blast
  with step show ?case by simp
qed

end

text \<open>
  A property of the state and of everything put out so far, kept by every call, holds after a run.
\<close>

locale go_history =
  fixes exec :: "'s \<Rightarrow> 'c \<Rightarrow> ('s \<times> 'o) go"
    and hist :: "'s \<Rightarrow> 'o list \<Rightarrow> bool"
    and pre :: "'s \<Rightarrow> 'c \<Rightarrow> bool"
  assumes exec_hist: "hist s h \<Longrightarrow> pre s x \<Longrightarrow> exec s x = Inr (s', out) \<Longrightarrow> hist s' (h @ [out])"
begin

lemma run_hist_from:
  "hist s h \<Longrightarrow> go_allowed exec pre s xs \<Longrightarrow> go_run exec s xs = Inr (s', os) \<Longrightarrow> hist s' (h @ os)"
proof (induction xs arbitrary: s h os)
  case Nil
  then show ?case by simp
next
  case (Cons x xs)
  from Cons.prems(3) obtain s1 o1 os1
    where step: "exec s x = Inr (s1, o1)" and rest: "go_run exec s1 xs = Inr (s', os1)"
      and os: "os = o1 # os1"
    by (auto simp: go_bind_Inr)
  from Cons.prems step have "hist s1 (h @ [o1])" and "go_allowed exec pre s1 xs"
    by (auto intro: exec_hist)
  from Cons.IH [OF this rest] os show ?case by simp
qed

lemma run_hist:
  "hist s [] \<Longrightarrow> go_allowed exec pre s xs \<Longrightarrow> go_run exec s xs = Inr (s', os) \<Longrightarrow> hist s' os"
  using run_hist_from [of s "[]" xs s' os] by simp

end

lemma go_allowed_True [simp]: "go_allowed exec (\<lambda>_ _. True) s xs"
  by (induction xs arbitrary: s) (auto split: sum.splits)

lemma go_allowed_append:
  "go_allowed exec pre s (xs @ ys) \<longleftrightarrow>
     go_allowed exec pre s xs \<and>
     (case go_run exec s xs of Inl _ \<Rightarrow> True | Inr (s1, _) \<Rightarrow> go_allowed exec pre s1 ys)"
  by (induction xs arbitrary: s) (auto simp: go_bind_def split: sum.splits)

lemma go_allowed_static:
  "(\<And>s x. pre s x = P x) \<Longrightarrow> \<forall>x \<in> set xs. P x \<Longrightarrow> go_allowed exec pre s xs"
  by (induction xs arbitrary: s) (auto split: sum.splits)

section \<open>Decimal integers\<close>

fun itoa_nat :: "nat \<Rightarrow> string" where
  "itoa_nat n =
     (if n < 10 then [char_of (48 + n)] else itoa_nat (n div 10) @ [char_of (48 + n mod 10)])"

declare itoa_nat.simps [simp del]

definition itoa :: "int \<Rightarrow> string" where
  "itoa i = (if i < 0 then CHR ''-'' # itoa_nat (nat (- i)) else itoa_nat (nat i))"

definition digit_char :: "char \<Rightarrow> bool" where
  "digit_char c \<longleftrightarrow> 48 \<le> (of_char c :: nat) \<and> (of_char c :: nat) < 58"

fun atoi_nat :: "string \<Rightarrow> nat \<Rightarrow> nat" where
  "atoi_nat [] acc = acc"
| "atoi_nat (c # cs) acc = atoi_nat cs (10 * acc + (of_char c - 48))"

lemma atoi_nat_append: "atoi_nat (xs @ ys) acc = atoi_nat ys (atoi_nat xs acc)"
  by (induction xs arbitrary: acc) auto

lemma atoi_itoa_nat: "atoi_nat (itoa_nat n) 0 = n"
proof (induction n rule: itoa_nat.induct)
  case (1 n)
  show ?case
  proof (cases "n < 10")
    case True
    then show ?thesis by (simp add: itoa_nat.simps [of n])
  next
    case False
    with "1.IH" show ?thesis
      by (simp add: itoa_nat.simps [of n] atoi_nat_append)
  qed
qed

lemma itoa_nat_digits: "c \<in> set (itoa_nat n) \<Longrightarrow> digit_char c"
proof (induction n rule: itoa_nat.induct)
  case (1 n)
  then show ?case
    by (cases "n < 10") (auto simp: itoa_nat.simps [of n] digit_char_def)
qed

lemma itoa_nat_inject: "itoa_nat m = itoa_nat n \<longleftrightarrow> m = n"
  by (metis atoi_itoa_nat)

lemma itoa_nat_nonempty: "itoa_nat n \<noteq> []"
  by (subst itoa_nat.simps) simp

lemma minus_not_digit: "\<not> digit_char (CHR ''-'')"
  by (simp add: digit_char_def)

lemma itoa_nat_no_minus: "itoa_nat n \<noteq> CHR ''-'' # xs"
  using itoa_nat_digits minus_not_digit by (metis list.set_intros(1))

lemma itoa_inject: "itoa i = itoa j \<longleftrightarrow> i = j"
  using itoa_nat_no_minus itoa_nat_no_minus [symmetric]
  by (auto simp: itoa_def itoa_nat_inject)

lemma itoa_int_digits: "c \<in> set (itoa (int k)) \<Longrightarrow> digit_char c"
  by (auto simp: itoa_def intro: itoa_nat_digits)

text \<open>A separator outside the alphabet of both prefixes makes a concatenation injective.\<close>

lemma append_sep_inject:
  assumes "sep \<notin> set xs" and "sep \<notin> set xs'"
  shows "xs @ sep # ys = xs' @ sep # ys' \<longleftrightarrow> xs = xs' \<and> ys = ys'"
  using assms
proof (induction xs arbitrary: xs')
  case Nil
  then show ?case by (cases xs') auto
next
  case (Cons x xs)
  then show ?case by (cases xs') auto
qed

end
