(* ===== verification/MR_Coordinator.thy ===== *)
theory MR_Coordinator
  imports GoPrelude
begin

text \<open>
  The MapReduce coordinator (\<^verbatim>\<open>src/mr/coordinator.go\<close>) and the RPC structs it shares with
  the workers (\<^verbatim>\<open>src/mr/rpc.go\<close>). Each RPC handler is one definition. A handler that
  tests a field before it takes the mutex is split at that point into the test and the locked
  section, and the handler is their composition, so that the theory of interleavings can run
  the sections of different handlers against each other.

  Shown here, for handlers that run one at a time: the counters agree with the completion flags
  after every sequence of calls, no call panics while workers report existing tasks, map tasks are
  handed out in order and once each, a reduce task is handed out only when every map task is
  complete and then with the full list of intermediate files, and the choice of a live worker
  for a task that is done again.
\<close>

section \<open>RPC structs\<close>

record WorkerArgs =
  wa_Worker_id :: int
  wa_Worker_addr :: string

record MapArgs =
  ma_NReduce :: int
  ma_Filename :: string
  ma_Maptask_id :: int
  ma_Worker_id :: int

record MapReply =
  mr_NReduce :: int
  mr_Filename :: string
  mr_Maptask_id :: int

record ReduceArgs =
  ra_Reducetask_id :: int
  ra_Reducefiles :: "string list"
  ra_Worker_id :: int

record ReduceReply =
  rr_Reducetask_id :: int
  rr_Reducefiles :: "string list"

definition coordinatorSock :: "int \<Rightarrow> string" where
  "coordinatorSock uid = ''/var/tmp/5840-mr-'' @ itoa uid"

definition workerSocket :: "int \<Rightarrow> string" where
  "workerSocket pid = ''/var/tmp/5840-mr-w-'' @ itoa pid"

section \<open>State\<close>

record coordinator =
  filenames :: "string list"
  counter_map :: int
  counter_reduce :: int
  nReduce :: int
  done_map :: int
  done_reduce :: int
  worker_book :: "int \<rightharpoonup> string"
  map_complete :: "bool list"
  reduce_complete :: "bool list"

datatype rpc_error =
    EOF
  | ErrMapNotCompleted
  | ErrorNotAllReduceComplete
  | ErrNotEveryoneFinish

text \<open>The goroutines a handler starts: the monitors of a task that was handed out.\<close>

datatype monitor =
    MapMonitor int int
  | ReduceMonitor int int "string list"

definition Done :: "coordinator \<Rightarrow> bool" where
  "Done c \<longleftrightarrow> done_map c = int (length (filenames c)) \<and> done_reduce c = nReduce c"

definition MakeCoordinator :: "string list \<Rightarrow> int \<Rightarrow> coordinator go" where
  "MakeCoordinator files n =
     go_bind (go_make (int (length files)) False) (\<lambda>mc.
     go_bind (go_make n False) (\<lambda>rc.
     Inr \<lparr>filenames = files, counter_map = 0, counter_reduce = 0, nReduce = n,
          done_map = 0, done_reduce = 0, worker_book = Map.empty,
          map_complete = mc, reduce_complete = rc\<rparr>))"

section \<open>Handlers\<close>

definition RegisterWorker :: "coordinator \<Rightarrow> WorkerArgs \<Rightarrow> coordinator" where
  "RegisterWorker c args =
     c\<lparr>worker_book := (worker_book c)(wa_Worker_id args \<mapsto> wa_Worker_addr args)\<rparr>"

definition GiveMapTask_test :: "coordinator \<Rightarrow> bool" where
  "GiveMapTask_test c \<longleftrightarrow> counter_map c \<ge> int (length (filenames c))"

definition GiveMapTask_locked ::
    "coordinator \<Rightarrow> MapArgs \<Rightarrow> (coordinator \<times> MapReply \<times> monitor list) go" where
  "GiveMapTask_locked c args =
     go_bind (go_nth (filenames c) (counter_map c)) (\<lambda>fname.
     Inr (c\<lparr>counter_map := counter_map c + 1\<rparr>,
          \<lparr>mr_NReduce = nReduce c, mr_Filename = fname, mr_Maptask_id = counter_map c\<rparr>,
          [MapMonitor (ma_Worker_id args) (counter_map c)]))"

definition GiveMapTask ::
    "coordinator \<Rightarrow> MapArgs \<Rightarrow> (coordinator \<times> (rpc_error + MapReply) \<times> monitor list) go" where
  "GiveMapTask c args =
     (if GiveMapTask_test c then Inr (c, Inl EOF, [])
      else go_bind (GiveMapTask_locked c args) (\<lambda>(c', r, ms). Inr (c', Inr r, ms)))"

definition intermediate_name :: "int \<Rightarrow> int \<Rightarrow> string" where
  "intermediate_name i r = ''mr-'' @ itoa i @ ''-'' @ itoa r"

definition GiveReduceTask_notReady :: "coordinator \<Rightarrow> bool" where
  "GiveReduceTask_notReady c \<longleftrightarrow> \<not> (done_map c = int (length (filenames c)))"

definition GiveReduceTask_test :: "coordinator \<Rightarrow> bool" where
  "GiveReduceTask_test c \<longleftrightarrow> counter_reduce c \<ge> nReduce c"

definition GiveReduceTask_locked ::
    "coordinator \<Rightarrow> ReduceArgs \<Rightarrow> (coordinator \<times> ReduceReply \<times> monitor list) go" where
  "GiveReduceTask_locked c args =
     go_bind (go_make (counter_map c) ('''' :: string)) (\<lambda>blank.
     let files = map (\<lambda>i. intermediate_name (int i) (counter_reduce c)) [0..<length blank]
     in Inr (c\<lparr>counter_reduce := counter_reduce c + 1\<rparr>,
             \<lparr>rr_Reducetask_id = counter_reduce c, rr_Reducefiles = files\<rparr>,
             [ReduceMonitor (ra_Worker_id args) (counter_reduce c) files]))"

definition GiveReduceTask ::
    "coordinator \<Rightarrow> ReduceArgs \<Rightarrow> (coordinator \<times> (rpc_error + ReduceReply) \<times> monitor list) go" where
  "GiveReduceTask c args =
     (if GiveReduceTask_notReady c
      then Inr (c, Inr \<lparr>rr_Reducetask_id = -1, rr_Reducefiles = []\<rparr>, [])
      else if GiveReduceTask_test c then Inr (c, Inl EOF, [])
      else go_bind (GiveReduceTask_locked c args) (\<lambda>(c', r, ms). Inr (c', Inr r, ms)))"

definition MapDone_test :: "coordinator \<Rightarrow> int \<Rightarrow> bool go" where
  "MapDone_test c t = go_bind (go_nth (map_complete c) t) (\<lambda>b. Inr (\<not> b))"

definition MapDone_set :: "coordinator \<Rightarrow> int \<Rightarrow> coordinator go" where
  "MapDone_set c t =
     go_bind (go_update (map_complete c) t True) (\<lambda>bs. Inr (c\<lparr>map_complete := bs\<rparr>))"

definition MapDone_inc :: "coordinator \<Rightarrow> coordinator" where
  "MapDone_inc c = c\<lparr>done_map := done_map c + 1\<rparr>"

definition MapDone_ret :: "coordinator \<Rightarrow> rpc_error + unit" where
  "MapDone_ret c =
     (if done_map c = int (length (filenames c)) then Inr () else Inl ErrMapNotCompleted)"

definition CheckLastMapDone :: "coordinator \<Rightarrow> MapArgs \<Rightarrow> (coordinator \<times> (rpc_error + unit)) go" where
  "CheckLastMapDone c args =
     go_bind (MapDone_test c (ma_Maptask_id args)) (\<lambda>fresh.
     go_bind (if fresh
              then go_bind (MapDone_set c (ma_Maptask_id args)) (\<lambda>c1. Inr (MapDone_inc c1))
              else Inr c) (\<lambda>c2.
     Inr (c2, MapDone_ret c2)))"

definition ReduceDone_test :: "coordinator \<Rightarrow> int \<Rightarrow> bool go" where
  "ReduceDone_test c t = go_bind (go_nth (reduce_complete c) t) (\<lambda>b. Inr (\<not> b))"

definition ReduceDone_set :: "coordinator \<Rightarrow> int \<Rightarrow> coordinator go" where
  "ReduceDone_set c t =
     go_bind (go_update (reduce_complete c) t True) (\<lambda>bs. Inr (c\<lparr>reduce_complete := bs\<rparr>))"

definition ReduceDone_inc :: "coordinator \<Rightarrow> coordinator" where
  "ReduceDone_inc c = c\<lparr>done_reduce := done_reduce c + 1\<rparr>"

definition ReduceDone_ret :: "coordinator \<Rightarrow> rpc_error + unit" where
  "ReduceDone_ret c =
     (if done_reduce c = nReduce c then Inr () else Inl ErrorNotAllReduceComplete)"

definition CheckLastReduceDone ::
    "coordinator \<Rightarrow> ReduceArgs \<Rightarrow> (coordinator \<times> (rpc_error + unit)) go" where
  "CheckLastReduceDone c args =
     go_bind (ReduceDone_test c (ra_Reducetask_id args)) (\<lambda>fresh.
     go_bind (if fresh
              then go_bind (ReduceDone_set c (ra_Reducetask_id args)) (\<lambda>c1. Inr (ReduceDone_inc c1))
              else Inr c) (\<lambda>c2.
     Inr (c2, ReduceDone_ret c2)))"

definition isExit :: "coordinator \<Rightarrow> rpc_error + unit" where
  "isExit c = (if Done c then Inr () else Inl ErrNotEveryoneFinish)"

section \<open>Doing a task again on another worker\<close>

text \<open>
  \<open>callWorker\<close> ranges over a Go map, whose iteration order is not specified: \<open>order\<close>
  is the list of the entries in the order the loop meets them. \<open>dial\<close> says whether
  \<^verbatim>\<open>rpc.DialHTTP\<close> to an address succeeds; the second dial, after the mutex is released,
  may have another outcome, \<open>redial\<close>; \<open>rpc_ok\<close> is whether the RPC itself returns without
  an error.
\<close>

record dial_env =
  dial :: "string \<Rightarrow> bool"
  redial :: "string \<Rightarrow> bool"
  rpc_ok :: "string \<Rightarrow> bool"
  order :: "(int \<times> string) list"

fun pick_worker :: "(string \<Rightarrow> bool) \<Rightarrow> (int \<times> string) list \<Rightarrow> string \<times> int list" where
  "pick_worker dl [] = ('''', [])"
| "pick_worker dl ((pid, workerAddr) # rest) =
     (if \<not> dl workerAddr
      then (let (addr, toDelete) = pick_worker dl rest in (addr, pid # toDelete))
      else (workerAddr, []))"

definition delete_workers :: "int list \<Rightarrow> coordinator \<Rightarrow> coordinator" where
  "delete_workers toDelete c = c\<lparr>worker_book := worker_book c |` (- set toDelete)\<rparr>"

definition callWorker :: "dial_env \<Rightarrow> coordinator \<Rightarrow> (coordinator \<times> string \<times> bool) go" where
  "callWorker env c =
     (let (addr, toDelete) = pick_worker (dial env) (order env);
          c' = delete_workers toDelete c
      in if addr = '''' then Inl (LogFatal ''No available workers in worker_book'')
         else if \<not> redial env addr then Inl (LogFatal ''Dead connection during RPC::'')
         else Inr (c', addr, rpc_ok env addr))"

definition callWorkerRedoMap :: "dial_env \<Rightarrow> coordinator \<Rightarrow> int \<Rightarrow> (coordinator \<times> string \<times> MapArgs) go" where
  "callWorkerRedoMap env c map_id =
     go_bind (go_nth (filenames c) map_id) (\<lambda>fname.
     let args = \<lparr>ma_NReduce = nReduce c, ma_Filename = fname, ma_Maptask_id = map_id, ma_Worker_id = 0\<rparr>
     in go_bind (callWorker env c) (\<lambda>(c', addr, ok). Inr (c', addr, args)))"

definition callWorkerRedoReduce ::
    "dial_env \<Rightarrow> coordinator \<Rightarrow> int \<Rightarrow> string list \<Rightarrow> (coordinator \<times> string \<times> ReduceArgs) go" where
  "callWorkerRedoReduce env c reduce_id reduce_files =
     (let args = \<lparr>ra_Reducetask_id = reduce_id, ra_Reducefiles = reduce_files, ra_Worker_id = 0\<rparr>
      in go_bind (callWorker env c) (\<lambda>(c', addr, ok). Inr (c', addr, args)))"

text \<open>
  The monitors sleep, look at the flag of their task, and ask a worker to do the task again until
  the flag is set. \<open>env k\<close> is the network at the k-th look and \<open>others k\<close> what the rest of the
  system does to the coordinator before the next one (the redone task's report among it). The
  result is the final state and the requests sent; None when \<open>fuel\<close> looks did not see the flag.
\<close>

fun spawn_map_monitor ::
    "nat \<Rightarrow> (nat \<Rightarrow> dial_env) \<Rightarrow> (nat \<Rightarrow> coordinator \<Rightarrow> coordinator) \<Rightarrow> nat \<Rightarrow> coordinator \<Rightarrow> int
     \<Rightarrow> (coordinator \<times> (string \<times> MapArgs) list) go option" where
  "spawn_map_monitor 0 env others k c task_id = None"
| "spawn_map_monitor (Suc fuel) env others k c task_id =
     (case go_nth (map_complete c) task_id of
        Inl e \<Rightarrow> Some (Inl e)
      | Inr flag \<Rightarrow>
          if flag then Some (Inr (c, []))
          else (case callWorkerRedoMap (env k) c task_id of
                  Inl e \<Rightarrow> Some (Inl e)
                | Inr (c', addr, args) \<Rightarrow>
                    map_option (\<lambda>r. go_bind r (\<lambda>(c2, reqs). Inr (c2, (addr, args) # reqs)))
                      (spawn_map_monitor fuel env others (Suc k) (others k c') task_id)))"

fun spawn_reduce_monitor ::
    "nat \<Rightarrow> (nat \<Rightarrow> dial_env) \<Rightarrow> (nat \<Rightarrow> coordinator \<Rightarrow> coordinator) \<Rightarrow> nat \<Rightarrow> coordinator \<Rightarrow> int
     \<Rightarrow> string list \<Rightarrow> (coordinator \<times> (string \<times> ReduceArgs) list) go option" where
  "spawn_reduce_monitor 0 env others k c task_id rfiles = None"
| "spawn_reduce_monitor (Suc fuel) env others k c task_id rfiles =
     (case go_nth (reduce_complete c) task_id of
        Inl e \<Rightarrow> Some (Inl e)
      | Inr flag \<Rightarrow>
          if flag then Some (Inr (c, []))
          else (case callWorkerRedoReduce (env k) c task_id rfiles of
                  Inl e \<Rightarrow> Some (Inl e)
                | Inr (c', addr, args) \<Rightarrow>
                    map_option (\<lambda>r. go_bind r (\<lambda>(c2, reqs). Inr (c2, (addr, args) # reqs)))
                      (spawn_reduce_monitor fuel env others (Suc k) (others k c') task_id rfiles)))"

section \<open>Sequences of calls\<close>

datatype coord_call =
    Call_RegisterWorker WorkerArgs
  | Call_GiveMapTask MapArgs
  | Call_GiveReduceTask ReduceArgs
  | Call_CheckLastMapDone MapArgs
  | Call_CheckLastReduceDone ReduceArgs

datatype coord_out =
    Out_Map "rpc_error + MapReply"
  | Out_Reduce "rpc_error + ReduceReply"
  | Out_Unit "rpc_error + unit"

fun coord_exec :: "coordinator \<Rightarrow> coord_call \<Rightarrow> (coordinator \<times> coord_out) go" where
  "coord_exec c (Call_RegisterWorker a) = Inr (RegisterWorker c a, Out_Unit (Inr ()))"
| "coord_exec c (Call_GiveMapTask a) =
     go_bind (GiveMapTask c a) (\<lambda>(c', r, _). Inr (c', Out_Map r))"
| "coord_exec c (Call_GiveReduceTask a) =
     go_bind (GiveReduceTask c a) (\<lambda>(c', r, _). Inr (c', Out_Reduce r))"
| "coord_exec c (Call_CheckLastMapDone a) =
     go_bind (CheckLastMapDone c a) (\<lambda>(c', r). Inr (c', Out_Unit r))"
| "coord_exec c (Call_CheckLastReduceDone a) =
     go_bind (CheckLastReduceDone c a) (\<lambda>(c', r). Inr (c', Out_Unit r))"

abbreviation coord_run :: "coordinator \<Rightarrow> coord_call list \<Rightarrow> (coordinator \<times> coord_out list) go" where
  "coord_run \<equiv> go_run coord_exec"

section \<open>Counters and flags\<close>

text \<open>
  The well-formed states of a job over \<open>files\<close> with \<open>n\<close> reduce tasks: one flag per task, each
  done counter equal to the number of its flags that are set, each hand-out counter in range.
\<close>

definition coord_inv :: "string list \<Rightarrow> int \<Rightarrow> coordinator \<Rightarrow> bool" where
  "coord_inv files n c \<longleftrightarrow>
     filenames c = files \<and> nReduce c = n \<and>
     length (map_complete c) = length files \<and> int (length (reduce_complete c)) = n \<and>
     done_map c = int (count_true (map_complete c)) \<and>
     done_reduce c = int (count_true (reduce_complete c)) \<and>
     0 \<le> counter_map c \<and> counter_map c \<le> int (length files) \<and>
     0 \<le> counter_reduce c \<and> counter_reduce c \<le> n"

definition call_in_range :: "nat \<Rightarrow> int \<Rightarrow> coord_call \<Rightarrow> bool" where
  "call_in_range nf n x =
     (case x of
        Call_CheckLastMapDone a \<Rightarrow> 0 \<le> ma_Maptask_id a \<and> ma_Maptask_id a < int nf
      | Call_CheckLastReduceDone a \<Rightarrow> 0 \<le> ra_Reducetask_id a \<and> ra_Reducetask_id a < n
      | _ \<Rightarrow> True)"

lemma MakeCoordinator_inv:
  "MakeCoordinator files n = Inr c \<Longrightarrow> coord_inv files n c"
  by (auto simp: MakeCoordinator_def coord_inv_def go_iff)

lemma MakeCoordinator_returns: "0 \<le> n \<Longrightarrow> \<exists>c. MakeCoordinator files n = Inr c"
  by (simp add: MakeCoordinator_def go_make_def)

lemma RegisterWorker_inv: "coord_inv files n c \<Longrightarrow> coord_inv files n (RegisterWorker c a)"
  by (simp add: coord_inv_def RegisterWorker_def)

lemma GiveMapTask_inv:
  "coord_inv files n c \<Longrightarrow> GiveMapTask c a = Inr (c', r, ms) \<Longrightarrow> coord_inv files n c'"
  by (auto simp: coord_inv_def GiveMapTask_def GiveMapTask_test_def GiveMapTask_locked_def go_iff
      split: if_splits)

lemma GiveReduceTask_inv:
  "coord_inv files n c \<Longrightarrow> GiveReduceTask c a = Inr (c', r, ms) \<Longrightarrow> coord_inv files n c'"
  by (auto simp: coord_inv_def GiveReduceTask_def GiveReduceTask_test_def GiveReduceTask_locked_def
      Let_def go_iff split: if_splits)

lemma CheckLastMapDone_cases:
  "CheckLastMapDone c a = Inr (c', r) \<longleftrightarrow>
     0 \<le> ma_Maptask_id a \<and> ma_Maptask_id a < int (length (map_complete c)) \<and> r = MapDone_ret c' \<and>
     (if map_complete c ! nat (ma_Maptask_id a) then c' = c
      else c' = c\<lparr>map_complete := (map_complete c)[nat (ma_Maptask_id a) := True],
                   done_map := done_map c + 1\<rparr>)"
  by (auto simp: CheckLastMapDone_def MapDone_test_def MapDone_set_def MapDone_inc_def go_iff)

lemma CheckLastReduceDone_cases:
  "CheckLastReduceDone c a = Inr (c', r) \<longleftrightarrow>
     0 \<le> ra_Reducetask_id a \<and> ra_Reducetask_id a < int (length (reduce_complete c)) \<and>
     r = ReduceDone_ret c' \<and>
     (if reduce_complete c ! nat (ra_Reducetask_id a) then c' = c
      else c' = c\<lparr>reduce_complete := (reduce_complete c)[nat (ra_Reducetask_id a) := True],
                   done_reduce := done_reduce c + 1\<rparr>)"
  by (auto simp: CheckLastReduceDone_def ReduceDone_test_def ReduceDone_set_def ReduceDone_inc_def
      go_iff)

lemma CheckLastMapDone_inv:
  "coord_inv files n c \<Longrightarrow> CheckLastMapDone c a = Inr (c', r) \<Longrightarrow> coord_inv files n c'"
  by (auto simp: coord_inv_def CheckLastMapDone_cases count_true_set nat_less_iff split: if_splits)

lemma CheckLastReduceDone_inv:
  "coord_inv files n c \<Longrightarrow> CheckLastReduceDone c a = Inr (c', r) \<Longrightarrow> coord_inv files n c'"
  by (auto simp: coord_inv_def CheckLastReduceDone_cases count_true_set nat_less_iff
      split: if_splits)

lemma coord_exec_inv:
  assumes "coord_inv files n c" and "coord_exec c x = Inr (c', out)"
  shows "coord_inv files n c'"
  using assms
  by (cases x)
    (auto simp: go_iff intro: RegisterWorker_inv GiveMapTask_inv GiveReduceTask_inv
      CheckLastMapDone_inv CheckLastReduceDone_inv)

lemma coord_exec_returns:
  assumes "coord_inv files n c" and "call_in_range (length files) n x"
  shows "\<exists>c' out. coord_exec c x = Inr (c', out)"
proof (cases x)
  case (Call_RegisterWorker a)
  then show ?thesis by simp
next
  case (Call_GiveMapTask a)
  with assms(1) show ?thesis
    by (simp add: coord_inv_def GiveMapTask_def GiveMapTask_test_def GiveMapTask_locked_def
        go_nth_def)
next
  case (Call_GiveReduceTask a)
  with assms(1) show ?thesis
    by (simp add: coord_inv_def GiveReduceTask_def GiveReduceTask_locked_def go_make_def Let_def)
next
  case (Call_CheckLastMapDone a)
  with assms have "\<exists>c' r. CheckLastMapDone c a = Inr (c', r)"
    by (simp add: CheckLastMapDone_def MapDone_test_def MapDone_set_def go_nth_def go_update_def
        coord_inv_def call_in_range_def)
  with Call_CheckLastMapDone show ?thesis by auto
next
  case (Call_CheckLastReduceDone a)
  with assms have "\<exists>c' r. CheckLastReduceDone c a = Inr (c', r)"
    by (simp add: CheckLastReduceDone_def ReduceDone_test_def ReduceDone_set_def go_nth_def
        go_update_def coord_inv_def call_in_range_def)
  with Call_CheckLastReduceDone show ?thesis by auto
qed

interpretation coordm: go_machine_total coord_exec "coord_inv files n"
    "\<lambda>_. call_in_range (length files) n" for files n
  by unfold_locales (blast intro: coord_exec_inv, blast intro: coord_exec_returns)

lemma coord_inv_Done:
  assumes "coord_inv files n c"
  shows "Done c \<longleftrightarrow> (\<forall>b \<in> set (map_complete c). b) \<and> (\<forall>b \<in> set (reduce_complete c). b)"
proof -
  have "done_map c = int (length (filenames c)) \<longleftrightarrow> count_true (map_complete c) = length (map_complete c)"
    using assms by (simp add: coord_inv_def)
  moreover have "done_reduce c = nReduce c \<longleftrightarrow> count_true (reduce_complete c) = length (reduce_complete c)"
    using assms by (auto simp: coord_inv_def)
  ultimately show ?thesis
    by (simp add: Done_def count_true_full all_set_conv_all_nth)
qed

text \<open>
  C9: for a job with a non-negative number of reduce tasks, any sequence of calls whose reports
  name existing tasks runs without a panic, and after it each done counter is the number of
  completion flags that are set, and \<open>Done\<close> holds exactly when every flag is set.
\<close>

theorem coord_counts_exact:
  assumes "0 \<le> n" and "\<forall>x \<in> set calls. call_in_range (length files) n x"
  shows "\<exists>c0 c outs. MakeCoordinator files n = Inr c0 \<and> coord_run c0 calls = Inr (c, outs) \<and>
           done_map c = int (count_true (map_complete c)) \<and>
           done_reduce c = int (count_true (reduce_complete c)) \<and>
           (Done c \<longleftrightarrow> (\<forall>b \<in> set (map_complete c). b) \<and> (\<forall>b \<in> set (reduce_complete c). b))"
proof -
  obtain c0 where c0: "MakeCoordinator files n = Inr c0"
    using MakeCoordinator_returns [OF assms(1)] by blast
  have "go_allowed coord_exec (\<lambda>_. call_in_range (length files) n) c0 calls"
    by (rule go_allowed_static) (use assms(2) in auto)
  with MakeCoordinator_inv [OF c0] obtain c outs
    where run: "coord_run c0 calls = Inr (c, outs)" and inv: "coord_inv files n c"
    using coordm.run_returns by blast
  from inv have "done_map c = int (count_true (map_complete c))"
    and "done_reduce c = int (count_true (reduce_complete c))"
    by (simp_all add: coord_inv_def)
  with c0 run coord_inv_Done [OF inv] show ?thesis by blast
qed

abbreviation example_map_args :: "int \<Rightarrow> MapArgs" where
  "example_map_args t \<equiv>
     \<lparr>ma_NReduce = 0, ma_Filename = '''', ma_Maptask_id = t, ma_Worker_id = 7\<rparr>"

abbreviation example_reduce_args :: "int \<Rightarrow> ReduceArgs" where
  "example_reduce_args t \<equiv> \<lparr>ra_Reducetask_id = t, ra_Reducefiles = [], ra_Worker_id = 7\<rparr>"

lemma coord_counts_exact_witness:
  "\<exists>c0 c outs. MakeCoordinator [''a''] 1 = Inr c0 \<and>
     coord_run c0 [Call_GiveMapTask (example_map_args 0), Call_CheckLastMapDone (example_map_args 0),
                   Call_CheckLastMapDone (example_map_args 0)] = Inr (c, outs) \<and>
     done_map c = int (count_true (map_complete c)) \<and>
     done_reduce c = int (count_true (reduce_complete c)) \<and>
     (Done c \<longleftrightarrow> list_all id (map_complete c) \<and> list_all id (reduce_complete c))"
  unfolding list_all_iff id_apply by (rule coord_counts_exact) (simp_all add: call_in_range_def)

section \<open>Map tasks are handed out in order and once\<close>

fun handed_maps :: "coord_out list \<Rightarrow> MapReply list" where
  "handed_maps [] = []"
| "handed_maps (Out_Map (Inr r) # os) = r # handed_maps os"
| "handed_maps (Out_Map (Inl e) # os) = handed_maps os"
| "handed_maps (Out_Reduce r # os) = handed_maps os"
| "handed_maps (Out_Unit r # os) = handed_maps os"

definition is_GiveMapTask :: "coord_call \<Rightarrow> bool" where
  "is_GiveMapTask x = (case x of Call_GiveMapTask _ \<Rightarrow> True | _ \<Rightarrow> False)"

definition map_task :: "string list \<Rightarrow> int \<Rightarrow> nat \<Rightarrow> MapReply" where
  "map_task files n i = \<lparr>mr_NReduce = n, mr_Filename = files ! i, mr_Maptask_id = int i\<rparr>"

lemma coord_exec_hands:
  assumes "coord_exec c x = Inr (c', out)" and "coord_inv files n c"
  shows "if is_GiveMapTask x \<and> counter_map c < int (length files)
         then handed_maps [out] = [map_task files n (nat (counter_map c))] \<and>
              counter_map c' = counter_map c + 1
         else handed_maps [out] = [] \<and> counter_map c' = counter_map c"
  using assms
  by (cases x)
    (auto simp: coord_inv_def is_GiveMapTask_def map_task_def RegisterWorker_def GiveMapTask_def
      GiveMapTask_test_def GiveMapTask_locked_def GiveReduceTask_def GiveReduceTask_locked_def
      CheckLastMapDone_cases CheckLastReduceDone_cases Let_def go_iff split: if_splits)

lemma handed_maps_Cons: "handed_maps (x # xs) = handed_maps [x] @ handed_maps xs"
  by (cases "(x # xs)" rule: handed_maps.cases) auto

lemma coord_run_hands:
  assumes "coord_run c calls = Inr (c', outs)" and "coord_inv files n c"
  shows "handed_maps outs =
           take (length (filter is_GiveMapTask calls))
             (map (map_task files n) [nat (counter_map c)..<length files])"
  using assms
proof (induction calls arbitrary: c outs)
  case Nil
  then show ?case by simp
next
  case (Cons x xs)
  from Cons.prems(1) obtain c1 o1 os where step: "coord_exec c x = Inr (c1, o1)"
    and rest: "coord_run c1 xs = Inr (c', os)" and outs: "outs = o1 # os"
    by (auto simp: go_bind_Inr)
  have inv: "coord_inv files n c1" using coord_exec_inv Cons.prems(2) step by blast
  have IH: "handed_maps os = take (length (filter is_GiveMapTask xs))
              (map (map_task files n) [nat (counter_map c1)..<length files])"
    using Cons.IH [OF rest inv] .
  note hands = coord_exec_hands [OF step Cons.prems(2)]
  have pos: "0 \<le> counter_map c" using Cons.prems(2) by (simp add: coord_inv_def)
  show ?case
  proof (cases "is_GiveMapTask x \<and> counter_map c < int (length files)")
    case True
    then have "[nat (counter_map c)..<length files] =
        nat (counter_map c) # [nat (counter_map c1)..<length files]"
      using hands pos by (simp add: upt_conv_Cons nat_add_distrib nat_less_iff)
    with True hands IH show ?thesis
      by (simp add: outs handed_maps_Cons [of o1 os])
  next
    case False
    with hands IH pos show ?thesis
      by (cases "is_GiveMapTask x") (auto simp: outs handed_maps_Cons [of o1 os])
  qed
qed

text \<open>
  In any sequence of calls, the map tasks handed out are the first k tasks of the job in order,
  each with its file name and the number of reduce tasks, where k is the number of requests for a
  map task; once all have been handed out, further requests get none.
\<close>

theorem map_tasks_handed_in_order:
  assumes "MakeCoordinator files n = Inr c0" and "coord_run c0 calls = Inr (c, outs)"
  shows "handed_maps outs =
           take (length (filter is_GiveMapTask calls)) (map (map_task files n) [0..<length files])"
proof -
  from assms(1) have "counter_map c0 = 0"
    by (auto simp: MakeCoordinator_def go_iff)
  with coord_run_hands [OF assms(2) MakeCoordinator_inv [OF assms(1)]] show ?thesis by simp
qed

lemma map_tasks_handed_in_order_witness:
  "\<exists>c0 c outs. MakeCoordinator [''a'', ''b''] 2 = Inr c0 \<and>
     coord_run c0 (replicate 3 (Call_GiveMapTask (example_map_args 0))) = Inr (c, outs) \<and>
     handed_maps outs =
       take (length (filter is_GiveMapTask (replicate 3 (Call_GiveMapTask (example_map_args 0)))))
         (map (map_task [''a'', ''b''] 2) [0..<length [''a'', ''b'']])"
proof -
  obtain c0 c outs where c0: "MakeCoordinator [''a'', ''b''] 2 = Inr c0"
    and run: "coord_run c0 (replicate 3 (Call_GiveMapTask (example_map_args 0))) = Inr (c, outs)"
    by (auto simp: MakeCoordinator_def go_make_def numeral_3_eq_3 GiveMapTask_def
        GiveMapTask_test_def GiveMapTask_locked_def go_nth_def)
  from c0 run map_tasks_handed_in_order [OF c0 run] show ?thesis by blast
qed

section \<open>Reduce tasks wait for every map task\<close>

text \<open>
  Workers report a task only after they were given it (or a monitor asked them to redo a task that
  was given): the precondition under which a set flag implies that the task was handed out.
\<close>

definition call_reports_given :: "coordinator \<Rightarrow> coord_call \<Rightarrow> bool" where
  "call_reports_given c x =
     (case x of
        Call_CheckLastMapDone a \<Rightarrow> 0 \<le> ma_Maptask_id a \<and> ma_Maptask_id a < counter_map c
      | Call_CheckLastReduceDone a \<Rightarrow> 0 \<le> ra_Reducetask_id a \<and> ra_Reducetask_id a < counter_reduce c
      | _ \<Rightarrow> True)"

definition coord_given_inv :: "string list \<Rightarrow> int \<Rightarrow> coordinator \<Rightarrow> bool" where
  "coord_given_inv files n c \<longleftrightarrow> coord_inv files n c \<and>
     (\<forall>i < length files. map_complete c ! i \<longrightarrow> int i < counter_map c)"

lemma coord_exec_given_inv:
  assumes "coord_given_inv files n c" and "call_reports_given c x"
    and "coord_exec c x = Inr (c', out)"
  shows "coord_given_inv files n c'"
proof -
  have "coord_inv files n c'"
    using assms(1,3) coord_exec_inv by (auto simp: coord_given_inv_def)
  moreover have "\<forall>i < length files. map_complete c' ! i \<longrightarrow> int i < counter_map c'"
    using assms
    by (cases x)
      (auto simp: coord_given_inv_def coord_inv_def call_reports_given_def RegisterWorker_def
        GiveMapTask_def GiveMapTask_locked_def GiveReduceTask_def GiveReduceTask_locked_def
        CheckLastMapDone_cases CheckLastReduceDone_cases nth_list_update Let_def go_iff
        split: if_splits)
  ultimately show ?thesis by (simp add: coord_given_inv_def)
qed

interpretation coordg: go_machine coord_exec "coord_given_inv files n" call_reports_given for files n
  by unfold_locales (rule coord_exec_given_inv)

lemma coord_all_maps_done:
  assumes "coord_given_inv files n c" and "done_map c = int (length files)"
  shows "(\<forall>i < length files. map_complete c ! i) \<and> counter_map c = int (length files)"
proof -
  have full: "\<forall>i < length files. map_complete c ! i"
    using assms count_true_full [of "map_complete c"]
    by (simp add: coord_given_inv_def coord_inv_def)
  moreover have "counter_map c = int (length files)"
  proof (cases "length files")
    case 0
    then show ?thesis using assms(1) by (simp add: coord_given_inv_def coord_inv_def)
  next
    case (Suc k)
    with full assms(1) have "int k < counter_map c" by (simp add: coord_given_inv_def)
    with assms(1) Suc show ?thesis by (simp add: coord_given_inv_def coord_inv_def)
  qed
  ultimately show ?thesis by blast
qed

text \<open>
  After any sequence of calls in which workers report only tasks that were given, a request
  for a reduce task is answered with a real task (not the wait marker -1) only if every map task
  is complete; the task's number is in range and its file list names the intermediate file of
  every map task for that reduce task.
\<close>

theorem reduce_task_waits_for_maps:
  assumes "MakeCoordinator files n = Inr c0"
    and "go_allowed coord_exec call_reports_given c0 calls"
    and "coord_run c0 calls = Inr (c, outs)"
    and "GiveReduceTask c a = Inr (c', Inr r, ms)" and "rr_Reducetask_id r \<noteq> -1"
  shows "(\<forall>i < length files. map_complete c ! i) \<and>
         0 \<le> rr_Reducetask_id r \<and> rr_Reducetask_id r < n \<and>
         rr_Reducefiles r = map (\<lambda>i. intermediate_name (int i) (rr_Reducetask_id r)) [0..<length files]"
proof -
  have "coord_given_inv files n c0"
    using MakeCoordinator_inv [OF assms(1)] assms(1)
    by (auto simp: coord_given_inv_def MakeCoordinator_def go_iff)
  from coordg.run_invar [OF this assms(2,3)] have inv: "coord_given_inv files n c" .
  from assms(4,5) have ready: "done_map c = int (length files)"
    and "rr_Reducetask_id r = counter_reduce c" and "counter_reduce c < nReduce c"
    and "rr_Reducefiles r =
           map (\<lambda>i. intermediate_name (int i) (counter_reduce c)) [0..<nat (counter_map c)]"
    using inv
    by (auto simp: GiveReduceTask_def GiveReduceTask_notReady_def GiveReduceTask_test_def
        GiveReduceTask_locked_def Let_def go_iff coord_given_inv_def coord_inv_def split: if_splits)
  with coord_all_maps_done [OF inv ready] inv show ?thesis
    by (simp add: coord_given_inv_def coord_inv_def)
qed

lemma reduce_task_waits_for_maps_witness:
  "\<exists>c0 c outs c' r ms. MakeCoordinator [''a''] 1 = Inr c0 \<and>
     coord_run c0 [Call_GiveMapTask (example_map_args 0), Call_CheckLastMapDone (example_map_args 0)]
       = Inr (c, outs) \<and>
     GiveReduceTask c (example_reduce_args 0) = Inr (c', Inr r, ms) \<and> rr_Reducetask_id r \<noteq> -1 \<and>
     map_complete c ! 0 \<and>
     0 \<le> rr_Reducetask_id r \<and> rr_Reducetask_id r < 1 \<and>
     rr_Reducefiles r = map (\<lambda>i. intermediate_name (int i) (rr_Reducetask_id r)) [0..<length [''a'']]"
proof -
  let ?calls = "[Call_GiveMapTask (example_map_args 0), Call_CheckLastMapDone (example_map_args 0)]"
  note defs = MakeCoordinator_def go_make_def GiveMapTask_def GiveMapTask_test_def
    GiveMapTask_locked_def go_nth_def go_update_def CheckLastMapDone_def MapDone_test_def
    MapDone_set_def MapDone_inc_def
  obtain c0 where c0: "MakeCoordinator [''a''] 1 = Inr c0" by (simp add: defs)
  have allowed: "go_allowed coord_exec call_reports_given c0 ?calls"
    using c0 by (auto simp: defs call_reports_given_def)
  obtain c outs where run: "coord_run c0 ?calls = Inr (c, outs)"
    using c0 by (auto simp: defs)
  obtain c' r ms where give: "GiveReduceTask c (example_reduce_args 0) = Inr (c', Inr r, ms)"
    and real: "rr_Reducetask_id r \<noteq> -1"
    using c0 run
    by (auto simp: defs GiveReduceTask_def GiveReduceTask_notReady_def GiveReduceTask_test_def
        GiveReduceTask_locked_def Let_def)
  from reduce_task_waits_for_maps [OF c0 allowed run give real] have "map_complete c ! 0" by simp
  with c0 run give real reduce_task_waits_for_maps [OF c0 allowed run give real]
  show ?thesis by blast
qed

section \<open>Choosing a worker\<close>

lemma pick_worker_find:
  "pick_worker dl xs =
     ((case find (\<lambda>(p, a). dl a) xs of None \<Rightarrow> '''' | Some (p, a) \<Rightarrow> a),
      map fst (takeWhile (\<lambda>(p, a). \<not> dl a) xs))"
  by (induction dl xs rule: pick_worker.induct) (auto split: prod.splits)

lemma map_of_takeWhile_removed:
  assumes "distinct (map fst xs)"
  shows "map_of xs |` (- set (map fst (takeWhile P xs))) = map_of (dropWhile P xs)"
proof
  fix k
  have split: "xs = takeWhile P xs @ dropWhile P xs" by simp
  have disj: "set (map fst (takeWhile P xs)) \<inter> set (map fst (dropWhile P xs)) = {}"
    using assms by (metis distinct_append map_append split)
  show "(map_of xs |` (- set (map fst (takeWhile P xs)))) k = map_of (dropWhile P xs) k"
  proof (cases "k \<in> set (map fst (takeWhile P xs))")
    case True
    with disj have "map_of (dropWhile P xs) k = None"
      by (auto simp: map_of_eq_None_iff)
    with True show ?thesis by simp
  next
    case False
    then have "map_of (takeWhile P xs) k = None" by (simp add: map_of_eq_None_iff)
    then have "map_of xs k = map_of (dropWhile P xs) k"
      by (subst split) (simp only: map_of_append map_add_def option.simps)
    with False show ?thesis by simp
  qed
qed

text \<open>
  When the loop meets the entries of the worker book in some order, \<open>callWorker\<close> ends the
  process if no entry answers (or the one found has the empty address), or if the worker found dies
  before the second dial; otherwise it calls the first worker that answers and removes exactly
  the dead entries met before it, leaving the rest of the state unchanged.
\<close>

theorem callWorker_first_live:
  assumes "distinct (map fst (order env))" and "worker_book c = map_of (order env)"
  shows "callWorker env c =
     (case find (\<lambda>(pid, addr). dial env addr) (order env) of
        None \<Rightarrow> Inl (LogFatal ''No available workers in worker_book'')
      | Some (pid, addr) \<Rightarrow>
          if addr = '''' then Inl (LogFatal ''No available workers in worker_book'')
          else if \<not> redial env addr then Inl (LogFatal ''Dead connection during RPC::'')
          else Inr (c\<lparr>worker_book := map_of (dropWhile (\<lambda>(pid, addr). \<not> dial env addr) (order env))\<rparr>,
                    addr, rpc_ok env addr))"
  using map_of_takeWhile_removed [OF assms(1), of "\<lambda>(pid, addr). \<not> dial env addr"] assms(2)
  by (auto simp: callWorker_def pick_worker_find delete_workers_def split: option.splits)

definition example_env :: dial_env where
  "example_env = \<lparr>dial = (\<lambda>a. a = ''live''), redial = (\<lambda>_. True), rpc_ok = (\<lambda>_. True),
     order = [(1, ''dead''), (2, ''live''), (3, ''gone'')]\<rparr>"

definition example_coord :: coordinator where
  "example_coord =
     \<lparr>filenames = [''a''], counter_map = 1, counter_reduce = 0, nReduce = 1, done_map = 0,
      done_reduce = 0, worker_book = map_of [(1, ''dead''), (2, ''live''), (3, ''gone'')],
      map_complete = [False], reduce_complete = [False]\<rparr>"

lemma callWorker_first_live_witness:
  "callWorker example_env example_coord =
     Inr (example_coord\<lparr>worker_book := map_of [(2, ''live''), (3, ''gone'')]\<rparr>, ''live'', True)"
proof -
  have "distinct (map fst (order example_env))"
    and "worker_book example_coord = map_of (order example_env)"
    by (simp_all add: example_env_def example_coord_def)
  from callWorker_first_live [OF this] show ?thesis by (simp add: example_env_def)
qed

section \<open>Monitors\<close>

text \<open>
  A map monitor that sees its task's flag unset at the first m looks and set at the next one
  stops there, having sent exactly m requests, each with the task's own arguments: the loop ends
  as soon as the task is complete, whatever the fuel beyond m looks.
\<close>

theorem map_monitor_redoes_until_complete:
  assumes "\<forall>j < m. go_nth (map_complete (cs j)) t = Inr False \<and>
             callWorkerRedoMap (env (k + j)) (cs j) t = Inr (cd j, addr j, args j) \<and>
             cs (Suc j) = others (k + j) (cd j)"
    and "go_nth (map_complete (cs m)) t = Inr True" and "m < fuel"
  shows "spawn_map_monitor fuel env others k (cs 0) t =
           Some (Inr (cs m, map (\<lambda>j. (addr j, args j)) [0..<m]))"
  using assms
proof (induction m arbitrary: k cs cd addr args fuel)
  case 0
  then obtain f where "fuel = Suc f" by (cases fuel) auto
  with 0 show ?case by simp
next
  case (Suc m)
  from Suc.prems(3) obtain f where f: "fuel = Suc f" "m < f" by (cases fuel) auto
  have first: "go_nth (map_complete (cs 0)) t = Inr False"
    "callWorkerRedoMap (env k) (cs 0) t = Inr (cd 0, addr 0, args 0)" "cs 1 = others k (cd 0)"
    using Suc.prems(1) by force+
  have "spawn_map_monitor f env others (Suc k) (cs (Suc 0)) t =
      Some (Inr (cs (Suc m), map (\<lambda>j. (addr (Suc j), args (Suc j))) [0..<m]))"
  proof (rule Suc.IH [where cd = "\<lambda>j. cd (Suc j)"])
    show "\<forall>j < m. go_nth (map_complete (cs (Suc j))) t = Inr False \<and>
        callWorkerRedoMap (env (Suc k + j)) (cs (Suc j)) t = Inr (cd (Suc j), addr (Suc j), args (Suc j)) \<and>
        cs (Suc (Suc j)) = others (Suc k + j) (cd (Suc j))"
    proof (intro allI impI)
      fix j assume "j < m"
      with Suc.prems(1) [rule_format, of "Suc j"]
      show "go_nth (map_complete (cs (Suc j))) t = Inr False \<and>
        callWorkerRedoMap (env (Suc k + j)) (cs (Suc j)) t = Inr (cd (Suc j), addr (Suc j), args (Suc j)) \<and>
        cs (Suc (Suc j)) = others (Suc k + j) (cd (Suc j))"
        by simp
    qed
  qed (use Suc.prems(2) f(2) in simp_all)
  moreover have "map (\<lambda>j. (addr j, args j)) [0..<Suc m] =
      (addr 0, args 0) # map (\<lambda>j. (addr (Suc j), args (Suc j))) [0..<m]"
    by (simp add: map_upt_Suc del: upt_Suc)
  ultimately show ?case using first f(1) by (simp del: upt_Suc)
qed

lemma map_monitor_redoes_until_complete_witness:
  "spawn_map_monitor 5 (\<lambda>_. example_env) (\<lambda>_ c. c\<lparr>map_complete := [True]\<rparr>) 0 example_coord 0 =
     Some (Inr (example_coord\<lparr>worker_book := map_of [(2, ''live''), (3, ''gone'')], map_complete := [True]\<rparr>,
       [(''live'', \<lparr>ma_NReduce = 1, ma_Filename = ''a'', ma_Maptask_id = 0, ma_Worker_id = 0\<rparr>)]))"
proof -
  let ?book = "map_of [(2, ''live''), (3, ''gone'')]"
  let ?cd = "example_coord\<lparr>worker_book := ?book\<rparr>"
  let ?cs = "\<lambda>j. if j = 0 then example_coord else ?cd\<lparr>map_complete := [True]\<rparr>"
  let ?args = "\<lparr>ma_NReduce = 1, ma_Filename = ''a'', ma_Maptask_id = 0, ma_Worker_id = 0\<rparr>"
  have "callWorkerRedoMap example_env example_coord 0 = Inr (?cd, ''live'', ?args)"
    by (auto simp: callWorkerRedoMap_def callWorker_def example_env_def example_coord_def
        delete_workers_def go_nth_def restrict_map_def fun_eq_iff)
  then show ?thesis
    using map_monitor_redoes_until_complete [where m = 1 and cs = ?cs and cd = "\<lambda>_. ?cd" and t = 0
        and addr = "\<lambda>_. ''live''" and args = "\<lambda>_. ?args" and env = "\<lambda>_. example_env" and k = 0
        and others = "\<lambda>_ c. c\<lparr>map_complete := [True]\<rparr>" and fuel = 5]
    by (simp add: go_nth_def example_coord_def)
qed

end
