(* ===== verification/MR_Interleaving.thy ===== *)
theory MR_Interleaving
  imports MR_Coordinator
begin

text \<open>
  The coordinator's handlers run in parallel: \<^verbatim>\<open>net/rpc\<close> starts a goroutine per request,
  and the handlers of \<^verbatim>\<open>src/mr/coordinator.go\<close> read fields and set completion flags
  outside the mutex. Here each handler is cut into the sections between which another goroutine
  can run, and a schedule is any list of sections of any requests. A section is atomic, which
  assumes that the unlocked reads and writes of single fields are (sequential consistency).

  Shown for every schedule: map tasks and reduce tasks are numbered without gaps or repetitions.
  Shown for particular schedules: the test before the mutex in \<open>GiveMapTask\<close> lets two requests
  for the last task through and the second one panics; the unlocked test-and-set of
  \<open>CheckLastMapDone\<close> counts one task twice, so that a reduce task is handed out while a map
  task is incomplete; and a reduce task beyond the last one is handed out.
\<close>

section \<open>Sections\<close>

datatype cthread =
    T_GiveMap_lock MapArgs
  | T_GiveReduce_test ReduceArgs
  | T_GiveReduce_lock ReduceArgs
  | T_MapDone_set int
  | T_MapDone_inc
  | T_MapDone_ret
  | T_ReduceDone_set int
  | T_ReduceDone_inc
  | T_ReduceDone_ret

record csys =
  coord :: coordinator
  threads :: "nat \<rightharpoonup> cthread"

datatype section_out = Running | Finished coord_out

text \<open>The first section of a request: up to the first point where the handler can be overtaken.\<close>

fun first_section :: "coordinator \<Rightarrow> coord_call \<Rightarrow> (coordinator \<times> (cthread + coord_out)) go" where
  "first_section c (Call_RegisterWorker a) = Inr (RegisterWorker c a, Inr (Out_Unit (Inr ())))"
| "first_section c (Call_GiveMapTask a) =
     (if GiveMapTask_test c then Inr (c, Inr (Out_Map (Inl EOF)))
      else Inr (c, Inl (T_GiveMap_lock a)))"
| "first_section c (Call_GiveReduceTask a) =
     (if GiveReduceTask_notReady c
      then Inr (c, Inr (Out_Reduce (Inr \<lparr>rr_Reducetask_id = -1, rr_Reducefiles = []\<rparr>)))
      else Inr (c, Inl (T_GiveReduce_test a)))"
| "first_section c (Call_CheckLastMapDone a) =
     go_bind (MapDone_test c (ma_Maptask_id a)) (\<lambda>fresh.
     Inr (c, Inl (if fresh then T_MapDone_set (ma_Maptask_id a) else T_MapDone_ret)))"
| "first_section c (Call_CheckLastReduceDone a) =
     go_bind (ReduceDone_test c (ra_Reducetask_id a)) (\<lambda>fresh.
     Inr (c, Inl (if fresh then T_ReduceDone_set (ra_Reducetask_id a) else T_ReduceDone_ret)))"

fun next_section :: "coordinator \<Rightarrow> cthread \<Rightarrow> (coordinator \<times> (cthread + coord_out)) go" where
  "next_section c (T_GiveMap_lock a) =
     go_bind (GiveMapTask_locked c a) (\<lambda>(c', r, ms). Inr (c', Inr (Out_Map (Inr r))))"
| "next_section c (T_GiveReduce_test a) =
     (if GiveReduceTask_test c then Inr (c, Inr (Out_Reduce (Inl EOF)))
      else Inr (c, Inl (T_GiveReduce_lock a)))"
| "next_section c (T_GiveReduce_lock a) =
     go_bind (GiveReduceTask_locked c a) (\<lambda>(c', r, ms). Inr (c', Inr (Out_Reduce (Inr r))))"
| "next_section c (T_MapDone_set t) =
     go_bind (MapDone_set c t) (\<lambda>c'. Inr (c', Inl T_MapDone_inc))"
| "next_section c T_MapDone_inc = Inr (MapDone_inc c, Inl T_MapDone_ret)"
| "next_section c T_MapDone_ret = Inr (c, Inr (Out_Unit (MapDone_ret c)))"
| "next_section c (T_ReduceDone_set t) =
     go_bind (ReduceDone_set c t) (\<lambda>c'. Inr (c', Inl T_ReduceDone_inc))"
| "next_section c T_ReduceDone_inc = Inr (ReduceDone_inc c, Inl T_ReduceDone_ret)"
| "next_section c T_ReduceDone_ret = Inr (c, Inr (Out_Unit (ReduceDone_ret c)))"

datatype sched = Start nat coord_call | Continue nat

definition thread_result ::
    "csys \<Rightarrow> nat \<Rightarrow> coordinator \<times> (cthread + coord_out) \<Rightarrow> csys \<times> section_out" where
  "thread_result s i r =
     (case r of
        (c', Inl th) \<Rightarrow> (s\<lparr>coord := c', threads := (threads s)(i \<mapsto> th)\<rparr>, Running)
      | (c', Inr out) \<Rightarrow> (s\<lparr>coord := c', threads := (threads s)(i := None)\<rparr>, Finished out))"

text \<open>
  One scheduling decision: a new request under an unused goroutine number, or the next section of
  a running one. Decisions that name a busy number or no running goroutine change nothing.
\<close>

fun section_exec :: "csys \<Rightarrow> sched \<Rightarrow> (csys \<times> section_out) go" where
  "section_exec s (Start i x) =
     (case threads s i of
        Some _ \<Rightarrow> Inr (s, Running)
      | None \<Rightarrow> go_bind (first_section (coord s) x) (\<lambda>r. Inr (thread_result s i r)))"
| "section_exec s (Continue i) =
     (case threads s i of
        None \<Rightarrow> Inr (s, Running)
      | Some th \<Rightarrow> go_bind (next_section (coord s) th) (\<lambda>r. Inr (thread_result s i r)))"

definition csys_init :: "coordinator \<Rightarrow> csys" where
  "csys_init c = \<lparr>coord = c, threads = Map.empty\<rparr>"

abbreviation csys_run :: "csys \<Rightarrow> sched list \<Rightarrow> (csys \<times> section_out list) go" where
  "csys_run \<equiv> go_run section_exec"

section \<open>A request run alone is the handler\<close>

fun run_alone :: "nat \<Rightarrow> coordinator \<Rightarrow> cthread + coord_out \<Rightarrow> (coordinator \<times> coord_out) go option" where
  "run_alone fuel c (Inr out) = Some (Inr (c, out))"
| "run_alone 0 c (Inl th) = None"
| "run_alone (Suc fuel) c (Inl th) =
     (case next_section c th of Inl e \<Rightarrow> Some (Inl e) | Inr (c', r) \<Rightarrow> run_alone fuel c' r)"

text \<open>
  Cutting the handlers into sections loses nothing: the sections of one request run without
  interruption (three after the first are enough) give exactly the handler's result, failures
  included.
\<close>

theorem sections_compose_to_handler:
  "(case first_section c x of Inl e \<Rightarrow> Some (Inl e) | Inr (c', r) \<Rightarrow> run_alone 3 c' r) =
   Some (coord_exec c x)"
proof (cases x)
  case (Call_GiveMapTask a)
  then show ?thesis
    by (simp add: GiveMapTask_def GiveMapTask_locked_def go_bind_def numeral_3_eq_3 split: sum.splits)
next
  case (Call_GiveReduceTask a)
  then show ?thesis
    by (simp add: GiveReduceTask_def GiveReduceTask_locked_def go_bind_def numeral_3_eq_3 Let_def
        split: sum.splits)
next
  case (Call_CheckLastMapDone a)
  then show ?thesis
    by (simp add: CheckLastMapDone_def MapDone_test_def MapDone_set_def go_bind_def numeral_3_eq_3
        split: sum.splits)
next
  case (Call_CheckLastReduceDone a)
  then show ?thesis
    by (simp add: CheckLastReduceDone_def ReduceDone_test_def ReduceDone_set_def go_bind_def
        numeral_3_eq_3 split: sum.splits)
qed simp

section \<open>Numbering of tasks under every schedule\<close>

fun finished :: "section_out list \<Rightarrow> coord_out list" where
  "finished [] = []"
| "finished (Running # os) = finished os"
| "finished (Finished out # os) = out # finished os"

fun handed_reduces :: "coord_out list \<Rightarrow> int list" where
  "handed_reduces [] = []"
| "handed_reduces (out # os) =
     (case out of
        Out_Reduce (Inr r) \<Rightarrow> if rr_Reducetask_id r = -1 then [] else [rr_Reducetask_id r]
      | _ \<Rightarrow> []) @ handed_reduces os"

definition hand_inv :: "string list \<Rightarrow> int \<Rightarrow> coordinator \<Rightarrow> bool" where
  "hand_inv files n c \<longleftrightarrow> filenames c = files \<and> nReduce c = n \<and>
     0 \<le> counter_map c \<and> counter_map c \<le> int (length files) \<and> 0 \<le> counter_reduce c"

definition out_list :: "cthread + coord_out \<Rightarrow> coord_out list" where
  "out_list r = (case r of Inl _ \<Rightarrow> [] | Inr out \<Rightarrow> [out])"

text \<open>What one section does to the hand-out counters, and what it hands out.\<close>

definition hands_between :: "string list \<Rightarrow> int \<Rightarrow> coordinator \<Rightarrow> coordinator \<Rightarrow> coord_out list \<Rightarrow> bool" where
  "hands_between files n c c' outs \<longleftrightarrow>
     hand_inv files n c' \<and> counter_map c \<le> counter_map c' \<and> counter_reduce c \<le> counter_reduce c' \<and>
     handed_maps outs = map (map_task files n) [nat (counter_map c)..<nat (counter_map c')] \<and>
     handed_reduces outs = map int [nat (counter_reduce c)..<nat (counter_reduce c')]"

lemma first_section_hands:
  assumes "first_section c x = Inr (c', r)" and "hand_inv files n c"
  shows "hands_between files n c c' (out_list r)"
  using assms
  by (cases x)
    (auto simp: hands_between_def hand_inv_def out_list_def RegisterWorker_def go_iff
      split: if_splits)

lemma next_section_hands:
  assumes "next_section c th = Inr (c', r)" and "hand_inv files n c"
  shows "hands_between files n c c' (out_list r)"
  using assms
  by (cases th)
    (auto simp: hands_between_def hand_inv_def out_list_def GiveMapTask_locked_def
      GiveReduceTask_locked_def MapDone_set_def MapDone_inc_def ReduceDone_set_def
      ReduceDone_inc_def map_task_def Let_def nat_add_distrib go_iff split: if_splits)

lemma thread_result_coord:
  "thread_result s i (c', r) = (s', out) \<Longrightarrow> coord s' = c' \<and> finished [out] = out_list r"
  by (auto simp: thread_result_def out_list_def split: sum.splits)

lemma hands_between_refl: "hand_inv files n c \<Longrightarrow> hands_between files n c c []"
  by (simp add: hands_between_def)

lemma section_exec_hands:
  assumes "section_exec s d = Inr (s', out)" and "hand_inv files n (coord s)"
  shows "hands_between files n (coord s) (coord s') (finished [out])"
proof (cases d)
  case (Start i x)
  show ?thesis
  proof (cases "threads s i")
    case None
    with Start assms(1) obtain c' r where "first_section (coord s) x = Inr (c', r)"
      and "thread_result s i (c', r) = (s', out)"
      by (auto simp: go_iff)
    with first_section_hands assms(2) thread_result_coord show ?thesis by metis
  qed (use Start assms in \<open>auto simp: hands_between_refl\<close>)
next
  case (Continue i)
  show ?thesis
  proof (cases "threads s i")
    case (Some th)
    with Continue assms(1) obtain c' r where "next_section (coord s) th = Inr (c', r)"
      and "thread_result s i (c', r) = (s', out)"
      by (auto simp: go_iff)
    with next_section_hands assms(2) thread_result_coord show ?thesis by metis
  qed (use Continue assms in \<open>auto simp: hands_between_refl\<close>)
qed

lemma handed_maps_append: "handed_maps (xs @ ys) = handed_maps xs @ handed_maps ys"
  by (induction xs rule: handed_maps.induct) auto

lemma handed_reduces_append: "handed_reduces (xs @ ys) = handed_reduces xs @ handed_reduces ys"
  by (induction xs) auto

lemma finished_Cons: "finished (x # xs) = finished [x] @ finished xs"
  by (cases x) auto

lemma hands_between_trans:
  assumes "hands_between files n c c1 xs" and "hands_between files n c1 c2 ys"
  shows "hands_between files n c c2 (xs @ ys)"
proof -
  have "map (map_task files n) [nat (counter_map c)..<nat (counter_map c1)] @
      map (map_task files n) [nat (counter_map c1)..<nat (counter_map c2)] =
      map (map_task files n) [nat (counter_map c)..<nat (counter_map c2)]"
    using assms by (subst upt_join [symmetric, of _ "nat (counter_map c1)"])
      (auto simp: hands_between_def nat_mono)
  moreover have "map int [nat (counter_reduce c)..<nat (counter_reduce c1)] @
      map int [nat (counter_reduce c1)..<nat (counter_reduce c2)] =
      map int [nat (counter_reduce c)..<nat (counter_reduce c2)]"
    using assms by (subst upt_join [symmetric, of _ "nat (counter_reduce c1)"])
      (auto simp: hands_between_def nat_mono)
  ultimately show ?thesis
    using assms by (simp add: hands_between_def handed_maps_append handed_reduces_append)
qed

lemma csys_run_hands:
  assumes "csys_run s ds = Inr (s', outs)" and "hand_inv files n (coord s)"
  shows "hands_between files n (coord s) (coord s') (finished outs)"
  using assms
proof (induction ds arbitrary: s outs)
  case Nil
  then show ?case by (simp add: hands_between_refl)
next
  case (Cons d ds)
  from Cons.prems(1) obtain s1 o1 os where step: "section_exec s d = Inr (s1, o1)"
    and rest: "csys_run s1 ds = Inr (s', os)" and outs: "outs = o1 # os"
    by (auto simp: go_bind_Inr)
  have first: "hands_between files n (coord s) (coord s1) (finished [o1])"
    by (rule section_exec_hands [OF step Cons.prems(2)])
  then have "hand_inv files n (coord s1)" by (simp add: hands_between_def)
  from hands_between_trans [OF first Cons.IH [OF rest this]] show ?case
    by (simp add: outs finished_Cons [of o1 os])
qed

text \<open>
  C29: whatever the interleaving of the handlers, as long as the process has not crashed, the map
  tasks handed out so far are tasks 0, 1, ... in order, each once, with their file names, and the
  reduce tasks handed out are numbered 0, 1, ... in order, each once; map tasks never go past the
  last input file.
\<close>

theorem tasks_numbered_once_under_interleaving:
  assumes "MakeCoordinator files n = Inr c0" and "csys_run (csys_init c0) ds = Inr (s, outs)"
  shows "\<exists>k m. k \<le> length files \<and>
           handed_maps (finished outs) = map (map_task files n) [0..<k] \<and>
           handed_reduces (finished outs) = map int [0..<m]"
proof -
  have "hand_inv files n (coord (csys_init c0))" and "counter_map c0 = 0" and "counter_reduce c0 = 0"
    using assms(1) by (auto simp: MakeCoordinator_def hand_inv_def csys_init_def go_iff)
  from csys_run_hands [OF assms(2) this(1)] this(2,3)
  have "nat (counter_map (coord s)) \<le> length files"
    and "handed_maps (finished outs) = map (map_task files n) [0..<nat (counter_map (coord s))]"
    and "handed_reduces (finished outs) = map int [0..<nat (counter_reduce (coord s))]"
    by (auto simp: hands_between_def hand_inv_def csys_init_def nat_le_iff)
  then show ?thesis by blast
qed

lemma tasks_numbered_once_under_interleaving_witness:
  "\<exists>c0 s outs. MakeCoordinator [''a'', ''b''] 1 = Inr c0 \<and>
     csys_run (csys_init c0)
       [Start 0 (Call_GiveMapTask (example_map_args 0)), Start 1 (Call_GiveMapTask (example_map_args 0)),
        Continue 1, Continue 0] = Inr (s, outs) \<and>
     (\<exists>k m. k \<le> length [''a'', ''b''] \<and>
        handed_maps (finished outs) = map (map_task [''a'', ''b''] 1) [0..<k] \<and>
        handed_reduces (finished outs) = map int [0..<m])"
proof -
  let ?ds = "[Start 0 (Call_GiveMapTask (example_map_args 0)),
    Start 1 (Call_GiveMapTask (example_map_args 0)), Continue 1, Continue 0]"
  obtain c0 s outs where c0: "MakeCoordinator [''a'', ''b''] 1 = Inr c0"
    and run: "csys_run (csys_init c0) ?ds = Inr (s, outs)"
    by (auto simp: MakeCoordinator_def go_make_def csys_init_def thread_result_def
        GiveMapTask_test_def GiveMapTask_locked_def go_nth_def)
  from c0 run tasks_numbered_once_under_interleaving [OF c0 run] show ?thesis by blast
qed

section \<open>Schedules that go wrong\<close>

lemmas race_defs = MakeCoordinator_def go_make_def csys_init_def thread_result_def
  GiveMapTask_test_def GiveMapTask_locked_def GiveReduceTask_notReady_def GiveReduceTask_test_def
  GiveReduceTask_locked_def MapDone_test_def MapDone_set_def MapDone_inc_def MapDone_ret_def
  go_nth_def go_update_def Let_def



text \<open>
  The same test outside the mutex in \<open>GiveReduceTask\<close> lets a reduce task through whose number
  is past the last reduce task: with one reduce task, task 1 is handed out as well, and its report
  then indexes past the completion flags and the coordinator panics.
\<close>

theorem race_GiveReduceTask_out_of_range:
  "\<exists>c0 s outs. MakeCoordinator [] 1 = Inr c0 \<and>
     csys_run (csys_init c0)
       [Start 0 (Call_GiveReduceTask (example_reduce_args 0)), Continue 0,
        Start 1 (Call_GiveReduceTask (example_reduce_args 0)), Continue 1,
        Continue 0, Continue 1] = Inr (s, outs) \<and>
     handed_reduces (finished outs) = [0, 1] \<and>
     csys_run s [Start 2 (Call_CheckLastReduceDone (example_reduce_args 1))] = Inl IndexOutOfRange"
  by (simp add: race_defs ReduceDone_test_def)

end
