(* ===== verification/MR_Json.thy ===== *)
theory MR_Json
  imports GoPrelude
begin

text \<open>
  The JSON text of the intermediate files, as \<^verbatim>\<open>encoding/json\<close> writes and reads it for
  the struct \<^verbatim>\<open>KeyValue\<close> of \<^verbatim>\<open>src/mr/worker.go\<close>. A string is a list of bytes. The
  encoder escapes the quote, the backslash, control characters and the three HTML characters, as
  \<^verbatim>\<open>json.NewEncoder\<close> does by default; it ends each value with a newline. The decoder skips
  white space and reads the object form the encoder writes, with every escape of that form, and
  treats any other text as a decode error, which is where the read loop stops. Bytes from 128 on
  are copied; the theorems speak of ASCII keys and values, since the real encoder replaces bytes
  that are not valid UTF-8.
\<close>

record KeyValue =
  Key :: string
  Value :: string

section \<open>Encoder\<close>

abbreviation quote :: char where "quote \<equiv> CHR 0x22"

abbreviation backslash :: char where "backslash \<equiv> CHR 0x5C"

definition hex_digit :: "nat \<Rightarrow> char" where
  "hex_digit d = (if d < 10 then char_of (48 + d) else char_of (87 + d))"

definition json_escape :: "char \<Rightarrow> string" where
  "json_escape c =
     (if c = quote \<or> c = backslash then [backslash, c]
      else if c = CHR 0x0A then [backslash, CHR ''n'']
      else if c = CHR 0x0D then [backslash, CHR ''r'']
      else if c = CHR 0x09 then [backslash, CHR ''t'']
      else if of_char c < (32 :: nat) \<or> c \<in> {CHR ''<'', CHR ''>'', CHR ''&''}
      then [backslash, CHR ''u'', CHR ''0'', CHR ''0'',
            hex_digit (of_char c div 16), hex_digit (of_char c mod 16)]
      else [c])"

definition json_string :: "string \<Rightarrow> string" where
  "json_string s = quote # concat (map json_escape s) @ [quote]"

definition json_key_prefix :: string where
  "json_key_prefix = [CHR ''{'', quote] @ ''Key'' @ [quote, CHR '':'']"

definition json_value_prefix :: string where
  "json_value_prefix = [CHR '','', quote] @ ''Value'' @ [quote, CHR '':'']"

definition json_encode :: "KeyValue \<Rightarrow> string" where
  "json_encode kv =
     json_key_prefix @ json_string (Key kv) @ json_value_prefix @ json_string (Value kv) @
     [CHR ''}'', CHR 0x0A]"

section \<open>Decoder\<close>

definition json_space :: "char \<Rightarrow> bool" where
  "json_space c \<longleftrightarrow> c \<in> {CHR 0x20, CHR 0x09, CHR 0x0A, CHR 0x0D}"

definition hex_value :: "char \<Rightarrow> nat option" where
  "hex_value c =
     (let n = of_char c in
      if 48 \<le> n \<and> n < 58 then Some (n - 48)
      else if 97 \<le> n \<and> n < 103 then Some (n - 87)
      else if 65 \<le> n \<and> n < 71 then Some (n - 55)
      else None)"

definition simple_escape :: "char \<Rightarrow> char option" where
  "simple_escape c =
     (if c = quote \<or> c = backslash \<or> c = CHR ''/'' then Some c
      else if c = CHR ''n'' then Some (CHR 0x0A)
      else if c = CHR ''r'' then Some (CHR 0x0D)
      else if c = CHR ''t'' then Some (CHR 0x09)
      else if c = CHR ''b'' then Some (CHR 0x08)
      else if c = CHR ''f'' then Some (CHR 0x0C)
      else None)"

text \<open>The four hexadecimal digits of an escaped ASCII character.\<close>

definition hex_ascii :: "char \<Rightarrow> char \<Rightarrow> char \<Rightarrow> char \<Rightarrow> char option" where
  "hex_ascii a b c d =
     (case (hex_value a, hex_value b, hex_value c, hex_value d) of
        (Some 0, Some 0, Some x, Some y) \<Rightarrow> if x < 8 then Some (char_of (16 * x + y)) else None
      | _ \<Rightarrow> None)"

definition cons_fst :: "char \<Rightarrow> (string \<times> string) option \<Rightarrow> (string \<times> string) option" where
  "cons_fst x r = map_option (\<lambda>(s, rest). (x # s, rest)) r"

fun json_unquote :: "string \<Rightarrow> (string \<times> string) option" where
  "json_unquote [] = None"
| "json_unquote (c # cs) =
     (if c = quote then Some ([], cs)
      else if c = backslash
      then (case cs of
              [] \<Rightarrow> None
            | e # ds \<Rightarrow>
                if e = CHR ''u''
                then (case ds of
                        h1 # h2 # h3 # h4 # rest \<Rightarrow>
                          (case hex_ascii h1 h2 h3 h4 of
                             None \<Rightarrow> None
                           | Some x \<Rightarrow> cons_fst x (json_unquote rest))
                      | _ \<Rightarrow> None)
                else (case simple_escape e of
                        None \<Rightarrow> None
                      | Some x \<Rightarrow> cons_fst x (json_unquote ds)))
      else if of_char c < (32 :: nat) then None
      else cons_fst c (json_unquote cs))"

fun strip_prefix :: "string \<Rightarrow> string \<Rightarrow> string option" where
  "strip_prefix [] s = Some s"
| "strip_prefix (p # ps) [] = None"
| "strip_prefix (p # ps) (c # cs) = (if p = c then strip_prefix ps cs else None)"

definition json_read_string :: "string \<Rightarrow> (string \<times> string) option" where
  "json_read_string s = Option.bind (strip_prefix [quote] s) json_unquote"

definition json_decode :: "string \<Rightarrow> (KeyValue \<times> string) option" where
  "json_decode s =
     Option.bind (strip_prefix json_key_prefix (dropWhile json_space s)) (\<lambda>s1.
     Option.bind (json_read_string s1) (\<lambda>(k, s2).
     Option.bind (strip_prefix json_value_prefix s2) (\<lambda>s3.
     Option.bind (json_read_string s3) (\<lambda>(v, s4).
     Option.bind (strip_prefix [CHR ''}''] s4) (\<lambda>s5.
     Some (\<lparr>Key = k, Value = v\<rparr>, s5))))))"

text \<open>
  The read loop of \<open>read_intermediates\<close>: decode until an error. Each value takes at least
  one byte, so as many rounds as the text has bytes are enough (\<open>decode_loop_enough\<close>).
\<close>

fun decode_loop :: "(string \<Rightarrow> ('a \<times> string) option) \<Rightarrow> nat \<Rightarrow> string \<Rightarrow> 'a list" where
  "decode_loop dec 0 s = []"
| "decode_loop dec (Suc fuel) s =
     (case dec s of None \<Rightarrow> [] | Some (x, rest) \<Rightarrow> x # decode_loop dec fuel rest)"

definition decode_file :: "string \<Rightarrow> KeyValue list" where
  "decode_file s = decode_loop json_decode (length s) s"

section \<open>Streams of encoded values\<close>

text \<open>
  What the worker relies on: a decoder that gives back one encoded value and leaves the separator
  and the rest, ignores a leading separator, consumes something for each value, and fails on the
  empty text.
\<close>

locale value_stream =
  fixes enc :: "'a \<Rightarrow> string"
    and dec :: "string \<Rightarrow> ('a \<times> string) option"
    and sep :: string
    and ok :: "'a \<Rightarrow> bool"
  assumes dec_enc: "ok x \<Longrightarrow> dec (enc x @ rest) = Some (x, sep @ rest)"
    and dec_sep: "dec (sep @ s) = dec s"
    and dec_Nil: "dec [] = None"
    and dec_shrinks: "dec s = Some (x, rest) \<Longrightarrow> length rest < length s"
begin

lemma decode_loop_enough:
  "length s \<le> fuel \<Longrightarrow> decode_loop dec fuel s = decode_loop dec (length s) s"
proof (induction fuel arbitrary: s rule: less_induct)
  case (less fuel)
  show ?case
  proof (cases "dec s")
    case None
    then show ?thesis by (cases fuel; cases "length s") auto
  next
    case (Some p)
    obtain x rest where p: "p = (x, rest)" by (cases p)
    with Some have shrink: "length rest < length s" by (simp add: dec_shrinks)
    with less.prems obtain f l where fl: "fuel = Suc f" "length s = Suc l"
      by (cases fuel; cases "length s") auto
    have "decode_loop dec f rest = decode_loop dec (length rest) rest"
      using less.IH [of f rest] shrink less.prems fl by simp
    moreover have "decode_loop dec l rest = decode_loop dec (length rest) rest"
      using less.IH [of l rest] shrink less.prems fl by simp
    ultimately show ?thesis using Some p fl by simp
  qed
qed

lemma decode_loop_sep: "decode_loop dec fuel (sep @ s) = decode_loop dec fuel s"
  by (cases fuel) (simp_all add: dec_sep)

lemma enc_nonempty: "ok x \<Longrightarrow> enc x \<noteq> []"
  using dec_enc [of x "[]"] dec_shrinks by fastforce

lemma decode_loop_concat:
  assumes "\<forall>x \<in> set xs. ok x" and "length (concat (map enc xs)) \<le> fuel"
  shows "decode_loop dec fuel (concat (map enc xs)) = xs"
  using assms
proof (induction xs arbitrary: fuel)
  case Nil
  then show ?case by (cases fuel) (simp_all add: dec_Nil)
next
  case (Cons x xs)
  have ok: "ok x" using Cons.prems(1) by simp
  from enc_nonempty [OF ok] Cons.prems(2) obtain f where f: "fuel = Suc f"
    and le: "length (concat (map enc xs)) \<le> f"
    by (cases fuel; cases "enc x") auto
  have "decode_loop dec f (sep @ concat (map enc xs)) = decode_loop dec f (concat (map enc xs))"
    by (rule decode_loop_sep)
  also have "\<dots> = xs" using Cons.IH [OF _ le] Cons.prems(1) by simp
  finally show ?case by (simp add: f dec_enc [OF ok])
qed

end

section \<open>The JSON codec is such a stream\<close>

definition ascii_string :: "string \<Rightarrow> bool" where
  "ascii_string s \<longleftrightarrow> (\<forall>c \<in> set s. of_char c < (128 :: nat))"

definition ascii_kv :: "KeyValue \<Rightarrow> bool" where
  "ascii_kv kv \<longleftrightarrow> ascii_string (Key kv) \<and> ascii_string (Value kv)"

lemma hex_value_digit: "d < 16 \<Longrightarrow> hex_value (hex_digit d) = Some d"
  by (auto simp: hex_value_def hex_digit_def Let_def)

lemma hex_ascii_digits:
  assumes "of_char c < (128 :: nat)"
  shows "hex_ascii (CHR ''0'') (CHR ''0'') (hex_digit (of_char c div 16)) (hex_digit (of_char c mod 16)) = Some c"
proof -
  have "hex_value (CHR ''0'') = Some 0" by (simp add: hex_value_def)
  moreover have "of_char c div 16 < (8 :: nat)" and "of_char c mod 16 < (16 :: nat)"
    using assms by auto
  moreover have "16 * (of_char c div 16) + of_char c mod 16 = (of_char c :: nat)" by simp
  ultimately show ?thesis by (simp add: hex_ascii_def hex_value_digit del: of_char_mod_256)
qed

lemma json_unquote_escape:
  assumes "of_char c < (128 :: nat)"
  shows "json_unquote (json_escape c @ t) = cons_fst c (json_unquote t)"
  using hex_ascii_digits [OF assms]
  by (auto simp: json_escape_def simple_escape_def)

lemma cons_fst_Some [simp]: "cons_fst x (Some (s, r)) = Some (x # s, r)"
  by (simp add: cons_fst_def)

lemma json_unquote_string:
  "ascii_string s \<Longrightarrow> json_unquote (concat (map json_escape s) @ quote # rest) = Some (s, rest)"
  by (induction s) (simp_all add: ascii_string_def json_unquote_escape)

lemma strip_prefix_append [simp]: "strip_prefix p (p @ s) = Some s"
  by (induction p) auto

lemma json_read_json_string:
  "ascii_string s \<Longrightarrow> json_read_string (json_string s @ rest) = Some (s, rest)"
  by (simp add: json_read_string_def json_string_def json_unquote_string)

lemma json_decode_encode:
  assumes "ascii_kv kv"
  shows "json_decode (json_encode kv @ rest) = Some (kv, [CHR 0x0A] @ rest)"
proof -
  have "dropWhile json_space (json_encode kv @ rest) = json_encode kv @ rest"
    by (simp add: json_encode_def json_key_prefix_def json_space_def)
  moreover have "ascii_string (Key kv)" "ascii_string (Value kv)"
    using assms by (simp_all add: ascii_kv_def)
  ultimately show ?thesis
    by (simp add: json_decode_def json_encode_def json_read_json_string)
qed

lemma json_decode_newline: "json_decode ([CHR 0x0A] @ s) = json_decode s"
  by (simp add: json_decode_def json_space_def)

lemma cons_fst_eq_Some: "cons_fst x r = Some (s, rest) \<longleftrightarrow> (\<exists>s'. r = Some (s', rest) \<and> s = x # s')"
  by (auto simp: cons_fst_def)

lemma json_unquote_shrinks: "json_unquote s = Some (x, rest) \<Longrightarrow> length rest < length s"
proof (induction s arbitrary: x rule: length_induct)
  case (1 s)
  have IH: "length rest \<le> length t" if "length t < length s" "json_unquote t = Some (y, rest)" for t y
    using "1.IH" that less_imp_le by blast
  from "1.prems" show ?case
    by (cases s)
      (auto simp: cons_fst_eq_Some split: if_splits list.splits option.splits
        dest!: IH [rotated] intro: less_SucI)
qed

lemma strip_prefix_shrinks: "strip_prefix p s = Some r \<Longrightarrow> length r = length s - length p \<and> length p \<le> length s"
  by (induction p s rule: strip_prefix.induct) (auto split: if_splits)

lemma json_read_string_shrinks: "json_read_string s = Some (x, rest) \<Longrightarrow> length rest < length s"
  by (auto simp: json_read_string_def bind_eq_Some_conv dest!: strip_prefix_shrinks json_unquote_shrinks)

lemma json_decode_shrinks: "json_decode s = Some (kv, rest) \<Longrightarrow> length rest < length s"
  using length_dropWhile_le [of json_space s]
  by (auto simp: json_decode_def bind_eq_Some_conv
      dest!: strip_prefix_shrinks json_read_string_shrinks)

interpretation js: value_stream json_encode json_decode "[CHR 0x0A]" ascii_kv
proof
  show "json_decode [] = None" by (simp add: json_decode_def json_key_prefix_def)
qed (simp_all add: json_decode_encode json_decode_newline json_decode_shrinks del: append.simps)

text \<open>
  C34: reading back a file of encoded key/value pairs gives the pairs in the order they were written,
  for ASCII keys and values (quotes, backslashes and control characters included).
\<close>

theorem json_file_round_trip:
  "\<forall>kv \<in> set kvs. ascii_kv kv \<Longrightarrow> decode_file (concat (map json_encode kvs)) = kvs"
  unfolding decode_file_def by (rule js.decode_loop_concat) simp_all

lemma json_file_round_trip_witness:
  "decode_file (concat (map json_encode
     [\<lparr>Key = [CHR 0x22, CHR 0x0A], Value = ''<1>''\<rparr>, \<lparr>Key = '''', Value = [backslash, CHR 0x07]\<rparr>])) =
   [\<lparr>Key = [CHR 0x22, CHR 0x0A], Value = ''<1>''\<rparr>, \<lparr>Key = '''', Value = [backslash, CHR 0x07]\<rparr>]"
  by (rule json_file_round_trip) (simp add: ascii_kv_def ascii_string_def)

end
