(* ===== verification/MR_Worker.thy ===== *)
theory MR_Worker
  imports MR_Coordinator MR_Json "HOL-Library.Word" "HOL-Library.List_Lexorder" "HOL-Library.Char_ord"
begin

text \<open>
  The MapReduce worker (\<^verbatim>\<open>src/mr/worker.go\<close>). Files are a map from names to byte strings;
  \<open>openable\<close> says for which names \<^verbatim>\<open>os.OpenFile\<close> for writing succeeds. \<open>srt\<close> stands for
  \<^verbatim>\<open>sort.Sort(ByKey(...))\<close>, which permutes its argument into key order and promises nothing
  about the order of equal keys. The map and reduce functions of the job are the arguments
  \<open>mapf\<close> and \<open>reducef\<close>.

  Shown here: the hash is in range; the reduce loop over two indices equals grouping adjacent equal
  keys; on sorted input every key is reduced once with all its values; each bucket file receives
  exactly the pairs of its bucket in order; doing a map task again changes nothing; the reduce
  loop of \<open>Worker\<close> never returns.
\<close>

unbundle bit_operations_syntax

type_synonym fs = "string \<rightharpoonup> string"

section \<open>Hash\<close>

text \<open>\<^verbatim>\<open>hash/fnv\<close>'s 32-bit FNV-1a: xor the byte in, then multiply.\<close>

definition fnv32a :: "string \<Rightarrow> 32 word" where
  "fnv32a s = foldl (\<lambda>h c. (h XOR of_char c) * 16777619) 2166136261 s"

definition ihash :: "string \<Rightarrow> int" where
  "ihash key = uint (fnv32a key AND 0x7fffffff)"

section \<open>Map side\<close>

definition perform_map :: "(string \<Rightarrow> string \<Rightarrow> KeyValue list) \<Rightarrow> fs \<Rightarrow> string \<Rightarrow> KeyValue list go" where
  "perform_map mapf fs filename =
     (case fs filename of
        None \<Rightarrow> Inl (LogFatal (''Worker cannot open '' @ filename))
      | Some content \<Rightarrow> Inr (mapf filename content))"

text \<open>
  The loop over the pairs; \<open>opened\<close> holds the buckets in \<^verbatim>\<open>fileHandles\<close>. A file that cannot
  be opened is reported and the pair skipped.
\<close>

fun bucket_loop :: "(string \<Rightarrow> bool) \<Rightarrow> int \<Rightarrow> int \<Rightarrow> KeyValue list \<Rightarrow> int set \<Rightarrow> fs \<Rightarrow> fs go" where
  "bucket_loop openable task_id n [] opened fs = Inr fs"
| "bucket_loop openable task_id n (kv # kva) opened fs =
     go_bind (go_rem (ihash (Key kv)) n) (\<lambda>ibucket.
     let name = intermediate_name task_id ibucket in
     if ibucket \<notin> opened \<and> \<not> openable name
     then bucket_loop openable task_id n kva opened fs
     else let fs1 = (if ibucket \<notin> opened then fs(name \<mapsto> []) else fs);
              fs2 = fs1(name \<mapsto> (case fs1 name of None \<Rightarrow> [] | Some s \<Rightarrow> s) @ json_encode kv)
          in bucket_loop openable task_id n kva (insert ibucket opened) fs2)"

definition bucket_by_intermediate_key ::
    "(string \<Rightarrow> bool) \<Rightarrow> KeyValue list \<Rightarrow> int \<Rightarrow> int \<Rightarrow> fs \<Rightarrow> fs go" where
  "bucket_by_intermediate_key openable kva task_id n fs = bucket_loop openable task_id n kva {} fs"

text \<open>\<open>map_exec\<close> ends by reporting to the coordinator: the result carries the report's arguments.\<close>

definition map_exec ::
    "(string \<Rightarrow> bool) \<Rightarrow> (string \<Rightarrow> string \<Rightarrow> KeyValue list) \<Rightarrow> MapReply \<Rightarrow> fs \<Rightarrow> (fs \<times> MapArgs) go" where
  "map_exec openable mapf reply fs =
     go_bind (perform_map mapf fs (mr_Filename reply)) (\<lambda>kva.
     go_bind (bucket_by_intermediate_key openable kva (mr_Maptask_id reply) (mr_NReduce reply) fs) (\<lambda>fs'.
     Inr (fs', \<lparr>ma_NReduce = 0, ma_Filename = '''', ma_Maptask_id = mr_Maptask_id reply, ma_Worker_id = 0\<rparr>)))"

section \<open>Reduce side\<close>

definition read_intermediates :: "(KeyValue list \<Rightarrow> KeyValue list) \<Rightarrow> fs \<Rightarrow> string list \<Rightarrow> KeyValue list" where
  "read_intermediates srt fs names =
     srt (concat (map (\<lambda>f. case fs f of None \<Rightarrow> [] | Some s \<Rightarrow> decode_file s) names))"

text \<open>The inner loop: the first index from \<open>j\<close> on whose key differs from the key at \<open>i\<close>.\<close>

function scan_group :: "KeyValue list \<Rightarrow> nat \<Rightarrow> nat \<Rightarrow> nat" where
  "scan_group kvs i j =
     (if j < length kvs \<and> Key (kvs ! j) = Key (kvs ! i) then scan_group kvs i (Suc j) else j)"
  by pat_completeness auto
termination
  by (relation "measure (\<lambda>(kvs, i, j). length kvs - j)") auto

declare scan_group.simps [simp del]

lemma scan_group_ge: "j \<le> scan_group kvs i j"
  by (induction kvs i j rule: scan_group.induct) (subst scan_group.simps, auto dest: Suc_leD)

definition reduce_line :: "string \<Rightarrow> string \<Rightarrow> string" where
  "reduce_line key output = key @ '' '' @ output @ [CHR 0x0A]"

function reduce_loop :: "(string \<Rightarrow> string list \<Rightarrow> string) \<Rightarrow> KeyValue list \<Rightarrow> nat \<Rightarrow> string" where
  "reduce_loop reducef kvs i =
     (if i < length kvs
      then let j = scan_group kvs i (Suc i);
               vals = map (\<lambda>k. Value (kvs ! k)) [i..<j]
           in reduce_line (Key (kvs ! i)) (reducef (Key (kvs ! i)) vals) @ reduce_loop reducef kvs j
      else [])"
  by pat_completeness auto
termination
proof (relation "measure (\<lambda>(reducef, kvs, i). length kvs - i)", goal_cases)
  case (2 reducef kvs i j vals)
  then show ?case using scan_group_ge [of "Suc i" kvs i] by auto
qed simp

declare reduce_loop.simps [simp del]

text \<open>A file that cannot be opened is a nil \<^verbatim>\<open>*os.File\<close>: the writes fail and are ignored.\<close>

definition perform_reduce ::
    "(string \<Rightarrow> bool) \<Rightarrow> (string \<Rightarrow> string list \<Rightarrow> string) \<Rightarrow> KeyValue list \<Rightarrow> string \<Rightarrow> fs \<Rightarrow> fs" where
  "perform_reduce openable reducef intermediate ofile_name fs =
     (if openable ofile_name then fs(ofile_name \<mapsto> reduce_loop reducef intermediate 0) else fs)"

definition output_name :: "int \<Rightarrow> string" where
  "output_name r = ''mr-out-'' @ itoa r"

definition reduce_exec ::
    "(string \<Rightarrow> bool) \<Rightarrow> (KeyValue list \<Rightarrow> KeyValue list) \<Rightarrow> (string \<Rightarrow> string list \<Rightarrow> string)
     \<Rightarrow> ReduceReply \<Rightarrow> fs \<Rightarrow> fs \<times> ReduceArgs" where
  "reduce_exec openable srt reducef reply fs =
     (let kva = read_intermediates srt fs (rr_Reducefiles reply);
          fs' = perform_reduce openable reducef kva (output_name (rr_Reducetask_id reply)) fs
      in (fs', \<lparr>ra_Reducetask_id = rr_Reducetask_id reply, ra_Reducefiles = [], ra_Worker_id = 0\<rparr>))"

definition DoMapTask ::
    "(string \<Rightarrow> bool) \<Rightarrow> (string \<Rightarrow> string \<Rightarrow> KeyValue list) \<Rightarrow> MapArgs \<Rightarrow> fs \<Rightarrow> (fs \<times> MapArgs) go" where
  "DoMapTask openable mapf args fs =
     map_exec openable mapf
       \<lparr>mr_NReduce = ma_NReduce args, mr_Filename = ma_Filename args, mr_Maptask_id = ma_Maptask_id args\<rparr> fs"

definition DoReduceTask ::
    "(string \<Rightarrow> bool) \<Rightarrow> (KeyValue list \<Rightarrow> KeyValue list) \<Rightarrow> (string \<Rightarrow> string list \<Rightarrow> string)
     \<Rightarrow> ReduceArgs \<Rightarrow> fs \<Rightarrow> fs \<times> ReduceArgs" where
  "DoReduceTask openable srt reducef args fs =
     reduce_exec openable srt reducef
       \<lparr>rr_Reducetask_id = ra_Reducetask_id args, rr_Reducefiles = ra_Reducefiles args\<rparr> fs"

section \<open>The worker's loops\<close>

text \<open>
  \<open>call\<close> ends the process when it cannot dial the coordinator and otherwise says whether the RPC
  returned without an error. The environment gives the outcome of the k-th request of each kind:
  \<open>Inl\<close> when the dial fails, \<open>Inr None\<close> when the RPC returns an error.
\<close>

record worker_env =
  ask_map :: "nat \<Rightarrow> MapReply option go"
  ask_reduce :: "nat \<Rightarrow> ReduceReply option go"
  tell_map :: "nat \<Rightarrow> MapArgs \<Rightarrow> unit go"
  tell_reduce :: "nat \<Rightarrow> ReduceArgs \<Rightarrow> unit go"

fun worker_map_loop ::
    "nat \<Rightarrow> worker_env \<Rightarrow> (string \<Rightarrow> bool) \<Rightarrow> (string \<Rightarrow> string \<Rightarrow> KeyValue list) \<Rightarrow> nat \<Rightarrow> fs \<Rightarrow> fs go option" where
  "worker_map_loop 0 env openable mapf k fs = None"
| "worker_map_loop (Suc fuel) env openable mapf k fs =
     (case ask_map env k of
        Inl e \<Rightarrow> Some (Inl e)
      | Inr None \<Rightarrow> Some (Inr fs)
      | Inr (Some mr) \<Rightarrow>
          (case go_bind (map_exec openable mapf mr fs) (\<lambda>(fs', rep).
                go_bind (tell_map env k rep) (\<lambda>_. Inr fs')) of
             Inl e \<Rightarrow> Some (Inl e)
           | Inr fs' \<Rightarrow> worker_map_loop fuel env openable mapf (Suc k) fs'))"

fun worker_reduce_loop ::
    "nat \<Rightarrow> worker_env \<Rightarrow> (string \<Rightarrow> bool) \<Rightarrow> (KeyValue list \<Rightarrow> KeyValue list)
     \<Rightarrow> (string \<Rightarrow> string list \<Rightarrow> string) \<Rightarrow> nat \<Rightarrow> fs \<Rightarrow> fs go option" where
  "worker_reduce_loop 0 env openable srt reducef k fs = None"
| "worker_reduce_loop (Suc fuel) env openable srt reducef k fs =
     (case ask_reduce env k of
        Inl e \<Rightarrow> Some (Inl e)
      | Inr None \<Rightarrow> worker_reduce_loop fuel env openable srt reducef (Suc k) fs
      | Inr (Some rr) \<Rightarrow>
          if rr_Reducetask_id rr = -1
          then worker_reduce_loop fuel env openable srt reducef (Suc k) fs
          else let (fs', rep) = reduce_exec openable srt reducef rr fs
               in (case tell_reduce env k rep of
                     Inl e \<Rightarrow> Some (Inl e)
                   | Inr _ \<Rightarrow> worker_reduce_loop fuel env openable srt reducef (Suc k) fs'))"

section \<open>Hash range\<close>

text \<open>
  The hash of a key is a 31-bit number, so the bucket number computed from it is in range for
  every positive number of reduce tasks.
\<close>

theorem ihash_bucket_range:
  assumes "0 < n"
  shows "0 \<le> ihash key \<and> ihash key < 2 ^ 31 \<and>
         (\<exists>b. go_rem (ihash key) n = Inr b \<and> 0 \<le> b \<and> b < n)"
proof -
  have "fnv32a key AND 0x7fffffff \<le> 0x7fffffff" by (rule word_and_le1)
  then have "uint (fnv32a key AND 0x7fffffff) \<le> uint (0x7fffffff :: 32 word)"
    by (simp add: word_le_def)
  then have "ihash key < 2 ^ 31" by (simp add: ihash_def)
  moreover have "0 \<le> ihash key" by (simp add: ihash_def)
  ultimately show ?thesis using assms by (simp add: go_rem_nonneg)
qed

lemma ihash_bucket_range_witness:
  "0 \<le> ihash ''the'' \<and> ihash ''the'' < 2 ^ 31 \<and>
   (\<exists>b. go_rem (ihash ''the'') 10 = Inr b \<and> 0 \<le> b \<and> b < 10)"
  by (rule ihash_bucket_range) simp

definition bucket_of :: "int \<Rightarrow> KeyValue \<Rightarrow> int" where
  "bucket_of n kv = ihash (Key kv) mod n"

lemma bucket_rem: "0 < n \<Longrightarrow> go_rem (ihash (Key kv)) n = Inr (bucket_of n kv)"
  by (simp add: bucket_of_def go_rem_nonneg ihash_def)

lemma bucket_of_nonneg: "0 < n \<Longrightarrow> 0 \<le> bucket_of n kv"
  by (simp add: bucket_of_def)

section \<open>The reduce loop groups adjacent equal keys\<close>

function groups :: "KeyValue list \<Rightarrow> (string \<times> string list) list" where
  "groups [] = []"
| "groups (kv # kvs) =
     (Key kv, Value kv # map Value (takeWhile (\<lambda>x. Key x = Key kv) kvs)) #
     groups (dropWhile (\<lambda>x. Key x = Key kv) kvs)"
  by pat_completeness auto
termination
  by (relation "measure length") (auto simp: le_imp_less_Suc length_dropWhile_le)

lemma scan_group_takeWhile:
  "j \<le> length kvs \<Longrightarrow>
   scan_group kvs i j = j + length (takeWhile (\<lambda>x. Key x = Key (kvs ! i)) (drop j kvs))"
proof (induction kvs i j rule: scan_group.induct)
  case (1 kvs i j)
  show ?case
  proof (cases "j < length kvs")
    case True
    then have "drop j kvs = kvs ! j # drop (Suc j) kvs" by (simp add: Cons_nth_drop_Suc)
    with 1 True show ?thesis by (simp add: scan_group.simps [of kvs i j])
  next
    case False
    then show ?thesis by (subst scan_group.simps) simp
  qed
qed

lemma map_nth_range: "j \<le> length xs \<Longrightarrow> map (\<lambda>k. f (xs ! k)) [i..<j] = map f (take (j - i) (drop i xs))"
  by (auto simp: list_eq_iff_nth_eq min_def)

lemma reduce_loop_groups:
  "reduce_loop reducef kvs i =
     concat (map (\<lambda>(k, vs). reduce_line k (reducef k vs)) (groups (drop i kvs)))"
proof (induction reducef kvs i rule: reduce_loop.induct)
  case (1 reducef kvs i)
  show ?case
  proof (cases "i < length kvs")
    case True
    define same where "same = (\<lambda>x :: KeyValue. Key x = Key (kvs ! i))"
    define tl where "tl = drop (Suc i) kvs"
    define j where "j = scan_group kvs i (Suc i)"
    have j: "j = Suc i + length (takeWhile same tl)"
      using True scan_group_takeWhile [of "Suc i" kvs i] by (simp add: j_def same_def tl_def)
    have "length (takeWhile same tl) \<le> length kvs - Suc i"
      using length_takeWhile_le [of same tl] by (simp add: tl_def)
    with True j have "j \<le> length kvs" by simp
    then have "map (\<lambda>k. Value (kvs ! k)) [i..<j] = map Value (take (j - i) (drop i kvs))"
      by (rule map_nth_range)
    also have "\<dots> = map Value (take (Suc (length (takeWhile same tl))) (kvs ! i # tl))"
      using True j by (simp add: tl_def Cons_nth_drop_Suc)
    finally have vals: "map (\<lambda>k. Value (kvs ! k)) [i..<j] = Value (kvs ! i) # map Value (takeWhile same tl)"
      by (simp flip: takeWhile_eq_take)
    have "drop j kvs = dropWhile same tl"
      by (simp add: j tl_def dropWhile_eq_drop add.commute)
    moreover have "drop i kvs = kvs ! i # tl" using True by (simp add: tl_def Cons_nth_drop_Suc)
    ultimately show ?thesis
      using "1.IH" [OF True refl refl] True vals
      by (simp add: reduce_loop.simps [of reducef kvs i] same_def flip: j_def)
  qed (simp add: reduce_loop.simps [of reducef kvs i])
qed

text \<open>On input sorted by key, the groups are the distinct keys, each with all its values.\<close>

definition values_of :: "string \<Rightarrow> KeyValue list \<Rightarrow> string list" where
  "values_of k kvs = map Value (filter (\<lambda>x. Key x = k) kvs)"

lemma filter_takeWhile_dropWhile:
  "filter P xs = filter P (takeWhile Q xs) @ filter P (dropWhile Q xs)"
  by (simp flip: filter_append)

lemma groups_sorted:
  "sorted (map Key kvs) \<Longrightarrow>
   groups kvs = map (\<lambda>k. (k, values_of k kvs)) (remdups_adj (map Key kvs))"
proof (induction kvs rule: groups.induct)
  case (2 kv kvs)
  let ?same = "\<lambda>x. Key x = Key kv"
  let ?rest = "dropWhile ?same kvs"
  have rest_keys: "map Key ?rest = dropWhile (\<lambda>k. k = Key kv) (map Key kvs)"
    by (simp add: dropWhile_map comp_def)
  have sorted_rest: "sorted (map Key ?rest)"
    using "2.prems" by (simp add: rest_keys sorted_dropWhile)
  have later: "\<forall>x \<in> set ?rest. Key kv < Key x"
  proof
    fix x assume x: "x \<in> set ?rest"
    then obtain y ys where rest: "?rest = y # ys" by (cases ?rest) auto
    then have "Key y \<noteq> Key kv" using hd_dropWhile [of ?same kvs] by auto
    moreover have "y \<in> set kvs" using rest set_dropWhileD [of y ?same kvs] by simp
    ultimately have "Key kv < Key y" using "2.prems" by (simp add: order_less_le)
    with x sorted_rest show "Key kv < Key x" by (auto simp: rest)
  qed
  have all_same: "Key x = Key kv" if "x \<in> set (takeWhile ?same kvs)" for x
    using set_takeWhileD [OF that] by simp
  have "filter ?same ?rest = []" by (rule filter_False) (use later in force)
  moreover have "filter ?same (takeWhile ?same kvs) = takeWhile ?same kvs"
    by (rule filter_True) (blast dest: all_same)
  ultimately have "filter ?same kvs = takeWhile ?same kvs"
    using filter_takeWhile_dropWhile [of ?same kvs ?same] by (simp only: append_Nil2)
  then have vals: "values_of (Key kv) (kv # kvs) = Value kv # map Value (takeWhile ?same kvs)"
    by (simp add: values_of_def)
  have other: "values_of k (kv # kvs) = values_of k ?rest" if "k \<in> set (map Key ?rest)" for k
  proof -
    from that later have less: "Key kv < k" by auto
    have "filter (\<lambda>x. Key x = k) (takeWhile ?same kvs) = []"
    proof (rule filter_False, rule ballI)
      fix x assume "x \<in> set (takeWhile ?same kvs)"
      then have "Key x = Key kv" by (rule all_same)
      with less show "Key x \<noteq> k" by simp
    qed
    with filter_takeWhile_dropWhile [of "\<lambda>x. Key x = k" kvs ?same]
    have "filter (\<lambda>x. Key x = k) kvs = filter (\<lambda>x. Key x = k) ?rest"
      by (metis append_Nil)
    moreover have "Key kv \<noteq> k" using less by blast
    ultimately show ?thesis unfolding values_of_def filter.simps by (simp only: if_False)
  qed
  have keys: "remdups_adj (map Key (kv # kvs)) = Key kv # remdups_adj (map Key ?rest)"
    by (simp only: list.map remdups_adj_Cons' rest_keys)
  from "2.IH" [OF sorted_rest] have "groups ?rest = map (\<lambda>k. (k, values_of k ?rest)) (remdups_adj (map Key ?rest))" .
  also have "\<dots> = map (\<lambda>k. (k, values_of k (kv # kvs))) (remdups_adj (map Key ?rest))"
    by (rule map_cong [OF refl], subst other) (simp_all only: remdups_adj_set)
  finally show ?case using vals keys by (simp only: groups.simps list.map)
qed simp

lemma remdups_adj_sorted: "sorted xs \<Longrightarrow> remdups_adj xs = sorted_list_of_set (set xs)"
proof -
  assume s: "sorted xs"
  have "distinct (remdups_adj xs)"
    using s by (induction xs rule: remdups_adj.induct) (auto simp: order.antisym)
  moreover have "sorted (remdups_adj xs)" using s by (rule sorted_remdups_adj)
  ultimately show ?thesis
    by (metis remdups_adj_set sorted_list_of_set.idem_if_sorted_distinct)
qed

text \<open>
  On input sorted by key, the two-index loop of \<open>perform_reduce\<close> writes one line per distinct
  key, in increasing key order, and each line holds the result of the reduce function on all the
  values of that key in input order.
\<close>

theorem reduce_each_key_once:
  assumes "sorted (map Key kvs)" and "openable ofile"
  shows "perform_reduce openable reducef kvs ofile fs =
     fs(ofile \<mapsto> concat (map (\<lambda>k. reduce_line k (reducef k (values_of k kvs)))
                            (sorted_list_of_set (Key ` set kvs))))"
  using assms
  by (simp add: perform_reduce_def reduce_loop_groups groups_sorted remdups_adj_sorted comp_def)

lemma reduce_each_key_once_witness:
  "perform_reduce (\<lambda>_. True) (\<lambda>k vs. concat vs)
     [\<lparr>Key = ''a'', Value = ''1''\<rparr>, \<lparr>Key = ''a'', Value = ''2''\<rparr>, \<lparr>Key = ''b'', Value = ''3''\<rparr>] ''o'' Map.empty
   = [''o'' \<mapsto> ''a 12'' @ [CHR 0x0A] @ ''b 3'' @ [CHR 0x0A]]"
proof -
  let ?kvs = "[\<lparr>Key = ''a'', Value = ''1''\<rparr>, \<lparr>Key = ''a'', Value = ''2''\<rparr>, \<lparr>Key = ''b'', Value = ''3''\<rparr>]"
  have "sorted (map Key ?kvs)" by (simp add: less_eq_char_def)
  from reduce_each_key_once [OF this, of "\<lambda>_. True" "''o''" "\<lambda>k vs. concat vs" Map.empty]
  show ?thesis by (simp add: values_of_def reduce_line_def)
qed

section \<open>Bucket files\<close>

definition bucket_pairs :: "int \<Rightarrow> int \<Rightarrow> KeyValue list \<Rightarrow> KeyValue list" where
  "bucket_pairs n r kva = filter (\<lambda>kv. bucket_of n kv = r) kva"

definition file_text :: "fs \<Rightarrow> string \<Rightarrow> string" where
  "file_text fs f = (case fs f of None \<Rightarrow> [] | Some s \<Rightarrow> s)"

lemma intermediate_name_inject_bucket: "intermediate_name t r = intermediate_name t r' \<longleftrightarrow> r = r'"
  by (simp add: intermediate_name_def itoa_inject)

lemma bucket_loop_files:
  assumes "0 < n"
  shows "\<exists>fs'. bucket_loop openable t n kva opened fs = Inr fs' \<and>
     (\<forall>r. fs' (intermediate_name t r) =
        (if bucket_pairs n r kva = [] \<or> r \<notin> opened \<and> \<not> openable (intermediate_name t r)
         then fs (intermediate_name t r)
         else Some ((if r \<in> opened then file_text fs (intermediate_name t r) else []) @
                    concat (map json_encode (bucket_pairs n r kva))))) \<and>
     (\<forall>f. (\<forall>r. f \<noteq> intermediate_name t r) \<longrightarrow> fs' f = fs f)"
proof (induction kva arbitrary: opened fs)
  case Nil
  then show ?case by (simp add: bucket_pairs_def)
next
  case (Cons kv kva)
  let ?b = "bucket_of n kv"
  let ?name = "intermediate_name t ?b"
  show ?case
  proof (cases "?b \<notin> opened \<and> \<not> openable ?name")
    case True
    obtain fs' where fs': "bucket_loop openable t n kva opened fs = Inr fs'"
      "\<forall>r. fs' (intermediate_name t r) =
        (if bucket_pairs n r kva = [] \<or> r \<notin> opened \<and> \<not> openable (intermediate_name t r)
         then fs (intermediate_name t r)
         else Some ((if r \<in> opened then file_text fs (intermediate_name t r) else []) @
                    concat (map json_encode (bucket_pairs n r kva))))"
      "\<forall>f. (\<forall>r. f \<noteq> intermediate_name t r) \<longrightarrow> fs' f = fs f"
      using Cons.IH by blast
    with True assms show ?thesis
      by (intro exI [of _ fs']) (auto simp: bucket_rem bucket_pairs_def)
  next
    case False
    define fs1 where "fs1 = (if ?b \<notin> opened then fs(?name \<mapsto> []) else fs)"
    define fs2 where "fs2 = fs1(?name \<mapsto> file_text fs1 ?name @ json_encode kv)"
    obtain fs' where run: "bucket_loop openable t n kva (insert ?b opened) fs2 = Inr fs'"
      and mine: "\<forall>r. fs' (intermediate_name t r) =
        (if bucket_pairs n r kva = [] \<or> r \<notin> insert ?b opened \<and> \<not> openable (intermediate_name t r)
         then fs2 (intermediate_name t r)
         else Some ((if r \<in> insert ?b opened then file_text fs2 (intermediate_name t r) else []) @
                    concat (map json_encode (bucket_pairs n r kva))))"
      and others: "\<forall>f. (\<forall>r. f \<noteq> intermediate_name t r) \<longrightarrow> fs' f = fs2 f"
      using Cons.IH by blast
    have "bucket_loop openable t n (kv # kva) opened fs = Inr fs'"
      using False assms run
      by (auto simp: bucket_rem Let_def fs2_def fs1_def file_text_def)
    moreover have "fs2 ?name =
        Some ((if ?b \<in> opened then file_text fs ?name else []) @ json_encode kv)"
      by (simp add: fs2_def fs1_def file_text_def)
    moreover have "fs2 f = fs f" if "f \<noteq> ?name" for f
      using that by (simp add: fs2_def fs1_def)
    ultimately show ?thesis
      using mine others False
      by (intro exI [of _ fs'])
        (auto simp: bucket_pairs_def file_text_def intermediate_name_inject_bucket)
  qed
qed

text \<open>
  For a positive number of reduce tasks, splitting the output of map task t never fails; the file
  of each bucket that some pair hashes to (and that can be opened) then holds exactly the pairs of
  that bucket in order, whatever it held before; every other file, a bucket file that received no
  pair included, is as it was.
\<close>

theorem bucket_files_hold_their_pairs:
  assumes "0 < n"
  shows "\<exists>fs'. bucket_by_intermediate_key openable kva t n fs = Inr fs' \<and>
     (\<forall>r. fs' (intermediate_name t r) =
        (if bucket_pairs n r kva = [] \<or> \<not> openable (intermediate_name t r)
         then fs (intermediate_name t r)
         else Some (concat (map json_encode (bucket_pairs n r kva))))) \<and>
     (\<forall>f. (\<forall>r. f \<noteq> intermediate_name t r) \<longrightarrow> fs' f = fs f)"
  using bucket_loop_files [OF assms, of openable t kva "{}" fs]
  by (simp add: bucket_by_intermediate_key_def cong: if_cong)

lemma bucket_files_hold_their_pairs_witness:
  "\<exists>fs'. bucket_by_intermediate_key (\<lambda>_. True) [\<lparr>Key = ''a'', Value = ''1''\<rparr>] 0 1 Map.empty = Inr fs' \<and>
     fs' (intermediate_name 0 0) = Some (json_encode \<lparr>Key = ''a'', Value = ''1''\<rparr>)"
  using bucket_files_hold_their_pairs [of 1 "\<lambda>_. True" "[\<lparr>Key = ''a'', Value = ''1''\<rparr>]" 0 Map.empty]
  by (auto simp: bucket_pairs_def bucket_of_def)

text \<open>
  A map task that is done again (as the monitors ask for when a worker is slow) leaves the files
  exactly as the first execution left them and reports the same task, provided the input file is
  not itself one of the task's intermediate files.
\<close>

theorem map_exec_idempotent:
  assumes "0 < mr_NReduce reply"
    and "\<forall>r. mr_Filename reply \<noteq> intermediate_name (mr_Maptask_id reply) r"
    and "map_exec openable mapf reply fs = Inr (fs1, rep)"
  shows "map_exec openable mapf reply fs1 = Inr (fs1, rep)"
proof -
  let ?t = "mr_Maptask_id reply" and ?n = "mr_NReduce reply"
  from assms(3) obtain kva where kva: "perform_map mapf fs (mr_Filename reply) = Inr kva"
    and b1: "bucket_by_intermediate_key openable kva ?t ?n fs = Inr fs1"
    and rep: "rep = \<lparr>ma_NReduce = 0, ma_Filename = '''', ma_Maptask_id = ?t, ma_Worker_id = 0\<rparr>"
    by (auto simp: map_exec_def go_iff)
  have first: "\<forall>r. fs1 (intermediate_name ?t r) =
        (if bucket_pairs ?n r kva = [] \<or> \<not> openable (intermediate_name ?t r)
         then fs (intermediate_name ?t r)
         else Some (concat (map json_encode (bucket_pairs ?n r kva))))"
    and rest1: "\<forall>f. (\<forall>r. f \<noteq> intermediate_name ?t r) \<longrightarrow> fs1 f = fs f"
    using bucket_loop_files [OF assms(1), of openable ?t kva "{}" fs] b1
    by (simp_all add: bucket_by_intermediate_key_def)
  have "fs1 (mr_Filename reply) = fs (mr_Filename reply)" using rest1 assms(2) by blast
  with kva have again: "perform_map mapf fs1 (mr_Filename reply) = Inr kva"
    by (simp add: perform_map_def)
  obtain fs2 where b2: "bucket_by_intermediate_key openable kva ?t ?n fs1 = Inr fs2"
    and second: "\<forall>r. fs2 (intermediate_name ?t r) =
        (if bucket_pairs ?n r kva = [] \<or> \<not> openable (intermediate_name ?t r)
         then fs1 (intermediate_name ?t r)
         else Some (concat (map json_encode (bucket_pairs ?n r kva))))"
    and rest2: "\<forall>f. (\<forall>r. f \<noteq> intermediate_name ?t r) \<longrightarrow> fs2 f = fs1 f"
    using bucket_loop_files [OF assms(1), of openable ?t kva "{}" fs1]
    by (auto simp: bucket_by_intermediate_key_def)
  have "fs2 f = fs1 f" for f
    using first second rest2 by (cases "\<exists>r. f = intermediate_name ?t r") auto
  then have "fs2 = fs1" by blast
  with again b2 rep show ?thesis by (simp add: map_exec_def)
qed

lemma map_exec_idempotent_witness:
  "\<exists>fs1 rep. map_exec (\<lambda>_. True) (\<lambda>f s. [\<lparr>Key = s, Value = ''1''\<rparr>])
       \<lparr>mr_NReduce = 1, mr_Filename = ''in'', mr_Maptask_id = 0\<rparr> [''in'' \<mapsto> ''w''] = Inr (fs1, rep) \<and>
     map_exec (\<lambda>_. True) (\<lambda>f s. [\<lparr>Key = s, Value = ''1''\<rparr>])
       \<lparr>mr_NReduce = 1, mr_Filename = ''in'', mr_Maptask_id = 0\<rparr> fs1 = Inr (fs1, rep)"
proof -
  let ?mapf = "\<lambda>f s. [\<lparr>Key = s, Value = ''1''\<rparr>]"
  let ?reply = "\<lparr>mr_NReduce = 1, mr_Filename = ''in'', mr_Maptask_id = 0\<rparr>"
  obtain fs1 rep where ex: "map_exec (\<lambda>_. True) ?mapf ?reply [''in'' \<mapsto> ''w''] = Inr (fs1, rep)"
    by (simp add: map_exec_def perform_map_def bucket_by_intermediate_key_def go_rem_def Let_def)
  have "0 < mr_NReduce ?reply" and "\<forall>r. mr_Filename ?reply \<noteq> intermediate_name (mr_Maptask_id ?reply) r"
    by (simp_all add: intermediate_name_def)
  from map_exec_idempotent [OF this ex] ex show ?thesis by blast
qed

section \<open>The worker does not leave its reduce loop\<close>

text \<open>
  The second loop of \<open>Worker\<close> has no way out: whatever the coordinator answers, end-of-tasks
  errors included, no number of rounds makes it return; it can only be ended by a failed dial,
  which ends the process. The exit loop that follows it in the source is never reached.
\<close>

theorem worker_reduce_loop_never_returns:
  "worker_reduce_loop fuel env openable srt reducef k fs \<noteq> Some (Inr fs')"
proof (induction fuel arbitrary: k fs)
  case (Suc fuel)
  then show ?case
    by (auto split: sum.splits option.splits prod.splits simp: Let_def)
qed simp

end
