(* ===== verification/MR_Job.thy ===== *)
theory MR_Job
  imports MR_Worker MR_Interleaving
begin

text \<open>
  A whole MapReduce job: the map tasks the coordinator hands out, executed by workers in any order
  and any number of times each, and then a reduce task with the file list the coordinator gives.
  Shown here: the state of the intermediate files after the map phase, the output of a reduce
  task as a function of the input files alone, one worker that takes every task, and the effect of
  intermediate files left by an earlier job.
\<close>

section \<open>The phases\<close>

fun map_phase ::
    "(string \<Rightarrow> bool) \<Rightarrow> (string \<Rightarrow> string \<Rightarrow> KeyValue list) \<Rightarrow> string list \<Rightarrow> int \<Rightarrow> nat list \<Rightarrow> fs \<Rightarrow> fs go" where
  "map_phase openable mapf files n [] fs = Inr fs"
| "map_phase openable mapf files n (t # ts) fs =
     go_bind (map_exec openable mapf (map_task files n t) fs) (\<lambda>(fs', rep).
     map_phase openable mapf files n ts fs')"

definition reduce_task :: "nat \<Rightarrow> int \<Rightarrow> ReduceReply" where
  "reduce_task m r =
     \<lparr>rr_Reducetask_id = r, rr_Reducefiles = map (\<lambda>i. intermediate_name (int i) r) [0..<m]\<rparr>"

text \<open>The pairs the map function produces for task \<open>t\<close>, and for the whole job.\<close>

definition task_pairs :: "(string \<Rightarrow> string \<Rightarrow> KeyValue list) \<Rightarrow> string list \<Rightarrow> fs \<Rightarrow> nat \<Rightarrow> KeyValue list" where
  "task_pairs mapf files fs t = mapf (files ! t) (file_text fs (files ! t))"

definition job_pairs :: "(string \<Rightarrow> string \<Rightarrow> KeyValue list) \<Rightarrow> string list \<Rightarrow> fs \<Rightarrow> KeyValue list" where
  "job_pairs mapf files fs = concat (map (task_pairs mapf files fs) [0..<length files])"

text \<open>The inputs are there and are not themselves intermediate files.\<close>

definition job_inputs :: "string list \<Rightarrow> fs \<Rightarrow> bool" where
  "job_inputs files fs \<longleftrightarrow>
     (\<forall>f \<in> set files. fs f \<noteq> None \<and> (\<forall>t r. f \<noteq> intermediate_name (int t) r))"

definition sorts_by_key :: "(KeyValue list \<Rightarrow> KeyValue list) \<Rightarrow> bool" where
  "sorts_by_key srt \<longleftrightarrow> (\<forall>xs. mset (srt xs) = mset xs \<and> sorted (map Key (srt xs)))"

section \<open>Intermediate files after the map phase\<close>

lemma intermediate_name_inject:
  "intermediate_name (int t) r = intermediate_name (int t') r' \<longleftrightarrow> t = t' \<and> r = r'"
proof -
  have "CHR ''-'' \<notin> set (itoa (int k))" for k
    using itoa_int_digits minus_not_digit by blast
  then show ?thesis
    using append_sep_inject [of "CHR ''-''" "itoa (int t)" "itoa (int t')" "itoa r" "itoa r'"]
    by (simp add: intermediate_name_def itoa_inject)
qed

lemma map_exec_files:
  assumes "0 < n" and "\<forall>f. openable f" and "t < length files" and "job_inputs files fs"
  shows "\<exists>fs' rep. map_exec openable mapf (map_task files n t) fs = Inr (fs', rep) \<and>
     (\<forall>r. bucket_pairs n r (task_pairs mapf files fs t) \<noteq> [] \<longrightarrow>
        fs' (intermediate_name (int t) r) =
          Some (concat (map json_encode (bucket_pairs n r (task_pairs mapf files fs t))))) \<and>
     (\<forall>f. (\<forall>r. bucket_pairs n r (task_pairs mapf files fs t) \<noteq> [] \<longrightarrow> f \<noteq> intermediate_name (int t) r) \<longrightarrow>
        fs' f = fs f)"
proof -
  let ?kva = "task_pairs mapf files fs t"
  from assms(3,4) have "fs (files ! t) \<noteq> None" by (auto simp: job_inputs_def)
  then have "perform_map mapf fs (files ! t) = Inr ?kva"
    by (auto simp: perform_map_def task_pairs_def file_text_def)
  moreover obtain fs' where "bucket_by_intermediate_key openable ?kva (int t) n fs = Inr fs'"
    and mine: "\<forall>r. fs' (intermediate_name (int t) r) =
        (if bucket_pairs n r ?kva = [] \<or> r \<notin> {} \<and> \<not> openable (intermediate_name (int t) r)
         then fs (intermediate_name (int t) r)
         else Some ((if r \<in> {} then file_text fs (intermediate_name (int t) r) else []) @
                    concat (map json_encode (bucket_pairs n r ?kva))))"
    and others: "\<forall>f. (\<forall>r. f \<noteq> intermediate_name (int t) r) \<longrightarrow> fs' f = fs f"
    using bucket_loop_files [OF assms(1), of openable "int t" ?kva "{}" fs]
    unfolding bucket_by_intermediate_key_def by blast
  moreover have "fs' f = fs f"
    if "\<forall>r. bucket_pairs n r ?kva \<noteq> [] \<longrightarrow> f \<noteq> intermediate_name (int t) r" for f
    using that mine others by (cases "\<exists>r. f = intermediate_name (int t) r") auto
  ultimately show ?thesis
    using assms(2) mine by (auto simp: map_exec_def map_task_def)
qed

lemma task_pairs_cong: "fs' (files ! t) = fs (files ! t) \<Longrightarrow> task_pairs mapf files fs' t = task_pairs mapf files fs t"
  by (simp add: task_pairs_def file_text_def)

lemma map_phase_files:
  assumes "0 < n" and "\<forall>f. openable f" and "set ts \<subseteq> {0..<length files}" and "job_inputs files fs"
  shows "\<exists>fs'. map_phase openable mapf files n ts fs = Inr fs' \<and>
     (\<forall>t r. t \<in> set ts \<longrightarrow> bucket_pairs n r (task_pairs mapf files fs t) \<noteq> [] \<longrightarrow>
        fs' (intermediate_name (int t) r) =
          Some (concat (map json_encode (bucket_pairs n r (task_pairs mapf files fs t))))) \<and>
     (\<forall>f. (\<forall>t r. t \<in> set ts \<longrightarrow> bucket_pairs n r (task_pairs mapf files fs t) \<noteq> [] \<longrightarrow>
              f \<noteq> intermediate_name (int t) r) \<longrightarrow> fs' f = fs f)"
  using assms(3,4)
proof (induction ts arbitrary: fs)
  case Nil
  then show ?case by simp
next
  case (Cons t ts)
  have t: "t < length files" using Cons.prems(1) by simp
  obtain fs1 rep where ex: "map_exec openable mapf (map_task files n t) fs = Inr (fs1, rep)"
    and mine: "\<forall>r. bucket_pairs n r (task_pairs mapf files fs t) \<noteq> [] \<longrightarrow>
        fs1 (intermediate_name (int t) r) =
          Some (concat (map json_encode (bucket_pairs n r (task_pairs mapf files fs t))))"
    and frame: "\<forall>f. (\<forall>r. bucket_pairs n r (task_pairs mapf files fs t) \<noteq> [] \<longrightarrow>
        f \<noteq> intermediate_name (int t) r) \<longrightarrow> fs1 f = fs f"
    using map_exec_files [OF assms(1,2) t Cons.prems(2)] by blast
  have inputs: "fs1 f = fs f" if "f \<in> set files" for f
    using frame that Cons.prems(2) by (auto simp: job_inputs_def)
  then have "job_inputs files fs1" using Cons.prems(2) by (simp add: job_inputs_def)
  moreover have pairs: "task_pairs mapf files fs1 u = task_pairs mapf files fs u" if "u \<in> set ts" for u
    by (rule task_pairs_cong, rule inputs, rule nth_mem) (use that Cons.prems(1) in auto)
  ultimately obtain fs' where run: "map_phase openable mapf files n ts fs1 = Inr fs'"
    and later: "\<forall>u r. u \<in> set ts \<longrightarrow> bucket_pairs n r (task_pairs mapf files fs u) \<noteq> [] \<longrightarrow>
        fs' (intermediate_name (int u) r) =
          Some (concat (map json_encode (bucket_pairs n r (task_pairs mapf files fs u))))"
    and frame': "\<forall>f. (\<forall>u r. u \<in> set ts \<longrightarrow> bucket_pairs n r (task_pairs mapf files fs u) \<noteq> [] \<longrightarrow>
              f \<noteq> intermediate_name (int u) r) \<longrightarrow> fs' f = fs1 f"
    using Cons.IH [of fs1] Cons.prems(1) by (auto cong: conj_cong imp_cong)
  have now: "fs' (intermediate_name (int t) r) =
      Some (concat (map json_encode (bucket_pairs n r (task_pairs mapf files fs t))))"
    if "bucket_pairs n r (task_pairs mapf files fs t) \<noteq> []" for r
  proof (cases "t \<in> set ts")
    case True
    then show ?thesis using later that by blast
  next
    case False
    then have "fs' (intermediate_name (int t) r) = fs1 (intermediate_name (int t) r)"
      using frame' [rule_format, of "intermediate_name (int t) r"]
      by (auto simp: intermediate_name_inject)
    then show ?thesis using mine that by simp
  qed
  from ex run have "map_phase openable mapf files n (t # ts) fs = Inr fs'" by simp
  then show ?case using now later frame frame' by (intro exI [of _ fs']) auto
qed

section \<open>The output of a reduce task\<close>

lemma values_of_mset: "mset xs = mset ys \<Longrightarrow> mset (values_of k xs) = mset (values_of k ys)"
  by (simp add: values_of_def)

lemma bucket_pairs_keys:
  "Key ` set (bucket_pairs n r kvs) = {k \<in> Key ` set kvs. ihash k mod n = r}"
  by (auto simp: bucket_pairs_def bucket_of_def)

lemma values_of_bucket_pairs:
  "ihash k mod n = r \<Longrightarrow> values_of k (bucket_pairs n r kvs) = values_of k kvs"
  by (induction kvs) (auto simp: values_of_def bucket_pairs_def bucket_of_def)

lemma bucket_pairs_concat: "bucket_pairs n r (concat xss) = concat (map (bucket_pairs n r) xss)"
  by (induction xss) (simp_all add: bucket_pairs_def)

lemma reduce_lines:
  assumes "sorts_by_key srt"
  shows "\<exists>vs. (\<forall>k. mset (vs k) = mset (values_of k all)) \<and>
     reduce_loop reducef (srt (bucket_pairs n r all)) 0 =
       concat (map (\<lambda>k. reduce_line k (reducef k (vs k))) (sorted_list_of_set {k \<in> Key ` set all. ihash k mod n = r}))"
proof -
  let ?b = "bucket_pairs n r all"
  let ?K = "{k \<in> Key ` set all. ihash k mod n = r}"
  have msrt: "mset (srt ?b) = mset ?b" and ssrt: "sorted (map Key (srt ?b))"
    using assms by (auto simp: sorts_by_key_def)
  have keys: "Key ` set (srt ?b) = ?K"
    using msrt by (metis bucket_pairs_keys set_mset_mset)
  define vs where "vs k = (if ihash k mod n = r then values_of k (srt ?b) else values_of k all)" for k
  have "mset (vs k) = mset (values_of k all)" for k
    using values_of_mset [OF msrt, of k] by (simp add: vs_def values_of_bucket_pairs)
  moreover have "map (\<lambda>k. reduce_line k (reducef k (values_of k (srt ?b)))) (sorted_list_of_set ?K) =
      map (\<lambda>k. reduce_line k (reducef k (vs k))) (sorted_list_of_set ?K)"
    by (rule map_cong) (auto simp: vs_def)
  then have "reduce_loop reducef (srt ?b) 0 =
      concat (map (\<lambda>k. reduce_line k (reducef k (vs k))) (sorted_list_of_set ?K))"
    by (simp add: reduce_loop_groups groups_sorted [OF ssrt] remdups_adj_sorted [OF ssrt] keys comp_def
        del: map_eq_conv)
  ultimately show ?thesis by blast
qed

text \<open>What the reduce task reads: the pairs of its bucket from every map task.\<close>

lemma read_bucket_files:
  assumes phase: "\<forall>t r. t < m \<longrightarrow> bucket_pairs n r (pairs t) \<noteq> [] \<longrightarrow>
        fs (intermediate_name (int t) r) = Some (concat (map json_encode (bucket_pairs n r (pairs t))))"
    and empty: "\<forall>t r. t < m \<longrightarrow> bucket_pairs n r (pairs t) = [] \<longrightarrow> fs (intermediate_name (int t) r) = None"
    and ascii: "\<forall>t < m. \<forall>kv \<in> set (pairs t). ascii_kv kv"
  shows "concat (map (\<lambda>f. case fs f of None \<Rightarrow> [] | Some s \<Rightarrow> decode_file s)
                     (map (\<lambda>i. intermediate_name (int i) r) [0..<m])) =
         bucket_pairs n r (concat (map pairs [0..<m]))"
proof -
  have "(case fs (intermediate_name (int t) r) of None \<Rightarrow> [] | Some s \<Rightarrow> decode_file s) =
      bucket_pairs n r (pairs t)" if "t < m" for t
  proof (cases "bucket_pairs n r (pairs t) = []")
    case True
    then show ?thesis using empty that by simp
  next
    case False
    have "\<forall>kv \<in> set (bucket_pairs n r (pairs t)). ascii_kv kv"
      using ascii that by (simp add: bucket_pairs_def)
    then have "decode_file (concat (map json_encode (bucket_pairs n r (pairs t)))) = bucket_pairs n r (pairs t)"
      unfolding decode_file_def by (rule js.decode_loop_concat) simp
    then show ?thesis using phase that False by simp
  qed
  then show ?thesis
    unfolding bucket_pairs_concat map_map comp_def by (intro arg_cong [of _ _ concat]) simp
qed

text \<open>
  A MapReduce job computes what it should. Let every map task be executed at least once, in any
  order and with any repetitions, from a directory without intermediate files of an earlier job,
  and let reduce task r then run on the file list the coordinator gives. Its output file holds one
  line for each key that some map output contains and that hashes to r, in increasing key
  order, with the result of the reduce function on all values of that key over all input files
  (in an order the unstable sort chooses).
\<close>

theorem mapreduce_job_correct:
  assumes "0 < n" and "0 \<le> r" and "r < n" and "\<forall>f. openable f"
    and "set ts = {0..<length files}" and "job_inputs files fs"
    and "\<forall>t r. fs (intermediate_name (int t) r) = None"
    and "\<forall>kv \<in> set (job_pairs mapf files fs). ascii_kv kv" and "sorts_by_key srt"
  shows "\<exists>fs' vs. map_phase openable mapf files n ts fs = Inr fs' \<and>
     (\<forall>k. mset (vs k) = mset (values_of k (job_pairs mapf files fs))) \<and>
     fst (reduce_exec openable srt reducef (reduce_task (length files) r) fs') (output_name r) =
       Some (concat (map (\<lambda>k. reduce_line k (reducef k (vs k)))
         (sorted_list_of_set {k \<in> Key ` set (job_pairs mapf files fs). ihash k mod n = r})))"
proof -
  let ?pairs = "task_pairs mapf files fs"
  let ?all = "job_pairs mapf files fs"
  let ?b = "bucket_pairs n r ?all"
  obtain fs' where run: "map_phase openable mapf files n ts fs = Inr fs'"
    and written: "\<forall>t r. t \<in> set ts \<longrightarrow> bucket_pairs n r (?pairs t) \<noteq> [] \<longrightarrow>
      fs' (intermediate_name (int t) r) = Some (concat (map json_encode (bucket_pairs n r (?pairs t))))"
    and frame: "\<forall>f. (\<forall>t r. t \<in> set ts \<longrightarrow> bucket_pairs n r (?pairs t) \<noteq> [] \<longrightarrow>
              f \<noteq> intermediate_name (int t) r) \<longrightarrow> fs' f = fs f"
    using map_phase_files [OF assms(1,4) _ assms(6), of ts mapf] assms(5) by auto
  have "concat (map (\<lambda>f. case fs' f of None \<Rightarrow> [] | Some s \<Rightarrow> decode_file s)
      (map (\<lambda>i. intermediate_name (int i) r) [0..<length files])) = ?b"
    unfolding job_pairs_def
  proof (rule read_bucket_files)
    show "\<forall>t r. t < length files \<longrightarrow> bucket_pairs n r (?pairs t) = [] \<longrightarrow>
        fs' (intermediate_name (int t) r) = None"
      using frame assms(7) by (metis intermediate_name_inject)
    show "\<forall>t < length files. \<forall>kv \<in> set (?pairs t). ascii_kv kv"
      using assms(8) by (auto simp: job_pairs_def)
  qed (use written assms(5) in auto)
  then have read: "read_intermediates srt fs' (rr_Reducefiles (reduce_task (length files) r)) = srt ?b"
    by (simp add: read_intermediates_def reduce_task_def)
  obtain vs where "\<forall>k. mset (vs k) = mset (values_of k ?all)"
    and "reduce_loop reducef (srt ?b) 0 = concat (map (\<lambda>k. reduce_line k (reducef k (vs k)))
      (sorted_list_of_set {k \<in> Key ` set ?all. ihash k mod n = r}))"
    using reduce_lines [OF assms(9), of ?all reducef n r] by blast
  then show ?thesis
    using run read assms(4)
    by (intro exI [of _ fs'] exI [of _ vs])
      (simp add: reduce_exec_def perform_reduce_def Let_def reduce_task_def)
qed

lemma mapreduce_job_correct_witness:
  "\<exists>fs' vs. map_phase (\<lambda>_. True) (\<lambda>f s. [\<lparr>Key = s, Value = ''1''\<rparr>]) [''in''] 1 [0, 0] [''in'' \<mapsto> ''w''] = Inr fs' \<and>
     (\<forall>k. mset (vs k) = mset (values_of k
        (job_pairs (\<lambda>f s. [\<lparr>Key = s, Value = ''1''\<rparr>]) [''in''] [''in'' \<mapsto> ''w'']))) \<and>
     fst (reduce_exec (\<lambda>_. True) (sort_key Key) (\<lambda>k vs. concat vs) (reduce_task (length [''in'']) 0) fs')
       (output_name 0) =
     Some (concat (map (\<lambda>k. reduce_line k (concat (vs k)))
       (sorted_list_of_set {k \<in> Key ` set (job_pairs (\<lambda>f s. [\<lparr>Key = s, Value = ''1''\<rparr>]) [''in'']
          [''in'' \<mapsto> ''w'']). ihash k mod 1 = 0})))"
proof (rule mapreduce_job_correct)
  show "job_inputs [''in''] [''in'' \<mapsto> ''w'']"
    by (simp add: job_inputs_def intermediate_name_def)
  show "\<forall>t r. [''in'' \<mapsto> ''w''] (intermediate_name (int t) r) = None"
    by (simp add: intermediate_name_def)
  show "\<forall>kv \<in> set (job_pairs (\<lambda>f s. [\<lparr>Key = s, Value = ''1''\<rparr>]) [''in''] [''in'' \<mapsto> ''w'']). ascii_kv kv"
    by (simp add: job_pairs_def task_pairs_def file_text_def ascii_kv_def ascii_string_def)
  show "sorts_by_key (sort_key Key)" by (simp add: sorts_by_key_def)
qed auto

section \<open>One worker takes every map task\<close>

lemma worker_map_loop_tasks:
  assumes "\<forall>j. k \<le> j \<longrightarrow> ask_map env j = (if j < m then Inr (Some (map_task files n j)) else Inr None)"
    and "\<forall>j a. tell_map env j a = Inr ()" and "m - k < fuel" and "k \<le> m"
  shows "worker_map_loop fuel env openable mapf k fs = Some (map_phase openable mapf files n [k..<m] fs)"
  using assms
proof (induction fuel arbitrary: k fs)
  case (Suc fuel)
  show ?case
  proof (cases "k < m")
    case True
    then have upt: "[k..<m] = k # [Suc k..<m]" by (rule upt_conv_Cons)
    show ?thesis
    proof (cases "map_exec openable mapf (map_task files n k) fs")
      case (Inr p)
      obtain fs' rep where p: "p = (fs', rep)" by (cases p)
      have "worker_map_loop fuel env openable mapf (Suc k) fs' =
          Some (map_phase openable mapf files n [Suc k..<m] fs')"
        using Suc.prems True by (intro Suc.IH) auto
      with Suc.prems(1,2) True Inr p upt show ?thesis by simp
    qed (use Suc.prems(1,2) True upt in simp)
  qed (use Suc.prems in simp)
qed simp

text \<open>
  A worker that asks the coordinator alone, and so is given tasks 0, 1, ... and then the
  end-of-tasks error, leaves its map loop after all tasks, with the files as the map phase over
  all tasks in order leaves them (or with the failure it meets); one round per task and one for the
  error are enough.
\<close>

theorem worker_map_loop_takes_all_tasks:
  assumes "\<forall>j. ask_map env j = (if j < length files then Inr (Some (map_task files n j)) else Inr None)"
    and "\<forall>j a. tell_map env j a = Inr ()" and "length files < fuel"
  shows "worker_map_loop fuel env openable mapf 0 fs =
           Some (map_phase openable mapf files n [0..<length files] fs)"
  by (rule worker_map_loop_tasks) (use assms in auto)

definition example_worker_env :: worker_env where
  "example_worker_env =
     \<lparr>ask_map = (\<lambda>j. if j < length [''in''] then Inr (Some (map_task [''in''] 1 j)) else Inr None),
      ask_reduce = (\<lambda>_. Inr None), tell_map = (\<lambda>_ _. Inr ()), tell_reduce = (\<lambda>_ _. Inr ())\<rparr>"

lemma worker_map_loop_takes_all_tasks_witness:
  "worker_map_loop 2 example_worker_env (\<lambda>_. True) (\<lambda>f s. [\<lparr>Key = s, Value = ''1''\<rparr>]) 0 [''in'' \<mapsto> ''w''] =
     Some (map_phase (\<lambda>_. True) (\<lambda>f s. [\<lparr>Key = s, Value = ''1''\<rparr>]) [''in''] 1 [0..<length [''in'']] [''in'' \<mapsto> ''w''])"
  by (rule worker_map_loop_takes_all_tasks) (simp_all add: example_worker_env_def)

section \<open>Files left by an earlier job\<close>

text \<open>
  A bucket file is created or truncated only when a pair goes into it. An intermediate file that
  an earlier job left behind and that the present job has no pair for is therefore read as if it
  belonged to the job: here the map function produces nothing, and the output still has a line
  for the old key.
\<close>

theorem stale_intermediate_file_is_read:
  assumes "sorts_by_key srt" and "fs ''in'' = Some text"
    and "fs (intermediate_name 0 0) = Some (json_encode \<lparr>Key = ''old'', Value = ''1''\<rparr>)"
  shows "\<exists>fs'. map_phase (\<lambda>_. True) (\<lambda>_ _. []) [''in''] 1 [0] fs = Inr fs' \<and>
     fst (reduce_exec (\<lambda>_. True) srt reducef (reduce_task 1 0) fs') (output_name 0) =
       Some (reduce_line ''old'' (reducef ''old'' [''1'']))"
proof -
  let ?kv = "\<lparr>Key = ''old'', Value = ''1''\<rparr>"
  have "map_phase (\<lambda>_. True) (\<lambda>_ _. []) [''in''] 1 [0] fs = Inr fs"
    using assms(2)
    by (simp add: map_exec_def map_task_def perform_map_def bucket_by_intermediate_key_def)
  moreover have "decode_file (json_encode ?kv) = [?kv]"
    using js.decode_loop_concat [of "[?kv]" "length (json_encode ?kv)"]
    by (simp add: decode_file_def ascii_kv_def ascii_string_def)
  moreover have "srt [?kv] = [?kv]"
    using assms(1) by (metis sorts_by_key_def mset_single_iff mset.simps(1,2))
  moreover have "reduce_loop reducef [?kv] 0 = reduce_line ''old'' (reducef ''old'' [''1''])"
    by (simp add: reduce_loop_groups)
  ultimately show ?thesis
    using assms(3)
    by (intro exI [of _ fs])
      (simp add: reduce_exec_def reduce_task_def read_intermediates_def perform_reduce_def)
qed

lemma stale_intermediate_file_is_read_witness:
  "\<exists>fs'. map_phase (\<lambda>_. True) (\<lambda>_ _. []) [''in''] 1 [0]
       [''in'' \<mapsto> ''w'', intermediate_name 0 0 \<mapsto> json_encode \<lparr>Key = ''old'', Value = ''1''\<rparr>] = Inr fs' \<and>
     fst (reduce_exec (\<lambda>_. True) (sort_key Key) (\<lambda>k vs. concat vs) (reduce_task 1 0) fs') (output_name 0) =
       Some (reduce_line ''old'' (concat [''1'']))"
  by (rule stale_intermediate_file_is_read) (simp_all add: sorts_by_key_def intermediate_name_def)

end
