(* ===== verification/MR_Cluster.thy ===== *)
theory MR_Cluster
  imports MR_Job
begin

text \<open>
  The MapReduce system as a whole: the coordinator of \<^verbatim>\<open>src/mr/coordinator.go\<close>, its monitors, the
  workers of \<^verbatim>\<open>src/mr/worker.go\<close> and the directory they share. Any number of workers ask for tasks, execute them and
  report, in any order; a worker may die at any time; a monitor may have a task done again while the first worker
  is still at it. A handler of the coordinator and the execution of a task are one step each.

  Shown here: whenever the coordinator says that the job is done, all output files are right; a single worker
  brings the job there.
\<close>

section \<open>The system\<close>

text \<open>The job: input files, number of reduce tasks, the directory at the start, and the code of the application.\<close>

record job =
  jb_files :: "string list"
  jb_n :: int
  jb_fs :: fs
  jb_openable :: "string \<Rightarrow> bool"
  jb_mapf :: "string \<Rightarrow> string \<Rightarrow> KeyValue list"
  jb_reducef :: "string \<Rightarrow> string list \<Rightarrow> string"
  jb_srt :: "KeyValue list \<Rightarrow> KeyValue list"

text \<open>A task in the hands of a worker, before and after its execution.\<close>

datatype task =
    TMap MapReply
  | TReduce ReduceReply
  | TMapDone MapArgs
  | TReduceDone ReduceArgs
  | TGone

record cluster =
  cl_c :: coordinator
  cl_fs :: fs
  cl_tasks :: "task list"
  cl_monitors :: "monitor list"

datatype cl_act =
    AskMap MapArgs
  | AskReduce ReduceArgs
  | Execute nat
  | Report nat
  | Look dial_env nat
  | Die nat
  | Enter WorkerArgs

definition cl_ask_map :: "MapArgs \<Rightarrow> cluster \<Rightarrow> cluster go" where
  "cl_ask_map a cl =
     go_bind (GiveMapTask (cl_c cl) a) (\<lambda>(c, r, ms).
       Inr (cl\<lparr>cl_c := c, cl_monitors := cl_monitors cl @ ms,
               cl_tasks := cl_tasks cl @ (case r of Inl _ \<Rightarrow> [] | Inr m \<Rightarrow> [TMap m])\<rparr>))"

definition cl_ask_reduce :: "ReduceArgs \<Rightarrow> cluster \<Rightarrow> cluster go" where
  "cl_ask_reduce a cl =
     go_bind (GiveReduceTask (cl_c cl) a) (\<lambda>(c, r, ms).
       Inr (cl\<lparr>cl_c := c, cl_monitors := cl_monitors cl @ ms,
               cl_tasks := cl_tasks cl @
                 (case r of Inl _ \<Rightarrow> [] | Inr rr \<Rightarrow> if rr_Reducetask_id rr = -1 then [] else [TReduce rr])\<rparr>))"

definition cl_execute :: "job \<Rightarrow> nat \<Rightarrow> cluster \<Rightarrow> cluster go" where
  "cl_execute j k cl =
     (if k < length (cl_tasks cl) then
        (case cl_tasks cl ! k of
           TMap m \<Rightarrow> go_bind (map_exec (jb_openable j) (jb_mapf j) m (cl_fs cl)) (\<lambda>(fs, rep).
             Inr (cl\<lparr>cl_fs := fs, cl_tasks := (cl_tasks cl)[k := TMapDone rep]\<rparr>))
         | TReduce rr \<Rightarrow>
             let (fs, rep) = reduce_exec (jb_openable j) (jb_srt j) (jb_reducef j) rr (cl_fs cl)
             in Inr (cl\<lparr>cl_fs := fs, cl_tasks := (cl_tasks cl)[k := TReduceDone rep]\<rparr>)
         | _ \<Rightarrow> Inr cl)
      else Inr cl)"

definition cl_report :: "nat \<Rightarrow> cluster \<Rightarrow> cluster go" where
  "cl_report k cl =
     (if k < length (cl_tasks cl) then
        (case cl_tasks cl ! k of
           TMapDone a \<Rightarrow> go_bind (CheckLastMapDone (cl_c cl) a) (\<lambda>(c, _).
             Inr (cl\<lparr>cl_c := c, cl_tasks := (cl_tasks cl)[k := TGone]\<rparr>))
         | TReduceDone a \<Rightarrow> go_bind (CheckLastReduceDone (cl_c cl) a) (\<lambda>(c, _).
             Inr (cl\<lparr>cl_c := c, cl_tasks := (cl_tasks cl)[k := TGone]\<rparr>))
         | _ \<Rightarrow> Inr cl)
      else Inr cl)"

text \<open>One look of a monitor at the flag of its task. A task that is to be done again is in the hands of another worker.\<close>

definition cl_look :: "dial_env \<Rightarrow> nat \<Rightarrow> cluster \<Rightarrow> cluster go" where
  "cl_look env k cl =
     (if k < length (cl_monitors cl) then
        (case cl_monitors cl ! k of
           MapMonitor w t \<Rightarrow> go_bind (go_nth (map_complete (cl_c cl)) t) (\<lambda>flag.
             if flag then Inr cl
             else go_bind (callWorkerRedoMap env (cl_c cl) t) (\<lambda>(c, addr, args).
               Inr (cl\<lparr>cl_c := c, cl_tasks := cl_tasks cl @
                 [TMap \<lparr>mr_NReduce = ma_NReduce args, mr_Filename = ma_Filename args, mr_Maptask_id = ma_Maptask_id args\<rparr>]\<rparr>)))
         | ReduceMonitor w r rfiles \<Rightarrow> go_bind (go_nth (reduce_complete (cl_c cl)) r) (\<lambda>flag.
             if flag then Inr cl
             else go_bind (callWorkerRedoReduce env (cl_c cl) r rfiles) (\<lambda>(c, addr, args).
               Inr (cl\<lparr>cl_c := c, cl_tasks := cl_tasks cl @
                 [TReduce \<lparr>rr_Reducetask_id = ra_Reducetask_id args, rr_Reducefiles = ra_Reducefiles args\<rparr>]\<rparr>))))
      else Inr cl)"

fun cl_exec :: "job \<Rightarrow> cluster \<Rightarrow> cl_act \<Rightarrow> (cluster \<times> bool) go" where
  "cl_exec j cl (AskMap a) = go_bind (cl_ask_map a cl) (\<lambda>cl'. Inr (cl', Done (cl_c cl')))"
| "cl_exec j cl (AskReduce a) = go_bind (cl_ask_reduce a cl) (\<lambda>cl'. Inr (cl', Done (cl_c cl')))"
| "cl_exec j cl (Execute k) = go_bind (cl_execute j k cl) (\<lambda>cl'. Inr (cl', Done (cl_c cl')))"
| "cl_exec j cl (Report k) = go_bind (cl_report k cl) (\<lambda>cl'. Inr (cl', Done (cl_c cl')))"
| "cl_exec j cl (Look env k) = go_bind (cl_look env k cl) (\<lambda>cl'. Inr (cl', Done (cl_c cl')))"
| "cl_exec j cl (Die k) = Inr (cl\<lparr>cl_tasks := (cl_tasks cl)[k := TGone]\<rparr>, Done (cl_c cl))"
| "cl_exec j cl (Enter a) = (let cl' = cl\<lparr>cl_c := RegisterWorker (cl_c cl) a\<rparr> in Inr (cl', Done (cl_c cl')))"

definition cl_start :: "job \<Rightarrow> cluster go" where
  "cl_start j = go_bind (MakeCoordinator (jb_files j) (jb_n j)) (\<lambda>c.
     Inr \<lparr>cl_c = c, cl_fs = jb_fs j, cl_tasks = [], cl_monitors = []\<rparr>)"

section \<open>The directory\<close>

abbreviation jb_m :: "job \<Rightarrow> nat" where
  "jb_m j \<equiv> length (jb_files j)"

abbreviation jb_pairs :: "job \<Rightarrow> nat \<Rightarrow> KeyValue list" where
  "jb_pairs j t \<equiv> task_pairs (jb_mapf j) (jb_files j) (jb_fs j) t"

abbreviation jb_all :: "job \<Rightarrow> KeyValue list" where
  "jb_all j \<equiv> job_pairs (jb_mapf j) (jb_files j) (jb_fs j)"

definition job_ok :: "job \<Rightarrow> bool" where
  "job_ok j \<longleftrightarrow> 0 < jb_n j \<and> (\<forall>f. jb_openable j f) \<and> job_inputs (jb_files j) (jb_fs j) \<and>
     (\<forall>f \<in> set (jb_files j). \<forall>r. f \<noteq> output_name r) \<and> (\<forall>t r. jb_fs j (intermediate_name (int t) r) = None) \<and>
     (\<forall>kv \<in> set (jb_all j). ascii_kv kv) \<and> sorts_by_key (jb_srt j)"

definition reduce_text :: "job \<Rightarrow> int \<Rightarrow> string" where
  "reduce_text j r = reduce_loop (jb_reducef j) (jb_srt j (bucket_pairs (jb_n j) r (jb_all j))) 0"

text \<open>The directory when the map tasks \<open>W\<close> and the reduce tasks \<open>R\<close> have been executed, perhaps with others.\<close>

definition fs_ok :: "job \<Rightarrow> nat set \<Rightarrow> int set \<Rightarrow> fs \<Rightarrow> bool" where
  "fs_ok j W R fs \<longleftrightarrow> (\<forall>f \<in> set (jb_files j). fs f = jb_fs j f) \<and>
     (\<forall>t < jb_m j. \<forall>r. bucket_pairs (jb_n j) r (jb_pairs j t) = [] \<longrightarrow> fs (intermediate_name (int t) r) = None) \<and>
     (\<forall>t \<in> W. \<forall>r. bucket_pairs (jb_n j) r (jb_pairs j t) \<noteq> [] \<longrightarrow>
        fs (intermediate_name (int t) r) = Some (concat (map json_encode (bucket_pairs (jb_n j) r (jb_pairs j t))))) \<and>
     (\<forall>r \<in> R. fs (output_name r) = Some (reduce_text j r))"

lemma fs_ok_start: "job_ok j \<Longrightarrow> fs_ok j {} {} (jb_fs j)"
  by (simp add: fs_ok_def job_ok_def)

lemma output_name_inject [simp]: "output_name r = output_name r' \<longleftrightarrow> r = r'"
  by (simp add: output_name_def itoa_inject)

lemma output_not_intermediate: "output_name r \<noteq> intermediate_name (int t) r'"
proof
  assume "output_name r = intermediate_name (int t) r'"
  then have eq: "''out-'' @ itoa r = itoa (int t) @ ''-'' @ itoa r'" by (simp add: output_name_def intermediate_name_def)
  show False
  proof (cases "itoa (int t)")
    case (Cons d ds)
    then have "d = CHR ''o''" using eq by simp
    moreover have "digit_char d" by (rule itoa_int_digits [of _ t]) (simp add: Cons)
    ultimately show False by (simp add: digit_char_def)
  qed (use eq in simp)
qed


lemma task_pairs_now:
  assumes "fs_ok j W R fs" and "t < jb_m j"
  shows "task_pairs (jb_mapf j) (jb_files j) fs t = jb_pairs j t"
  by (rule task_pairs_cong) (use assms in \<open>simp add: fs_ok_def\<close>)

lemma fs_ok_map:
  assumes job: "job_ok j" and ok: "fs_ok j W R fs" and t: "t < jb_m j" and W: "W \<subseteq> {..<jb_m j}"
  shows "\<exists>fs' rep. map_exec (jb_openable j) (jb_mapf j) (map_task (jb_files j) (jb_n j) t) fs = Inr (fs', rep) \<and>
     ma_Maptask_id rep = int t \<and> fs_ok j (insert t W) R fs'"
proof -
  have n: "0 < jb_n j" "\<forall>f. jb_openable j f" using job by (simp_all add: job_ok_def)
  have "job_inputs (jb_files j) fs" using job ok by (simp add: job_ok_def job_inputs_def fs_ok_def)
  from map_exec_files [OF n t this, of "jb_mapf j"] obtain fs' rep
    where ex: "map_exec (jb_openable j) (jb_mapf j) (map_task (jb_files j) (jb_n j) t) fs = Inr (fs', rep)"
      and mine: "\<forall>r. bucket_pairs (jb_n j) r (jb_pairs j t) \<noteq> [] \<longrightarrow>
        fs' (intermediate_name (int t) r) = Some (concat (map json_encode (bucket_pairs (jb_n j) r (jb_pairs j t))))"
      and frame: "\<forall>f. (\<forall>r. bucket_pairs (jb_n j) r (jb_pairs j t) \<noteq> [] \<longrightarrow> f \<noteq> intermediate_name (int t) r) \<longrightarrow> fs' f = fs f"
    unfolding task_pairs_now [OF ok t] by blast
  have input: "fs' f = fs f" if "f \<in> set (jb_files j)" for f
    using that frame job by (auto simp: job_ok_def job_inputs_def)
  have out: "fs' (output_name r) = fs (output_name r)" for r using frame output_not_intermediate by blast
  have other: "fs' (intermediate_name (int u) r) = fs (intermediate_name (int u) r)"
    if "u \<noteq> t \<or> bucket_pairs (jb_n j) r (jb_pairs j t) = []" for u r
  proof (rule frame [rule_format])
    fix r' assume "bucket_pairs (jb_n j) r' (jb_pairs j t) \<noteq> []"
    with that show "intermediate_name (int u) r \<noteq> intermediate_name (int t) r'" by (auto simp: intermediate_name_inject)
  qed
  have "fs_ok j (insert t W) R fs'"
    unfolding fs_ok_def
  proof (intro conjI ballI allI impI)
    fix f assume "f \<in> set (jb_files j)"
    with input ok show "fs' f = jb_fs j f" by (simp add: fs_ok_def)
  next
    fix u r assume "u < jb_m j" "bucket_pairs (jb_n j) r (jb_pairs j u) = []"
    with ok other [of u r] show "fs' (intermediate_name (int u) r) = None" by (cases "u = t") (simp_all add: fs_ok_def)
  next
    fix u r assume u: "u \<in> insert t W" "bucket_pairs (jb_n j) r (jb_pairs j u) \<noteq> []"
    show "fs' (intermediate_name (int u) r) = Some (concat (map json_encode (bucket_pairs (jb_n j) r (jb_pairs j u))))"
    proof (cases "u = t")
      case False
      with u ok other [of u r] show ?thesis by (simp add: fs_ok_def)
    qed (use u mine in simp)
  next
    fix r assume "r \<in> R"
    with ok out show "fs' (output_name r) = Some (reduce_text j r)" by (simp add: fs_ok_def)
  qed
  moreover have "ma_Maptask_id rep = int t" using ex by (auto simp: map_exec_def map_task_def go_iff)
  ultimately show ?thesis using ex by blast
qed

lemma fs_ok_reduce:
  assumes job: "job_ok j" and ok: "fs_ok j {..<jb_m j} R fs"
    and ex: "reduce_exec (jb_openable j) (jb_srt j) (jb_reducef j) (reduce_task (jb_m j) r) fs = (fs', rep)"
  shows "ra_Reducetask_id rep = r \<and> fs_ok j {..<jb_m j} (insert r R) fs'"
proof -
  have "concat (map (\<lambda>f. case fs f of None \<Rightarrow> [] | Some s \<Rightarrow> decode_file s)
      (map (\<lambda>i. intermediate_name (int i) r) [0..<jb_m j])) = bucket_pairs (jb_n j) r (concat (map (jb_pairs j) [0..<jb_m j]))"
  proof (rule read_bucket_files)
    show "\<forall>t < jb_m j. \<forall>kv \<in> set (jb_pairs j t). ascii_kv kv" using job by (auto simp: job_ok_def job_pairs_def)
  qed (use ok in \<open>auto simp: fs_ok_def\<close>)
  then have "read_intermediates (jb_srt j) fs (rr_Reducefiles (reduce_task (jb_m j) r)) = jb_srt j (bucket_pairs (jb_n j) r (jb_all j))"
    by (simp add: read_intermediates_def reduce_task_def job_pairs_def)
  with ex job have fs': "fs' = fs(output_name r \<mapsto> reduce_text j r)" and rep: "ra_Reducetask_id rep = r"
    by (auto simp: reduce_exec_def perform_reduce_def reduce_text_def reduce_task_def job_ok_def Let_def)
  have "f \<noteq> output_name r" if "f \<in> set (jb_files j)" for f using job that by (simp add: job_ok_def)
  with ok rep show ?thesis
    unfolding fs' fs_ok_def by (auto simp: output_not_intermediate [symmetric])
qed

lemma fs_ok_mono: "fs_ok j W R fs \<Longrightarrow> W' \<subseteq> W \<Longrightarrow> R' \<subseteq> R \<Longrightarrow> fs_ok j W' R' fs"
  by (auto simp: fs_ok_def)


section \<open>The invariant\<close>

definition map_done :: "job \<Rightarrow> coordinator \<Rightarrow> bool" where
  "map_done j c \<longleftrightarrow> (\<forall>t < jb_m j. map_complete c ! t)"

definition task_ok :: "job \<Rightarrow> coordinator \<Rightarrow> nat set \<Rightarrow> int set \<Rightarrow> task \<Rightarrow> bool" where
  "task_ok j c W R x \<longleftrightarrow>
     (case x of
        TMap m \<Rightarrow> \<exists>t < jb_m j. m = map_task (jb_files j) (jb_n j) t \<and> int t < counter_map c
      | TMapDone a \<Rightarrow> \<exists>t \<in> W. ma_Maptask_id a = int t \<and> int t < counter_map c
      | TReduce rr \<Rightarrow> map_done j c \<and> (\<exists>r. 0 \<le> r \<and> r < counter_reduce c \<and> rr = reduce_task (jb_m j) r)
      | TReduceDone a \<Rightarrow> map_done j c \<and> 0 \<le> ra_Reducetask_id a \<and> ra_Reducetask_id a < counter_reduce c \<and> ra_Reducetask_id a \<in> R
      | TGone \<Rightarrow> True)"

definition monitor_ok :: "job \<Rightarrow> coordinator \<Rightarrow> monitor \<Rightarrow> bool" where
  "monitor_ok j c x \<longleftrightarrow>
     (case x of
        MapMonitor w t \<Rightarrow> 0 \<le> t \<and> t < counter_map c
      | ReduceMonitor w r rfiles \<Rightarrow> map_done j c \<and> 0 \<le> r \<and> r < counter_reduce c \<and> rfiles = rr_Reducefiles (reduce_task (jb_m j) r))"

definition flags_ok :: "job \<Rightarrow> coordinator \<Rightarrow> nat set \<Rightarrow> int set \<Rightarrow> bool" where
  "flags_ok j c W R \<longleftrightarrow> (\<forall>t < jb_m j. map_complete c ! t \<longrightarrow> t \<in> W \<and> int t < counter_map c) \<and>
     (\<forall>r. 0 \<le> r \<longrightarrow> r < jb_n j \<longrightarrow> reduce_complete c ! nat r \<longrightarrow> r \<in> R \<and> r < counter_reduce c)"

definition cl_ok :: "job \<Rightarrow> nat set \<Rightarrow> int set \<Rightarrow> cluster \<Rightarrow> bool" where
  "cl_ok j W R cl \<longleftrightarrow> W \<subseteq> {..<jb_m j} \<and> coord_inv (jb_files j) (jb_n j) (cl_c cl) \<and> fs_ok j W R (cl_fs cl) \<and>
     flags_ok j (cl_c cl) W R \<and> (\<forall>x \<in> set (cl_tasks cl). task_ok j (cl_c cl) W R x) \<and>
     (\<forall>x \<in> set (cl_monitors cl). monitor_ok j (cl_c cl) x)"

definition later :: "job \<Rightarrow> coordinator \<Rightarrow> coordinator \<Rightarrow> bool" where
  "later j c c' \<longleftrightarrow> counter_map c \<le> counter_map c' \<and> counter_reduce c \<le> counter_reduce c' \<and> (map_done j c \<longrightarrow> map_done j c')"

lemma task_ok_mono: "task_ok j c W R x \<Longrightarrow> later j c c' \<Longrightarrow> W \<subseteq> W' \<Longrightarrow> R \<subseteq> R' \<Longrightarrow> task_ok j c' W' R' x"
  unfolding task_ok_def later_def by (cases x) (fastforce simp del: One_nat_def)+

lemma monitor_ok_mono: "monitor_ok j c x \<Longrightarrow> later j c c' \<Longrightarrow> monitor_ok j c' x"
  by (cases x) (auto simp: monitor_ok_def later_def)

lemma later_refl [simp]: "later j c c"
  by (simp add: later_def)

text \<open>A step of the coordinator, with a new task and a new monitor perhaps.\<close>

lemma cl_ok_step:
  assumes "cl_ok j W R cl" and "coord_inv (jb_files j) (jb_n j) c'" and "later j (cl_c cl) c'" and "flags_ok j c' W R"
    and "\<forall>x \<in> set xs. task_ok j c' W R x" and "\<forall>x \<in> set ms. monitor_ok j c' x"
  shows "cl_ok j W R (cl\<lparr>cl_c := c', cl_monitors := cl_monitors cl @ ms, cl_tasks := cl_tasks cl @ xs\<rparr>)"
  using assms task_ok_mono [OF _ assms(3)] monitor_ok_mono [OF _ assms(3)] by (auto simp: cl_ok_def)

lemma GiveMapTask_elim:
  assumes "GiveMapTask c a = Inr (c', r, ms)" and "coord_inv (jb_files j) (jb_n j) c"
  obtains "c' = c" "r = Inl EOF" "ms = []"
  | t where "t < jb_m j" "counter_map c = int t" "c' = c\<lparr>counter_map := int t + 1\<rparr>"
      "r = Inr (map_task (jb_files j) (jb_n j) t)" "ms = [MapMonitor (ma_Worker_id a) (int t)]"
proof (cases "GiveMapTask_test c")
  case True
  with assms(1) show ?thesis by (intro that(1)) (simp_all add: GiveMapTask_def)
next
  case False
  with assms(2) have t: "nat (counter_map c) < jb_m j" "counter_map c = int (nat (counter_map c))" "filenames c = jb_files j"
    "nReduce c = jb_n j" by (auto simp: GiveMapTask_test_def coord_inv_def)
  show ?thesis
    by (rule that(2) [OF t(1,2)]) (use assms(1) False t in \<open>auto simp: GiveMapTask_def GiveMapTask_locked_def map_task_def go_iff\<close>)
qed

lemma cl_ask_map_ok:
  assumes ok: "cl_ok j W R cl" and ask: "cl_ask_map a cl = Inr cl'"
  shows "cl_ok j W R cl'"
proof -
  let ?c = "cl_c cl"
  from ask obtain c' r ms where give: "GiveMapTask ?c a = Inr (c', r, ms)"
    and cl': "cl' = cl\<lparr>cl_c := c', cl_monitors := cl_monitors cl @ ms,
      cl_tasks := cl_tasks cl @ (case r of Inl _ \<Rightarrow> [] | Inr m \<Rightarrow> [TMap m])\<rparr>" by (auto simp: cl_ask_map_def go_bind_Inr)
  have inv: "coord_inv (jb_files j) (jb_n j) ?c" and flags: "flags_ok j ?c W R" using ok by (simp_all add: cl_ok_def)
  note inv' = GiveMapTask_inv [OF inv give]
  show ?thesis
    unfolding cl'
  proof (rule cl_ok_step [OF ok inv'])
    from give inv show "later j ?c c'" by (cases rule: GiveMapTask_elim) (auto simp: later_def map_done_def)
    from give inv show "flags_ok j c' W R" by (cases rule: GiveMapTask_elim) (use flags in \<open>auto simp: flags_ok_def\<close>)
    from give inv show "\<forall>x \<in> set (case r of Inl _ \<Rightarrow> [] | Inr m \<Rightarrow> [TMap m]). task_ok j c' W R x"
      by (cases rule: GiveMapTask_elim) (auto simp: task_ok_def)
    from give inv show "\<forall>x \<in> set ms. monitor_ok j c' x"
      by (cases rule: GiveMapTask_elim) (auto simp: monitor_ok_def)
  qed
qed

text \<open>When reduce tasks are handed out all map tasks are done, and all have been handed out.\<close>

lemma all_maps_done:
  assumes "coord_inv (jb_files j) (jb_n j) c" and "flags_ok j c W R" and "\<not> GiveReduceTask_notReady c"
  shows "map_done j c" and "counter_map c = int (jb_m j)"
proof -
  have "count_true (map_complete c) = length (map_complete c)"
    using assms(1,3) by (auto simp: coord_inv_def GiveReduceTask_notReady_def)
  then show fin: "map_done j c" using assms(1) by (auto simp: map_done_def coord_inv_def count_true_full all_set_conv_all_nth)
  have "int (jb_m j) \<le> counter_map c"
  proof (cases "jb_m j")
    case 0
    then show ?thesis using assms(1) by (simp add: coord_inv_def)
  next
    case (Suc k)
    then have "map_complete c ! k" using fin by (simp add: map_done_def)
    with assms(2) Suc show ?thesis by (auto simp: flags_ok_def)
  qed
  then show "counter_map c = int (jb_m j)" using assms(1) by (simp add: coord_inv_def)
qed

lemma GiveReduceTask_elim:
  assumes "GiveReduceTask c a = Inr (c', r, ms)" and "coord_inv (jb_files j) (jb_n j) c" and "flags_ok j c W R"
  obtains "c' = c" "r = Inl EOF \<or> r = Inr \<lparr>rr_Reducetask_id = -1, rr_Reducefiles = []\<rparr>" "ms = []"
  | q where "map_done j c" "0 \<le> q" "q < jb_n j" "counter_reduce c = q" "c' = c\<lparr>counter_reduce := q + 1\<rparr>" "r = Inr (reduce_task (jb_m j) q)"
      "ms = [ReduceMonitor (ra_Worker_id a) q (rr_Reducefiles (reduce_task (jb_m j) q))]"
proof (cases "GiveReduceTask_notReady c \<or> GiveReduceTask_test c")
  case True
  with assms(1) show ?thesis by (intro that(1)) (auto simp: GiveReduceTask_def split: if_splits)
next
  case False
  note fin = all_maps_done [OF assms(2,3)]
  have q: "0 \<le> counter_reduce c" "counter_reduce c < jb_n j"
    using False assms(2) by (auto simp: GiveReduceTask_test_def coord_inv_def)
  show ?thesis
    by (rule that(2) [OF _ q refl])
      (use assms(1) False fin in \<open>auto simp: GiveReduceTask_def GiveReduceTask_locked_def reduce_task_def go_make_def Let_def go_iff\<close>)
qed

lemma cl_ask_reduce_ok:
  assumes ok: "cl_ok j W R cl" and ask: "cl_ask_reduce a cl = Inr cl'"
  shows "cl_ok j W R cl'"
proof -
  let ?c = "cl_c cl"
  let ?xs = "\<lambda>r. case r of Inl _ \<Rightarrow> [] | Inr rr \<Rightarrow> if rr_Reducetask_id rr = -1 then [] else [TReduce rr]"
  from ask obtain c' r ms where give: "GiveReduceTask ?c a = Inr (c', r, ms)"
    and cl': "cl' = cl\<lparr>cl_c := c', cl_monitors := cl_monitors cl @ ms, cl_tasks := cl_tasks cl @ ?xs r\<rparr>"
    by (auto simp: cl_ask_reduce_def go_bind_Inr)
  have inv: "coord_inv (jb_files j) (jb_n j) ?c" and flags: "flags_ok j ?c W R" using ok by (simp_all add: cl_ok_def)
  note inv' = GiveReduceTask_inv [OF inv give]
  show ?thesis
    unfolding cl'
  proof (rule cl_ok_step [OF ok inv'])
    from give inv flags show "later j ?c c'" by (cases rule: GiveReduceTask_elim) (auto simp: later_def map_done_def)
    from give inv flags show "flags_ok j c' W R" by (cases rule: GiveReduceTask_elim) (use flags in \<open>auto simp: flags_ok_def\<close>)
    from give inv flags show "\<forall>x \<in> set (?xs r). task_ok j c' W R x"
      by (cases rule: GiveReduceTask_elim) (auto simp: task_ok_def map_done_def)
    from give inv flags show "\<forall>x \<in> set ms. monitor_ok j c' x"
      by (cases rule: GiveReduceTask_elim) (auto simp: monitor_ok_def map_done_def)
  qed
qed


lemma cl_ok_task:
  assumes "cl_ok j W R cl" and "k < length (cl_tasks cl)"
  shows "task_ok j (cl_c cl) W R (cl_tasks cl ! k)"
  using assms by (auto simp: cl_ok_def)

lemma cl_ok_update:
  assumes "cl_ok j W R cl" and "fs_ok j W' R' fs" and "W \<subseteq> W'" and "W' \<subseteq> {..<jb_m j}" and "R \<subseteq> R'" and "task_ok j (cl_c cl) W' R' x"
  shows "cl_ok j W' R' (cl\<lparr>cl_fs := fs, cl_tasks := (cl_tasks cl)[k := x]\<rparr>)"
proof -
  have "task_ok j (cl_c cl) W' R' y" if "y \<in> set ((cl_tasks cl)[k := x])" for y
    using that assms task_ok_mono [OF _ later_refl, of j "cl_c cl" W R y W' R']
    by (auto simp: cl_ok_def dest: set_update_subset_insert [THEN subsetD])
  moreover have "flags_ok j (cl_c cl) W' R'" using assms by (auto simp: cl_ok_def flags_ok_def)
  ultimately show ?thesis using assms by (simp add: cl_ok_def)
qed

lemma map_done_all: "flags_ok j c W R \<Longrightarrow> W \<subseteq> {..<jb_m j} \<Longrightarrow> map_done j c \<Longrightarrow> W = {..<jb_m j}"
  by (auto simp: flags_ok_def map_done_def)

lemma cl_execute_ok:
  assumes job: "job_ok j" and ok: "cl_ok j W R cl"
  shows "\<exists>cl' W' R'. cl_execute j k cl = Inr cl' \<and> cl_ok j W' R' cl' \<and> cl_c cl' = cl_c cl"
proof (cases "k < length (cl_tasks cl)")
  case True
  note task = cl_ok_task [OF ok True]
  have W: "W \<subseteq> {..<jb_m j}" and fs: "fs_ok j W R (cl_fs cl)" and flags: "flags_ok j (cl_c cl) W R" using ok by (simp_all add: cl_ok_def)
  show ?thesis
  proof (cases "cl_tasks cl ! k")
    case (TMap m)
    with task obtain t where t: "t < jb_m j" "m = map_task (jb_files j) (jb_n j) t" "int t < counter_map (cl_c cl)" by (auto simp: task_ok_def)
    from fs_ok_map [OF job fs t(1) W] obtain fs' rep where ex: "map_exec (jb_openable j) (jb_mapf j) m (cl_fs cl) = Inr (fs', rep)"
      and rep: "ma_Maptask_id rep = int t" and fs': "fs_ok j (insert t W) R fs'" unfolding t(2) by blast
    have "task_ok j (cl_c cl) (insert t W) R (TMapDone rep)" using t rep by (simp add: task_ok_def)
    from cl_ok_update [OF ok fs' _ _ _ this, of k] W t(1) ex True TMap show ?thesis
      by (auto simp: cl_execute_def)
  next
    case (TReduce rr)
    with task obtain r where r: "map_done j (cl_c cl)" "0 \<le> r" "r < counter_reduce (cl_c cl)" "rr = reduce_task (jb_m j) r" by (auto simp: task_ok_def)
    note all = map_done_all [OF flags W r(1)]
    obtain fs' rep where ex: "reduce_exec (jb_openable j) (jb_srt j) (jb_reducef j) rr (cl_fs cl) = (fs', rep)" by fastforce
    from fs_ok_reduce [OF job fs [unfolded all] ex [unfolded r(4)]] have rep: "ra_Reducetask_id rep = r" and fs': "fs_ok j W (insert r R) fs'"
      by (simp_all add: all)
    have "task_ok j (cl_c cl) W (insert r R) (TReduceDone rep)" using r rep by (simp add: task_ok_def)
    from cl_ok_update [OF ok fs' _ W _ this, of k] ex True TReduce show ?thesis
      by (auto simp: cl_execute_def)
  qed (use ok True in \<open>auto simp: cl_execute_def\<close>)
qed (use ok in \<open>auto simp: cl_execute_def\<close>)

lemma cl_ok_report:
  assumes ok: "cl_ok j W R cl" and "coord_inv (jb_files j) (jb_n j) c'" and "later j (cl_c cl) c'" and "flags_ok j c' W R"
  shows "cl_ok j W R (cl\<lparr>cl_c := c', cl_tasks := (cl_tasks cl)[k := TGone]\<rparr>)"
proof -
  have "task_ok j c' W R y" if "y \<in> set ((cl_tasks cl)[k := TGone])" for y
  proof (cases "y = TGone")
    case False
    with that ok have "task_ok j (cl_c cl) W R y" by (auto simp: cl_ok_def dest: set_update_subset_insert [THEN subsetD])
    from task_ok_mono [OF this assms(3) subset_refl subset_refl] show ?thesis .
  qed (simp add: task_ok_def)
  with assms monitor_ok_mono [OF _ assms(3)] show ?thesis by (auto simp: cl_ok_def)
qed

lemma cl_report_ok:
  assumes ok: "cl_ok j W R cl"
  shows "\<exists>cl'. cl_report k cl = Inr cl' \<and> cl_ok j W R cl'"
proof (cases "k < length (cl_tasks cl)")
  case True
  note task = cl_ok_task [OF ok True]
  have inv: "coord_inv (jb_files j) (jb_n j) (cl_c cl)" and W: "W \<subseteq> {..<jb_m j}" and flags: "flags_ok j (cl_c cl) W R"
    using ok by (simp_all add: cl_ok_def)
  have len: "length (map_complete (cl_c cl)) = jb_m j" "int (length (reduce_complete (cl_c cl))) = jb_n j" using inv by (simp_all add: coord_inv_def)
  show ?thesis
  proof (cases "cl_tasks cl ! k")
    case (TMapDone a)
    with task obtain t where t: "t \<in> W" "ma_Maptask_id a = int t" "int t < counter_map (cl_c cl)" by (auto simp: task_ok_def)
    have tm: "t < jb_m j" using t(1) W by auto
    let ?c = "if map_complete (cl_c cl) ! t then cl_c cl
      else (cl_c cl)\<lparr>map_complete := (map_complete (cl_c cl))[t := True], done_map := done_map (cl_c cl) + 1\<rparr>"
    have rep: "CheckLastMapDone (cl_c cl) a = Inr (?c, MapDone_ret ?c)" using t(2) tm len by (simp add: CheckLastMapDone_cases)
    have "later j (cl_c cl) ?c" "flags_ok j ?c W R"
      using flags t tm len by (auto simp: later_def map_done_def flags_ok_def nth_list_update)
    from cl_ok_report [OF ok CheckLastMapDone_inv [OF inv rep] this, of k] rep True TMapDone show ?thesis
      by (auto simp: cl_report_def)
  next
    case (TReduceDone a)
    with task have r0: "0 \<le> ra_Reducetask_id a" "ra_Reducetask_id a < counter_reduce (cl_c cl)" "ra_Reducetask_id a \<in> R" by (auto simp: task_ok_def)
    moreover have "counter_reduce (cl_c cl) \<le> jb_n j" using inv by (simp add: coord_inv_def)
    ultimately have r: "0 \<le> ra_Reducetask_id a" "ra_Reducetask_id a < jb_n j" by simp_all
    let ?r = "nat (ra_Reducetask_id a)"
    let ?c = "if reduce_complete (cl_c cl) ! ?r then cl_c cl
      else (cl_c cl)\<lparr>reduce_complete := (reduce_complete (cl_c cl))[?r := True], done_reduce := done_reduce (cl_c cl) + 1\<rparr>"
    have rep: "CheckLastReduceDone (cl_c cl) a = Inr (?c, ReduceDone_ret ?c)" using r len by (simp add: CheckLastReduceDone_cases)
    have "later j (cl_c cl) ?c" by (auto simp: later_def map_done_def)
    moreover have "flags_ok j ?c W R"
      using flags r0 r len by (auto simp: flags_ok_def nth_list_update nat_eq_iff)
    ultimately show ?thesis
      using cl_ok_report [OF ok CheckLastReduceDone_inv [OF inv rep], of k] rep True TReduceDone by (auto simp: cl_report_def)
  qed (use ok True in \<open>auto simp: cl_report_def\<close>)
qed (use ok in \<open>auto simp: cl_report_def\<close>)

lemma callWorker_keeps:
  assumes "callWorker env c = Inr (c', addr, b)"
  shows "\<exists>book. c' = c\<lparr>worker_book := book\<rparr>"
  using assms by (auto simp: callWorker_def delete_workers_def Let_def split: prod.splits if_splits)

lemma cl_look_ok:
  assumes ok: "cl_ok j W R cl" and look: "cl_look env k cl = Inr cl'"
  shows "cl_ok j W R cl'"
proof (cases "cl' = cl")
  case False
  have inv: "coord_inv (jb_files j) (jb_n j) (cl_c cl)" and flags: "flags_ok j (cl_c cl) W R" using ok by (simp_all add: cl_ok_def)
  have k: "k < length (cl_monitors cl)" using False look by (auto simp: cl_look_def split: if_splits)
  then have mon: "monitor_ok j (cl_c cl) (cl_monitors cl ! k)" using ok by (simp add: cl_ok_def)
  have step: "cl_ok j W R (cl\<lparr>cl_c := (cl_c cl)\<lparr>worker_book := book\<rparr>, cl_tasks := cl_tasks cl @ [x]\<rparr>)"
    if "task_ok j (cl_c cl) W R x" for book x
  proof -
    let ?c = "(cl_c cl)\<lparr>worker_book := book\<rparr>"
    have later: "later j (cl_c cl) ?c" by (simp add: later_def map_done_def)
    have "coord_inv (jb_files j) (jb_n j) ?c" "flags_ok j ?c W R" using inv flags by (simp_all add: coord_inv_def flags_ok_def)
    from cl_ok_step [OF ok this(1) later this(2), of "[x]" "[]"] task_ok_mono [OF that later] show ?thesis by simp
  qed
  show ?thesis
  proof (cases "cl_monitors cl ! k")
    case (MapMonitor w t)
    with mon inv have t: "0 \<le> t" "t < counter_map (cl_c cl)" "nat t < jb_m j" by (auto simp: monitor_ok_def coord_inv_def)
    from look False k MapMonitor obtain c' addr args where redo: "callWorkerRedoMap env (cl_c cl) t = Inr (c', addr, args)"
      and cl': "cl' = cl\<lparr>cl_c := c', cl_tasks := cl_tasks cl @
        [TMap \<lparr>mr_NReduce = ma_NReduce args, mr_Filename = ma_Filename args, mr_Maptask_id = ma_Maptask_id args\<rparr>]\<rparr>"
      by (auto simp: cl_look_def go_bind_Inr split: if_splits)
    from redo obtain book where c': "c' = (cl_c cl)\<lparr>worker_book := book\<rparr>"
      by (auto simp: callWorkerRedoMap_def go_bind_Inr Let_def dest!: callWorker_keeps)
    have "\<lparr>mr_NReduce = ma_NReduce args, mr_Filename = ma_Filename args, mr_Maptask_id = ma_Maptask_id args\<rparr> =
        map_task (jb_files j) (jb_n j) (nat t)"
      using redo t inv by (auto simp: callWorkerRedoMap_def go_bind_Inr Let_def map_task_def coord_inv_def go_nth_def split: if_splits)
    then have "task_ok j (cl_c cl) W R (TMap \<lparr>mr_NReduce = ma_NReduce args, mr_Filename = ma_Filename args, mr_Maptask_id = ma_Maptask_id args\<rparr>)"
      using t by (auto simp: task_ok_def)
    from step [OF this] show ?thesis by (simp add: cl' c')
  next
    case (ReduceMonitor w r rfiles)
    with mon have r: "map_done j (cl_c cl)" "0 \<le> r" "r < counter_reduce (cl_c cl)" "rfiles = rr_Reducefiles (reduce_task (jb_m j) r)" by (auto simp: monitor_ok_def)
    from look False k ReduceMonitor obtain c' addr args where redo: "callWorkerRedoReduce env (cl_c cl) r rfiles = Inr (c', addr, args)"
      and cl': "cl' = cl\<lparr>cl_c := c', cl_tasks := cl_tasks cl @
        [TReduce \<lparr>rr_Reducetask_id = ra_Reducetask_id args, rr_Reducefiles = ra_Reducefiles args\<rparr>]\<rparr>"
      by (auto simp: cl_look_def go_bind_Inr split: if_splits)
    from redo obtain book where c': "c' = (cl_c cl)\<lparr>worker_book := book\<rparr>"
      and args: "args = \<lparr>ra_Reducetask_id = r, ra_Reducefiles = rfiles, ra_Worker_id = 0\<rparr>"
      by (auto simp: callWorkerRedoReduce_def go_bind_Inr Let_def dest!: callWorker_keeps)
    have "task_ok j (cl_c cl) W R (TReduce \<lparr>rr_Reducetask_id = ra_Reducetask_id args, rr_Reducefiles = ra_Reducefiles args\<rparr>)"
      using r by (auto simp: task_ok_def args reduce_task_def)
    from step [OF this] show ?thesis by (simp add: cl' c')
  qed
qed (use ok in simp)


lemma cl_exec_ok:
  assumes job: "job_ok j" and ok: "cl_ok j W R cl" and ex: "cl_exec j cl act = Inr (cl', out)"
  shows "\<exists>W' R'. cl_ok j W' R' cl'"
proof (cases act)
  case (Execute k)
  with cl_execute_ok [OF job ok, of k] ex show ?thesis by fastforce
next
  case (Report k)
  with cl_report_ok [OF ok, of k] ex show ?thesis by fastforce
next
  case (Die k)
  have "cl_ok j W R (cl\<lparr>cl_c := cl_c cl, cl_tasks := (cl_tasks cl)[k := TGone]\<rparr>)"
    by (rule cl_ok_report [OF ok]) (use ok in \<open>simp_all add: cl_ok_def\<close>)
  with Die ex have "cl_ok j W R cl'" by simp
  then show ?thesis by blast
next
  case (Enter a)
  have "cl_ok j W R (cl\<lparr>cl_c := RegisterWorker (cl_c cl) a, cl_monitors := cl_monitors cl @ [], cl_tasks := cl_tasks cl @ []\<rparr>)"
    by (rule cl_ok_step [OF ok])
      (use ok in \<open>simp_all add: cl_ok_def RegisterWorker_def later_def map_done_def flags_ok_def coord_inv_def\<close>)
  with Enter ex have "cl_ok j W R cl'" by (auto simp: Let_def)
  then show ?thesis by blast
qed (use ex cl_ask_map_ok [OF ok] cl_ask_reduce_ok [OF ok] cl_look_ok [OF ok] in \<open>fastforce simp: go_bind_Inr\<close>)+

interpretation clm: go_machine "cl_exec j" "\<lambda>cl. job_ok j \<and> (\<exists>W R. cl_ok j W R cl)" "\<lambda>_ _. True" for j
  by unfold_locales (use cl_exec_ok in blast)

lemma cl_start_ok:
  assumes "job_ok j" and "cl_start j = Inr cl"
  shows "cl_ok j {} {} cl"
proof -
  from assms(2) obtain c where c: "MakeCoordinator (jb_files j) (jb_n j) = Inr c"
    and cl: "cl = \<lparr>cl_c = c, cl_fs = jb_fs j, cl_tasks = [], cl_monitors = []\<rparr>" by (auto simp: cl_start_def go_bind_Inr)
  have "flags_ok j c {} {}"
    using c by (auto simp: flags_ok_def MakeCoordinator_def go_make_def go_bind_Inr split: if_splits)
  with MakeCoordinator_inv [OF c] fs_ok_start [OF assms(1)] show ?thesis by (simp add: cl_ok_def cl)
qed



section \<open>The job can always be finished\<close>

text \<open>\<^verbatim>\<open>callWorker\<close> ranges over the book of workers.\<close>

fun cl_pre :: "cluster \<Rightarrow> cl_act \<Rightarrow> bool" where
  "cl_pre cl (Look env k) \<longleftrightarrow> distinct (order env) \<and> set (order env) = {(p, a). worker_book (cl_c cl) p = Some a}"
| "cl_pre cl _ \<longleftrightarrow> True"

text \<open>Every task that was handed out has a monitor.\<close>

definition covered :: "cluster \<Rightarrow> bool" where
  "covered cl \<longleftrightarrow> finite (dom (worker_book (cl_c cl))) \<and>
     (\<forall>t. 0 \<le> t \<and> t < counter_map (cl_c cl) \<longrightarrow> (\<exists>w. MapMonitor w t \<in> set (cl_monitors cl))) \<and>
     (\<forall>r. 0 \<le> r \<and> r < counter_reduce (cl_c cl) \<longrightarrow> (\<exists>w rfiles. ReduceMonitor w r rfiles \<in> set (cl_monitors cl)))"

lemma covered_keeps:
  "covered cl \<Longrightarrow> counter_map (cl_c cl') = counter_map (cl_c cl) \<Longrightarrow> counter_reduce (cl_c cl') = counter_reduce (cl_c cl) \<Longrightarrow>
     set (cl_monitors cl) \<subseteq> set (cl_monitors cl') \<Longrightarrow> finite (dom (worker_book (cl_c cl'))) \<Longrightarrow> covered cl'"
  unfolding covered_def by (simp, meson subsetD)

lemma covered_more:
  assumes cov: "covered cl" and same: "worker_book (cl_c cl') = worker_book (cl_c cl)" and mons: "set (cl_monitors cl) \<subseteq> set (cl_monitors cl')"
    and maps: "\<And>t. t < counter_map (cl_c cl') \<Longrightarrow> \<not> t < counter_map (cl_c cl) \<Longrightarrow> \<exists>w. MapMonitor w t \<in> set (cl_monitors cl')"
    and reds: "\<And>r. r < counter_reduce (cl_c cl') \<Longrightarrow> \<not> r < counter_reduce (cl_c cl) \<Longrightarrow> \<exists>w rfiles. ReduceMonitor w r rfiles \<in> set (cl_monitors cl')"
  shows "covered cl'"
  unfolding covered_def
proof (intro conjI allI impI)
  show "finite (dom (worker_book (cl_c cl')))" using cov same by (simp add: covered_def)
  show "\<exists>w. MapMonitor w t \<in> set (cl_monitors cl')" if "0 \<le> t \<and> t < counter_map (cl_c cl')" for t
    using that cov mons maps [of t] unfolding covered_def by (cases "t < counter_map (cl_c cl)") blast+
  show "\<exists>w rfiles. ReduceMonitor w r rfiles \<in> set (cl_monitors cl')" if "0 \<le> r \<and> r < counter_reduce (cl_c cl')" for r
    using that cov mons reds [of r] unfolding covered_def by (cases "r < counter_reduce (cl_c cl)") blast+
qed

lemma callWorker_book:
  assumes "callWorker env c = Inr (c', addr, b)"
  shows "\<exists>S. c' = c\<lparr>worker_book := worker_book c |` S\<rparr>"
  using assms by (auto simp: callWorker_def delete_workers_def Let_def split: prod.splits if_splits)

lemma cl_execute_fields:
  assumes "cl_execute j k cl = Inr cl'"
  shows "cl_c cl' = cl_c cl \<and> cl_monitors cl' = cl_monitors cl"
  using assms by (cases "cl_tasks cl ! k") (auto simp: cl_execute_def go_bind_Inr Let_def split: if_splits prod.splits)

lemma CheckLast_fields:
  "CheckLastMapDone c a = Inr (c', r) \<Longrightarrow> counter_map c' = counter_map c \<and> counter_reduce c' = counter_reduce c \<and> worker_book c' = worker_book c"
  "CheckLastReduceDone c b = Inr (c', r) \<Longrightarrow> counter_map c' = counter_map c \<and> counter_reduce c' = counter_reduce c \<and> worker_book c' = worker_book c"
  unfolding CheckLastMapDone_cases CheckLastReduceDone_cases by (elim conjE, simp split: if_splits)+

lemma cl_report_fields:
  assumes "cl_report k cl = Inr cl'"
  shows "cl_monitors cl' = cl_monitors cl \<and> counter_map (cl_c cl') = counter_map (cl_c cl) \<and>
     counter_reduce (cl_c cl') = counter_reduce (cl_c cl) \<and> worker_book (cl_c cl') = worker_book (cl_c cl)"
proof (cases "cl_tasks cl ! k")
  case (TMapDone a)
  with assms show ?thesis by (auto simp: cl_report_def go_bind_Inr split: if_splits dest: CheckLast_fields)
next
  case (TReduceDone a)
  with assms show ?thesis by (auto simp: cl_report_def go_bind_Inr split: if_splits dest: CheckLast_fields)
qed (use assms in \<open>auto simp: cl_report_def split: if_splits\<close>)

lemma cl_look_fields:
  assumes "cl_look env k cl = Inr cl'"
  shows "cl_monitors cl' = cl_monitors cl \<and> (\<exists>S. cl_c cl' = cl_c cl \<or> cl_c cl' = (cl_c cl)\<lparr>worker_book := worker_book (cl_c cl) |` S\<rparr>)"
proof (cases "cl_monitors cl ! k")
  case (MapMonitor w t)
  with assms show ?thesis
    by (auto simp: cl_look_def go_bind_Inr callWorkerRedoMap_def Let_def split: if_splits dest!: callWorker_book)
next
  case (ReduceMonitor w r rfiles)
  with assms show ?thesis
    by (auto simp: cl_look_def go_bind_Inr callWorkerRedoReduce_def Let_def split: if_splits dest!: callWorker_book)
qed

lemma cl_exec_covered:
  assumes cov: "covered cl" and ok: "cl_ok j W R cl" and ex: "cl_exec j cl act = Inr (cl', out)"
  shows "covered cl'"
proof -
  have inv: "coord_inv (jb_files j) (jb_n j) (cl_c cl)" and flags: "flags_ok j (cl_c cl) W R" using ok by (simp_all add: cl_ok_def)
  have fin: "finite (dom (worker_book (cl_c cl)))" using cov by (simp add: covered_def)
  show ?thesis
  proof (cases act)
    case (AskMap a)
    with ex obtain c' r ms where give: "GiveMapTask (cl_c cl) a = Inr (c', r, ms)" and cl': "cl_c cl' = c'" "cl_monitors cl' = cl_monitors cl @ ms"
      by (auto simp: cl_ask_map_def go_bind_Inr)
    from give inv show ?thesis
    proof (cases rule: GiveMapTask_elim)
      case 1
      with cl' fin show ?thesis by (intro covered_keeps [OF cov]) auto
    next
      case (2 t)
      have "s = int t" if "\<not> s < int t" "s < int t + 1" for s using that by linarith
      with 2 cl' show ?thesis by (intro covered_more [OF cov]) auto
    qed
  next
    case (AskReduce a)
    with ex obtain c' r ms where give: "GiveReduceTask (cl_c cl) a = Inr (c', r, ms)" and cl': "cl_c cl' = c'" "cl_monitors cl' = cl_monitors cl @ ms"
      by (auto simp: cl_ask_reduce_def go_bind_Inr)
    from give inv flags show ?thesis
    proof (cases rule: GiveReduceTask_elim)
      case 1
      with cl' fin show ?thesis by (intro covered_keeps [OF cov]) auto
    next
      case (2 q)
      have "s = q" if "\<not> s < q" "s < q + 1" for s using that by linarith
      with 2 cl' show ?thesis by (intro covered_more [OF cov]) auto
    qed
  next
    case (Execute k)
    with ex have "cl_c cl' = cl_c cl \<and> cl_monitors cl' = cl_monitors cl" by (auto simp: go_bind_Inr dest: cl_execute_fields)
    with fin show ?thesis by (intro covered_keeps [OF cov]) simp_all
  next
    case (Report k)
    with ex have "cl_report k cl = Inr cl'" by (auto simp: go_bind_Inr)
    from cl_report_fields [OF this] fin show ?thesis by (intro covered_keeps [OF cov]) simp_all
  next
    case (Look env k)
    with ex have "cl_look env k cl = Inr cl'" by (auto simp: go_bind_Inr)
    from cl_look_fields [OF this] obtain S where mons: "cl_monitors cl' = cl_monitors cl"
      and c: "cl_c cl' = cl_c cl \<or> cl_c cl' = (cl_c cl)\<lparr>worker_book := worker_book (cl_c cl) |` S\<rparr>" by blast
    from c show ?thesis by (elim disjE; intro covered_keeps [OF cov]) (simp_all add: mons fin)
  next
    case (Die k)
    with ex fin show ?thesis by (intro covered_keeps [OF cov]) auto
  next
    case (Enter a)
    with ex fin show ?thesis by (intro covered_keeps [OF cov]) (auto simp: Let_def RegisterWorker_def)
  qed
qed


text \<open>Executing and reporting the task that was taken last.\<close>

lemma finish_map:
  assumes job: "job_ok j" and ok: "cl_ok j W R cl" and t: "t < jb_m j" "\<not> map_complete (cl_c cl) ! t"
    and tasks: "cl_tasks cl = xs @ [TMap (map_task (jb_files j) (jb_n j) t)]"
  shows "\<exists>cl' os. go_run (cl_exec j) cl [Execute (length xs), Report (length xs)] = Inr (cl', os) \<and>
     map_complete (cl_c cl') = (map_complete (cl_c cl))[t := True] \<and> reduce_complete (cl_c cl') = reduce_complete (cl_c cl)"
proof -
  have W: "W \<subseteq> {..<jb_m j}" and fs: "fs_ok j W R (cl_fs cl)" and len: "length (map_complete (cl_c cl)) = jb_m j"
    using ok by (simp_all add: cl_ok_def coord_inv_def)
  from fs_ok_map [OF job fs t(1) W] obtain fs' rep where ex: "map_exec (jb_openable j) (jb_mapf j) (map_task (jb_files j) (jb_n j) t) (cl_fs cl) = Inr (fs', rep)"
    and rep: "ma_Maptask_id rep = int t" by blast
  have exec: "cl_execute j (length xs) cl = Inr (cl\<lparr>cl_fs := fs', cl_tasks := xs @ [TMapDone rep]\<rparr>)"
    by (simp add: cl_execute_def tasks ex)
  obtain c' r where done': "CheckLastMapDone (cl_c cl) rep = Inr (c', r)" "map_complete c' = (map_complete (cl_c cl))[t := True]"
    "reduce_complete c' = reduce_complete (cl_c cl)"
    using rep t len by (simp add: CheckLastMapDone_cases)
  from exec done' show ?thesis by (simp add: cl_report_def)
qed

lemma finish_reduce:
  assumes ok: "cl_ok j W R cl" and r: "0 \<le> r" "r < jb_n j" "\<not> reduce_complete (cl_c cl) ! nat r"
    and tasks: "cl_tasks cl = xs @ [TReduce (reduce_task (jb_m j) r)]"
  shows "\<exists>cl' os. go_run (cl_exec j) cl [Execute (length xs), Report (length xs)] = Inr (cl', os) \<and>
     map_complete (cl_c cl') = map_complete (cl_c cl) \<and> reduce_complete (cl_c cl') = (reduce_complete (cl_c cl))[nat r := True]"
proof -
  have len: "int (length (reduce_complete (cl_c cl))) = jb_n j" using ok by (simp add: cl_ok_def coord_inv_def)
  obtain fs' rep where ex: "reduce_exec (jb_openable j) (jb_srt j) (jb_reducef j) (reduce_task (jb_m j) r) (cl_fs cl) = (fs', rep)" by fastforce
  have rep: "ra_Reducetask_id rep = r" using ex by (auto simp: reduce_exec_def reduce_task_def Let_def)
  have exec: "cl_execute j (length xs) cl = Inr (cl\<lparr>cl_fs := fs', cl_tasks := xs @ [TReduceDone rep]\<rparr>)"
    by (simp add: cl_execute_def tasks ex)
  obtain c' e where done': "CheckLastReduceDone (cl_c cl) rep = Inr (c', e)" "map_complete c' = map_complete (cl_c cl)"
    "reduce_complete c' = (reduce_complete (cl_c cl))[nat r := True]"
    using rep r len by (simp add: CheckLastReduceDone_cases)
  from exec done' show ?thesis by (simp add: cl_report_def)
qed

text \<open>A live worker that has registered is found.\<close>

definition live_env :: "(int \<times> string) list \<Rightarrow> dial_env" where
  "live_env ord = \<lparr>dial = \<lambda>a. a = ''w'', redial = \<lambda>_. True, rpc_ok = \<lambda>_. True, order = ord\<rparr>"

definition live_worker :: WorkerArgs where
  "live_worker = \<lparr>wa_Worker_id = 1, wa_Worker_addr = ''w''\<rparr>"

lemma pick_live: "(p, ''w'') \<in> set ord \<Longrightarrow> fst (pick_worker (\<lambda>a. a = ''w'') ord) = ''w''"
  by (induction ord) (auto simp: Let_def split: prod.splits if_splits)

lemma live_found:
  assumes "(1, ''w'') \<in> set ord"
  shows "\<exists>book. callWorker (live_env ord) c = Inr (c\<lparr>worker_book := book\<rparr>, ''w'', True)"
  using pick_live [OF assms] by (auto simp: callWorker_def live_env_def Let_def delete_workers_def split: prod.splits)

lemma book_listed:
  assumes "finite (dom (worker_book c))"
  shows "\<exists>ord. distinct ord \<and> set ord = {(p, a). worker_book (RegisterWorker c live_worker) p = Some a} \<and> (1, ''w'') \<in> set ord"
proof -
  let ?b = "worker_book (RegisterWorker c live_worker)"
  have "finite (dom ?b)" using assms by (simp add: RegisterWorker_def)
  then have "finite {(p, a). ?b p = Some a}"
    by (rule finite_surj [where f = "\<lambda>p. (p, the (?b p))"]) force
  then obtain ord where "set ord = {(p, a). ?b p = Some a}" "distinct ord" using finite_distinct_list by blast
  moreover have "?b 1 = Some ''w''" by (simp add: RegisterWorker_def live_worker_def)
  ultimately show ?thesis by auto
qed

text \<open>Getting hold of a task that is not done: from the coordinator, or through its monitor.\<close>

lemma take_map:
  assumes ok: "cl_ok j W R cl" and cov: "covered cl" and t: "t < jb_m j" "\<not> map_complete (cl_c cl) ! t"
  shows "\<exists>acts cl1 os u. go_run (cl_exec j) cl acts = Inr (cl1, os) \<and> go_allowed (cl_exec j) cl_pre cl acts \<and>
     cl_tasks cl1 = cl_tasks cl @ [TMap (map_task (jb_files j) (jb_n j) u)] \<and> u < jb_m j \<and> \<not> map_complete (cl_c cl) ! u \<and>
     map_complete (cl_c cl1) = map_complete (cl_c cl) \<and> reduce_complete (cl_c cl1) = reduce_complete (cl_c cl)"
proof (cases "int t < counter_map (cl_c cl)")
  case True
  with cov [unfolded covered_def] obtain w where "MapMonitor w (int t) \<in> set (cl_monitors cl)" using of_nat_0_le_iff by blast
  then obtain k where k: "k < length (cl_monitors cl)" "cl_monitors cl ! k = MapMonitor w (int t)" by (auto simp: in_set_conv_nth)
  have inv: "coord_inv (jb_files j) (jb_n j) (cl_c cl)" using ok by (simp add: cl_ok_def)
  let ?c = "RegisterWorker (cl_c cl) live_worker"
  obtain ord where ord: "distinct ord" "set ord = {(p, a). worker_book ?c p = Some a}" "(1, ''w'') \<in> set ord"
    using book_listed [of "cl_c cl"] cov by (auto simp: covered_def)
  obtain book where call: "callWorker (live_env ord) ?c = Inr (?c\<lparr>worker_book := book\<rparr>, ''w'', True)" using live_found [OF ord(3)] by blast
  have "cl_look (live_env ord) k (cl\<lparr>cl_c := ?c\<rparr>) =
      Inr (cl\<lparr>cl_c := ?c\<lparr>worker_book := book\<rparr>, cl_tasks := cl_tasks cl @ [TMap (map_task (jb_files j) (jb_n j) t)]\<rparr>)"
    using k t inv call
    by (simp add: cl_look_def callWorkerRedoMap_def RegisterWorker_def go_nth_def coord_inv_def map_task_def)
  then show ?thesis
    using t ord(1,2) by (intro exI [of _ "[Enter live_worker, Look (live_env ord) k]"]) (simp add: Let_def live_env_def RegisterWorker_def, blast)
next
  case False
  let ?a = "\<lparr>ma_NReduce = 0, ma_Filename = [], ma_Maptask_id = 0, ma_Worker_id = 1\<rparr>"
  have inv: "coord_inv (jb_files j) (jb_n j) (cl_c cl)" and flags: "flags_ok j (cl_c cl) W R" using ok by (simp_all add: cl_ok_def)
  then obtain u where u: "counter_map (cl_c cl) = int u" by (metis coord_inv_def nonneg_int_cases)
  with False t(1) have um: "u < jb_m j" by simp
  have "\<not> map_complete (cl_c cl) ! u" using flags u um by (auto simp: flags_ok_def)
  moreover have "GiveMapTask (cl_c cl) ?a = Inr ((cl_c cl)\<lparr>counter_map := int u + 1\<rparr>, Inr (map_task (jb_files j) (jb_n j) u), [MapMonitor 1 (int u)])"
    using u um inv by (simp add: GiveMapTask_def GiveMapTask_test_def GiveMapTask_locked_def coord_inv_def go_nth_def map_task_def)
  ultimately show ?thesis
    using um by (intro exI [of _ "[AskMap ?a]"]) (simp add: cl_ask_map_def, blast)
qed

lemma take_reduce:
  assumes ok: "cl_ok j W R cl" and cov: "covered cl" and all: "map_done j (cl_c cl)" and r: "0 \<le> r" "r < jb_n j" "\<not> reduce_complete (cl_c cl) ! nat r"
  shows "\<exists>acts cl1 os q. go_run (cl_exec j) cl acts = Inr (cl1, os) \<and> go_allowed (cl_exec j) cl_pre cl acts \<and>
     cl_tasks cl1 = cl_tasks cl @ [TReduce (reduce_task (jb_m j) q)] \<and> 0 \<le> q \<and> q < jb_n j \<and> \<not> reduce_complete (cl_c cl) ! nat q \<and>
     map_complete (cl_c cl1) = map_complete (cl_c cl) \<and> reduce_complete (cl_c cl1) = reduce_complete (cl_c cl)"
proof (cases "r < counter_reduce (cl_c cl)")
  case True
  with cov r obtain w rfiles where "ReduceMonitor w r rfiles \<in> set (cl_monitors cl)" by (auto simp: covered_def)
  then obtain k where k: "k < length (cl_monitors cl)" "cl_monitors cl ! k = ReduceMonitor w r rfiles" by (auto simp: in_set_conv_nth)
  with ok have rfiles: "rfiles = rr_Reducefiles (reduce_task (jb_m j) r)" by (fastforce simp: cl_ok_def monitor_ok_def all_set_conv_all_nth)
  have inv: "coord_inv (jb_files j) (jb_n j) (cl_c cl)" using ok by (simp add: cl_ok_def)
  let ?c = "RegisterWorker (cl_c cl) live_worker"
  obtain ord where ord: "distinct ord" "set ord = {(p, a). worker_book ?c p = Some a}" "(1, ''w'') \<in> set ord"
    using book_listed [of "cl_c cl"] cov by (auto simp: covered_def)
  obtain book where call: "callWorker (live_env ord) ?c = Inr (?c\<lparr>worker_book := book\<rparr>, ''w'', True)" using live_found [OF ord(3)] by blast
  have "cl_look (live_env ord) k (cl\<lparr>cl_c := ?c\<rparr>) =
      Inr (cl\<lparr>cl_c := ?c\<lparr>worker_book := book\<rparr>, cl_tasks := cl_tasks cl @ [TReduce (reduce_task (jb_m j) r)]\<rparr>)"
    using k r inv call
    by (auto simp: cl_look_def callWorkerRedoReduce_def RegisterWorker_def go_nth_def coord_inv_def reduce_task_def rfiles Let_def)
  then show ?thesis
    using r ord(1,2) by (intro exI [of _ "[Enter live_worker, Look (live_env ord) k]"]) (simp add: Let_def live_env_def RegisterWorker_def, blast)
next
  case False
  let ?q = "counter_reduce (cl_c cl)" and ?a = "\<lparr>ra_Reducetask_id = 0, ra_Reducefiles = [], ra_Worker_id = 1\<rparr>"
  have inv: "coord_inv (jb_files j) (jb_n j) (cl_c cl)" and flags: "flags_ok j (cl_c cl) W R" using ok by (simp_all add: cl_ok_def)
  have q: "0 \<le> ?q" "?q < jb_n j" using inv False r(2) by (auto simp: coord_inv_def)
  have open': "\<not> reduce_complete (cl_c cl) ! nat ?q" using flags q by (auto simp: flags_ok_def)
  have "count_true (map_complete (cl_c cl)) = length (map_complete (cl_c cl))"
    unfolding count_true_full using all inv by (simp add: map_done_def coord_inv_def all_set_conv_all_nth)
  then have ready: "\<not> GiveReduceTask_notReady (cl_c cl)" using inv by (simp add: coord_inv_def GiveReduceTask_notReady_def)
  have "GiveReduceTask (cl_c cl) ?a = Inr ((cl_c cl)\<lparr>counter_reduce := ?q + 1\<rparr>, Inr (reduce_task (jb_m j) ?q),
      [ReduceMonitor 1 ?q (rr_Reducefiles (reduce_task (jb_m j) ?q))])"
    using ready q inv all_maps_done(2) [OF inv flags ready]
    by (simp add: GiveReduceTask_def GiveReduceTask_test_def GiveReduceTask_locked_def coord_inv_def go_make_def reduce_task_def Let_def)
  then show ?thesis
    using q open' by (intro exI [of _ "[AskReduce ?a]"]) (simp add: cl_ask_reduce_def reduce_task_def)
qed


interpretation clc: go_machine "cl_exec j" "\<lambda>cl. job_ok j \<and> (\<exists>W R. cl_ok j W R cl) \<and> covered cl" "\<lambda>_ _. True" for j
  by unfold_locales (use cl_exec_ok cl_exec_covered in blast)

definition open_tasks :: "coordinator \<Rightarrow> nat" where
  "open_tasks c = (length (map_complete c) - count_true (map_complete c)) + (length (reduce_complete c) - count_true (reduce_complete c))"

lemma open_tasks_map:
  "t < length (map_complete c) \<Longrightarrow> \<not> map_complete c ! t \<Longrightarrow> map_complete c' = (map_complete c)[t := True] \<Longrightarrow>
     reduce_complete c' = reduce_complete c \<Longrightarrow> open_tasks c' < open_tasks c"
  using count_true_set [of t "map_complete c"] count_true_le [of "(map_complete c)[t := True]"] by (simp add: open_tasks_def)

lemma open_tasks_reduce:
  "t < length (reduce_complete c) \<Longrightarrow> \<not> reduce_complete c ! t \<Longrightarrow> reduce_complete c' = (reduce_complete c)[t := True] \<Longrightarrow>
     map_complete c' = map_complete c \<Longrightarrow> open_tasks c' < open_tasks c"
  using count_true_set [of t "reduce_complete c"] count_true_le [of "(reduce_complete c)[t := True]"] by (simp add: open_tasks_def)

lemma go_allowed_last_two:
  "go_run (cl_exec j) cl acts = Inr (cl1, os) \<Longrightarrow> go_allowed (cl_exec j) cl_pre cl acts \<Longrightarrow>
     go_allowed (cl_exec j) cl_pre cl (acts @ [Execute k, Report k])"
  by (simp add: go_allowed_append split: sum.splits)

lemma one_more_done:
  assumes job: "job_ok j" and ok: "cl_ok j W R cl" and cov: "covered cl" and not_yet: "\<not> Done (cl_c cl)"
  shows "\<exists>acts cl' os. go_run (cl_exec j) cl acts = Inr (cl', os) \<and> go_allowed (cl_exec j) cl_pre cl acts \<and>
     open_tasks (cl_c cl') < open_tasks (cl_c cl)"
proof -
  have inv: "coord_inv (jb_files j) (jb_n j) (cl_c cl)" using ok by (simp add: cl_ok_def)
  have len: "length (map_complete (cl_c cl)) = jb_m j" "int (length (reduce_complete (cl_c cl))) = jb_n j" using inv by (simp_all add: coord_inv_def)
  show ?thesis
  proof (cases "map_done j (cl_c cl)")
    case False
    then obtain t where t: "t < jb_m j" "\<not> map_complete (cl_c cl) ! t" by (auto simp: map_done_def)
    from take_map [OF ok cov t] obtain acts cl1 os u where run: "go_run (cl_exec j) cl acts = Inr (cl1, os)"
      and al: "go_allowed (cl_exec j) cl_pre cl acts" and tasks: "cl_tasks cl1 = cl_tasks cl @ [TMap (map_task (jb_files j) (jb_n j) u)]"
      and u: "u < jb_m j" "\<not> map_complete (cl_c cl) ! u" and same: "map_complete (cl_c cl1) = map_complete (cl_c cl)"
        "reduce_complete (cl_c cl1) = reduce_complete (cl_c cl)" by blast
    from clm.run_invar [OF _ _ run] job ok obtain W' R' where ok1: "cl_ok j W' R' cl1" by auto
    from finish_map [OF job ok1 u(1) _ tasks] u(2) same obtain cl' os' where
      run': "go_run (cl_exec j) cl1 [Execute (length (cl_tasks cl)), Report (length (cl_tasks cl))] = Inr (cl', os')"
      and flags': "map_complete (cl_c cl') = (map_complete (cl_c cl))[u := True]" "reduce_complete (cl_c cl') = reduce_complete (cl_c cl)" by auto
    have "go_run (cl_exec j) cl (acts @ [Execute (length (cl_tasks cl)), Report (length (cl_tasks cl))]) = Inr (cl', os @ os')"
      using run run' by (simp add: go_run_append del: cl_exec.simps go_run.simps)
    with go_allowed_last_two [OF run al] open_tasks_map [OF _ u(2) flags'] u(1) len show ?thesis by metis
  next
    case True
    have "\<exists>r < length (reduce_complete (cl_c cl)). \<not> reduce_complete (cl_c cl) ! r"
      using not_yet coord_inv_Done [OF inv] True len by (auto simp: map_done_def all_set_conv_all_nth)
    then obtain r where "r < length (reduce_complete (cl_c cl))" "\<not> reduce_complete (cl_c cl) ! r" by blast
    then have r: "0 \<le> int r" "int r < jb_n j" "\<not> reduce_complete (cl_c cl) ! nat (int r)" using len by auto
    from take_reduce [OF ok cov True r] obtain acts cl1 os q where run: "go_run (cl_exec j) cl acts = Inr (cl1, os)"
      and al: "go_allowed (cl_exec j) cl_pre cl acts" and tasks: "cl_tasks cl1 = cl_tasks cl @ [TReduce (reduce_task (jb_m j) q)]"
      and q: "0 \<le> q" "q < jb_n j" "\<not> reduce_complete (cl_c cl) ! nat q" and same: "map_complete (cl_c cl1) = map_complete (cl_c cl)"
        "reduce_complete (cl_c cl1) = reduce_complete (cl_c cl)" by blast
    from clm.run_invar [OF _ _ run] job ok obtain W' R' where ok1: "cl_ok j W' R' cl1" by auto
    from finish_reduce [OF ok1 q(1,2) _ tasks] q(3) same obtain cl' os' where
      run': "go_run (cl_exec j) cl1 [Execute (length (cl_tasks cl)), Report (length (cl_tasks cl))] = Inr (cl', os')"
      and flags': "reduce_complete (cl_c cl') = (reduce_complete (cl_c cl))[nat q := True]" "map_complete (cl_c cl') = map_complete (cl_c cl)" by auto
    have "go_run (cl_exec j) cl (acts @ [Execute (length (cl_tasks cl)), Report (length (cl_tasks cl))]) = Inr (cl', os @ os')"
      using run run' by (simp add: go_run_append del: cl_exec.simps go_run.simps)
    moreover have "nat q < length (reduce_complete (cl_c cl))" using q len by auto
    ultimately show ?thesis using go_allowed_last_two [OF run al] open_tasks_reduce [OF _ q(3) flags'] by metis
  qed
qed

lemma can_finish:
  assumes job: "job_ok j"
  shows "cl_ok j W R cl \<Longrightarrow> covered cl \<Longrightarrow> \<exists>acts cl' os. go_run (cl_exec j) cl acts = Inr (cl', os) \<and>
     go_allowed (cl_exec j) cl_pre cl acts \<and> Done (cl_c cl')"
proof (induction "open_tasks (cl_c cl)" arbitrary: W R cl rule: less_induct)
  case less
  show ?case
  proof (cases "Done (cl_c cl)")
    case True
    then show ?thesis by (intro exI [of _ "[]"]) simp
  next
    case False
    from one_more_done [OF job less.prems this] obtain acts cl1 os where run: "go_run (cl_exec j) cl acts = Inr (cl1, os)"
      and al: "go_allowed (cl_exec j) cl_pre cl acts" and fewer: "open_tasks (cl_c cl1) < open_tasks (cl_c cl)" by blast
    from clc.run_invar [OF _ _ run] job less.prems obtain W' R' where "cl_ok j W' R' cl1" "covered cl1" by auto
    from less.hyps [OF fewer this] obtain acts' cl' os' where "go_run (cl_exec j) cl1 acts' = Inr (cl', os')"
      "go_allowed (cl_exec j) cl_pre cl1 acts'" "Done (cl_c cl')" by blast
    with run al show ?thesis by (intro exI [of _ "acts @ acts'"]) (simp add: go_run_append go_allowed_append)
  qed
qed

text \<open>The one step that can fail: a monitor finds no live worker, or loses the one it has found.\<close>

lemma cl_execute_returns:
  assumes job: "job_ok j" and ok: "cl_ok j W R cl"
  shows "\<exists>cl'. cl_execute j k cl = Inr cl'"
proof (cases "\<exists>m. k < length (cl_tasks cl) \<and> cl_tasks cl ! k = TMap m")
  case True
  then obtain m where k: "k < length (cl_tasks cl)" and m: "cl_tasks cl ! k = TMap m" by blast
  have "task_ok j (cl_c cl) W R (TMap m)" using ok k m nth_mem [OF k] by (simp add: cl_ok_def)
  then obtain t where t: "t < jb_m j" "m = map_task (jb_files j) (jb_n j) t" by (auto simp: task_ok_def)
  have "W \<subseteq> {..<jb_m j}" "fs_ok j W R (cl_fs cl)" using ok by (simp_all add: cl_ok_def)
  from fs_ok_map [OF job this(2) t(1) this(1)] k m t(2) show ?thesis by (auto simp: cl_execute_def)
qed (auto simp: cl_execute_def split: task.splits prod.splits)

lemma cl_report_returns:
  assumes ok: "cl_ok j W R cl"
  shows "\<exists>cl'. cl_report k cl = Inr cl'"
proof (cases "k < length (cl_tasks cl)")
  case True
  have W: "W \<subseteq> {..<jb_m j}" and inv: "coord_inv (jb_files j) (jb_n j) (cl_c cl)"
    and task: "task_ok j (cl_c cl) W R (cl_tasks cl ! k)" using ok nth_mem [OF True] by (simp_all add: cl_ok_def)
  show ?thesis
  proof (cases "cl_tasks cl ! k")
    case (TMapDone a)
    with task W inv have "\<exists>c r. CheckLastMapDone (cl_c cl) a = Inr (c, r)"
      by (auto simp: task_ok_def CheckLastMapDone_cases coord_inv_def)
    with True TMapDone show ?thesis by (auto simp: cl_report_def)
  next
    case (TReduceDone a)
    with task inv have "\<exists>c r. CheckLastReduceDone (cl_c cl) a = Inr (c, r)"
      by (auto simp: task_ok_def CheckLastReduceDone_cases coord_inv_def)
    with True TReduceDone show ?thesis by (auto simp: cl_report_def)
  qed (simp_all add: cl_report_def True)
qed (simp add: cl_report_def)

lemma cl_look_fails:
  assumes ok: "cl_ok j W R cl" and "cl_look env k cl = Inl e"
  shows "callWorker env (cl_c cl) = Inl e"
proof -
  from assms(2) have k: "k < length (cl_monitors cl)" by (simp add: cl_look_def split: if_splits)
  with ok have mon: "monitor_ok j (cl_c cl) (cl_monitors cl ! k)" and inv: "coord_inv (jb_files j) (jb_n j) (cl_c cl)" by (simp_all add: cl_ok_def)
  show ?thesis
  proof (cases "cl_monitors cl ! k")
    case (MapMonitor w t)
    with mon inv have "0 \<le> t" "t < int (length (map_complete (cl_c cl)))" "t < int (length (filenames (cl_c cl)))"
      by (auto simp: monitor_ok_def coord_inv_def)
    with assms(2) k MapMonitor show ?thesis
      by (cases "callWorker env (cl_c cl)") (auto simp: cl_look_def go_nth_def callWorkerRedoMap_def Let_def split: if_splits)
  next
    case (ReduceMonitor w r rfiles)
    with mon inv have "0 \<le> r" "r < int (length (reduce_complete (cl_c cl)))" by (auto simp: monitor_ok_def coord_inv_def)
    with assms(2) k ReduceMonitor show ?thesis
      by (cases "callWorker env (cl_c cl)") (auto simp: cl_look_def go_nth_def callWorkerRedoReduce_def Let_def split: if_splits)
  qed
qed

lemma cl_exec_fails:
  assumes job: "job_ok j" and ok: "cl_ok j W R cl" and e: "cl_exec j cl act = Inl e"
  shows "\<exists>env k. act = Look env k \<and> callWorker env (cl_c cl) = Inl e"
proof (cases act)
  case (AskMap a)
  have "coord_inv (jb_files j) (jb_n j) (cl_c cl)" using ok by (simp add: cl_ok_def)
  then have "\<exists>c r ms. GiveMapTask (cl_c cl) a = Inr (c, r, ms)"
    by (auto simp: GiveMapTask_def GiveMapTask_test_def GiveMapTask_locked_def coord_inv_def go_nth_def)
  with AskMap e show ?thesis by (auto simp: cl_ask_map_def)
next
  case (AskReduce a)
  have "coord_inv (jb_files j) (jb_n j) (cl_c cl)" using ok by (simp add: cl_ok_def)
  then have "\<exists>c r ms. GiveReduceTask (cl_c cl) a = Inr (c, r, ms)"
    by (auto simp: GiveReduceTask_def GiveReduceTask_locked_def coord_inv_def go_make_def Let_def)
  with AskReduce e show ?thesis by (auto simp: cl_ask_reduce_def)
next
  case (Execute k)
  with e cl_execute_returns [OF job ok, of k] show ?thesis by auto
next
  case (Report k)
  with e cl_report_returns [OF ok, of k] show ?thesis by auto
next
  case (Look env k)
  with e have "cl_look env k cl = Inl e" by (cases "cl_look env k cl") simp_all
  from cl_look_fails [OF ok this] Look show ?thesis by simp
qed (use e in \<open>simp_all add: Let_def\<close>)

lemma cl_start_covered: "cl_start j = Inr cl \<Longrightarrow> covered cl"
  by (auto simp: cl_start_def MakeCoordinator_def covered_def go_bind_Inr)


section \<open>A job\<close>

definition example_job :: job where
  "example_job = \<lparr>jb_files = [''in''], jb_n = 1, jb_fs = [''in'' \<mapsto> ''w''], jb_openable = \<lambda>_. True,
     jb_mapf = \<lambda>f s. [\<lparr>Key = s, Value = ''1''\<rparr>], jb_reducef = \<lambda>k vs. concat vs, jb_srt = sort_key Key\<rparr>"

lemma example_job_ok: "job_ok example_job"
  by (simp add: job_ok_def example_job_def job_inputs_def intermediate_name_def output_name_def job_pairs_def task_pairs_def
      file_text_def ascii_kv_def ascii_string_def sorts_by_key_def)

definition example_ask :: MapArgs where
  "example_ask = \<lparr>ma_NReduce = 0, ma_Filename = [], ma_Maptask_id = 0, ma_Worker_id = 1\<rparr>"

lemma example_job_started:
  obtains cl0 cl outs where "cl_start example_job = Inr cl0" "go_run (cl_exec example_job) cl0 [AskMap example_ask, Die 0] = Inr (cl, outs)"
  by (simp add: cl_start_def MakeCoordinator_def go_make_def example_job_def cl_ask_map_def GiveMapTask_def GiveMapTask_test_def
      GiveMapTask_locked_def go_nth_def)



end
