(* ===== verification/MR_Process.thy ===== *)
theory MR_Process
  imports MR_Worker
begin

text \<open>
  The processes of MapReduce: how the coordinator (\<^verbatim>\<open>src/mr/coordinator.go\<close>) and a worker (\<^verbatim>\<open>src/mr/worker.go\<close>) come up
  on their sockets, \<^verbatim>\<open>call\<close>, by which a worker reaches the coordinator, and \<^verbatim>\<open>Worker\<close> as a whole with its
  three loops. What \<^verbatim>\<open>net.Listen\<close>, \<^verbatim>\<open>rpc.DialHTTP\<close> and the coordinator do is the environment, a value of the record \<open>link\<close>;
  the calls are told apart by their place in the program and the round of the loop they are made in.

  Shown here: a worker never returns. It ends when the coordinator has gone, from \<^verbatim>\<open>log.Fatal\<close> in \<^verbatim>\<open>call\<close>, and
  the loop at its end, which is written for that case, is never entered.
\<close>

section \<open>Sockets and calls\<close>

definition Coordinator_server :: "bool \<Rightarrow> unit go" where
  "Coordinator_server listening = (if listening then Inr () else Inl (LogFatal ''listen error:''))"

definition startServer :: "bool \<Rightarrow> unit go" where
  "startServer listening = (if listening then Inr () else Inl (LogFatal ''Worker listen error:''))"

text \<open>\<open>answer\<close> is the reply that the RPC fills in, None when it returns an error.\<close>

definition call :: "bool \<Rightarrow> 'r option \<Rightarrow> 'r option go" where
  "call dialled answer = (if dialled then Inr answer else Inl (LogFatal ''dialing:''))"

datatype call_site =
    CallRegister
  | CallMap nat
  | CallMapDone nat
  | CallReduce nat
  | CallReduceDone nat
  | CallExit nat

record link =
  lk_listen :: bool
  lk_dial :: "call_site \<Rightarrow> bool"
  lk_register :: "WorkerArgs \<Rightarrow> unit option"
  lk_map :: "nat \<Rightarrow> MapReply option"
  lk_map_done :: "nat \<Rightarrow> MapArgs \<Rightarrow> MapReply option"
  lk_reduce :: "nat \<Rightarrow> ReduceReply option"
  lk_reduce_done :: "nat \<Rightarrow> ReduceArgs \<Rightarrow> ReduceReply option"
  lk_exit :: "nat \<Rightarrow> unit option"

definition worker_link :: "link \<Rightarrow> worker_env" where
  "worker_link l =
     \<lparr>ask_map = \<lambda>k. call (lk_dial l (CallMap k)) (lk_map l k),
      ask_reduce = \<lambda>k. call (lk_dial l (CallReduce k)) (lk_reduce l k),
      tell_map = \<lambda>k args. go_bind (call (lk_dial l (CallMapDone k)) (lk_map_done l k args)) (\<lambda>_. Inr ()),
      tell_reduce = \<lambda>k args. go_bind (call (lk_dial l (CallReduceDone k)) (lk_reduce_done l k args)) (\<lambda>_. Inr ())\<rparr>"

section \<open>A worker\<close>

fun worker_exit_loop :: "nat \<Rightarrow> link \<Rightarrow> nat \<Rightarrow> unit go option" where
  "worker_exit_loop 0 l k = None"
| "worker_exit_loop (Suc fuel) l k =
     (case call (lk_dial l (CallExit k)) (lk_exit l k) of
        Inl e \<Rightarrow> Some (Inl e)
      | Inr None \<Rightarrow> Some (Inr ())
      | Inr (Some _) \<Rightarrow> worker_exit_loop fuel l (Suc k))"

text \<open>The next part of the program, when the part before it has returned.\<close>

fun and_then :: "'a go option \<Rightarrow> ('a \<Rightarrow> 'b go option) \<Rightarrow> 'b go option" where
  "and_then None f = None"
| "and_then (Some (Inl e)) f = Some (Inl e)"
| "and_then (Some (Inr x)) f = f x"

definition Worker ::
    "nat \<Rightarrow> link \<Rightarrow> int \<Rightarrow> (string \<Rightarrow> bool) \<Rightarrow> (KeyValue list \<Rightarrow> KeyValue list) \<Rightarrow>
     (string \<Rightarrow> string \<Rightarrow> KeyValue list) \<Rightarrow> (string \<Rightarrow> string list \<Rightarrow> string) \<Rightarrow> fs \<Rightarrow> fs go option" where
  "Worker fuel l pid openable srt mapf reducef fs =
     and_then (Some (startServer (lk_listen l))) (\<lambda>_.
     let register_info = \<lparr>wa_Worker_id = pid, wa_Worker_addr = workerSocket pid\<rparr>
     in and_then (Some (call (lk_dial l CallRegister) (lk_register l register_info))) (\<lambda>_.
        and_then (worker_map_loop fuel (worker_link l) openable mapf 0 fs) (\<lambda>fs1.
        and_then (worker_reduce_loop fuel (worker_link l) openable srt reducef 0 fs1) (\<lambda>fs2.
        and_then (worker_exit_loop fuel l 0) (\<lambda>_. Some (Inr fs2))))))"

section \<open>The end of a worker\<close>

abbreviation "gone \<equiv> LogFatal ''dialing:''"

lemma worker_link_sel [simp]:
  "ask_map (worker_link l) k = call (lk_dial l (CallMap k)) (lk_map l k)"
  "ask_reduce (worker_link l) k = call (lk_dial l (CallReduce k)) (lk_reduce l k)"
  "tell_map (worker_link l) k a = (if lk_dial l (CallMapDone k) then Inr () else Inl gone)"
  "tell_reduce (worker_link l) k b = (if lk_dial l (CallReduceDone k) then Inr () else Inl gone)"
  by (simp_all add: worker_link_def call_def)

lemma bucket_loop_keeps:
  assumes "0 < n"
  shows "\<exists>fs'. bucket_loop openable t n kva opened fs = Inr fs' \<and> dom fs \<subseteq> dom fs'"
proof (induction kva arbitrary: opened fs)
  case (Cons kv kva)
  let ?name = "intermediate_name t (bucket_of n kv)"
  show ?case
  proof (cases "bucket_of n kv \<notin> opened \<and> \<not> openable ?name")
    case True
    then show ?thesis using Cons.IH [of opened fs] by (simp add: bucket_rem [OF assms] Let_def)
  next
    case False
    let ?fs1 = "if bucket_of n kv \<notin> opened then fs(?name \<mapsto> []) else fs"
    let ?fs2 = "?fs1(?name \<mapsto> (case ?fs1 ?name of None \<Rightarrow> [] | Some s \<Rightarrow> s) @ json_encode kv)"
    have run: "bucket_loop openable t n (kv # kva) opened fs = bucket_loop openable t n kva (insert (bucket_of n kv) opened) ?fs2"
      using False by (simp only: bucket_loop.simps bucket_rem [OF assms] go_bind_simps Let_def if_False)
    obtain fs' where "bucket_loop openable t n kva (insert (bucket_of n kv) opened) ?fs2 = Inr fs'" "dom ?fs2 \<subseteq> dom fs'"
      using Cons.IH by blast
    moreover have "dom fs \<subseteq> dom ?fs2" by auto
    ultimately show ?thesis unfolding run by blast
  qed
qed simp

lemma map_exec_keeps:
  assumes "0 < mr_NReduce mr" and "mr_Filename mr \<in> dom fs"
  shows "\<exists>fs' rep. map_exec openable mapf mr fs = Inr (fs', rep) \<and> dom fs \<subseteq> dom fs'"
proof -
  from assms(2) obtain s where "fs (mr_Filename mr) = Some s" by blast
  moreover obtain fs' where "bucket_loop openable (mr_Maptask_id mr) (mr_NReduce mr) (mapf (mr_Filename mr) s) {} fs = Inr fs'" "dom fs \<subseteq> dom fs'"
    using bucket_loop_keeps [OF assms(1)] by blast
  ultimately show ?thesis by (simp add: map_exec_def perform_map_def bucket_by_intermediate_key_def)
qed

lemma map_loop_ends:
  assumes left: "\<forall>k \<ge> K. \<not> lk_dial l (CallMap k)" and tasks: "\<forall>k mr. lk_map l k = Some mr \<longrightarrow> 0 < mr_NReduce mr \<and> mr_Filename mr \<in> inputs"
  shows "K - k < fuel \<Longrightarrow> inputs \<subseteq> dom fs \<Longrightarrow>
     \<exists>r. worker_map_loop fuel (worker_link l) openable mapf k fs = Some r \<and> (\<forall>e. r = Inl e \<longrightarrow> e = gone)"
proof (induction fuel arbitrary: k fs)
  case (Suc fuel)
  show ?case
  proof (cases "lk_dial l (CallMap k)")
    case True
    then have "k < K" using left not_le by blast
    show ?thesis
    proof (cases "lk_map l k")
      case (Some mr)
      with tasks Suc.prems(2) have "0 < mr_NReduce mr" "mr_Filename mr \<in> dom fs" by blast+
      from map_exec_keeps [OF this] obtain fs' rep where ex: "map_exec openable mapf mr fs = Inr (fs', rep)" "dom fs \<subseteq> dom fs'" by blast
      have "\<exists>r. worker_map_loop fuel (worker_link l) openable mapf (Suc k) fs' = Some r \<and> (\<forall>e. r = Inl e \<longrightarrow> e = gone)"
        by (rule Suc.IH) (use Suc.prems ex(2) \<open>k < K\<close> in auto)
      with True Some ex(1) show ?thesis by (cases "lk_dial l (CallMapDone k)") (simp_all add: call_def)
    qed (simp add: call_def)
  qed (simp add: call_def)
qed simp

lemma reduce_loop_ends:
  assumes left: "\<forall>k \<ge> K. \<not> lk_dial l (CallReduce k)"
  shows "K - k < fuel \<Longrightarrow> worker_reduce_loop fuel (worker_link l) openable srt reducef k fs = Some (Inl gone)"
proof (induction fuel arbitrary: k fs)
  case (Suc fuel)
  show ?case
  proof (cases "lk_dial l (CallReduce k)")
    case True
    then have "k < K" using left not_le by blast
    with Suc have "worker_reduce_loop fuel (worker_link l) openable srt reducef (Suc k) fs' = Some (Inl gone)" for fs' by simp
    with True show ?thesis
      by (simp add: call_def Let_def split: option.splits prod.splits)
  qed (simp add: call_def)
qed simp

lemma and_then_Inr: "and_then m f = Some (Inr y) \<longleftrightarrow> (\<exists>x. m = Some (Inr x) \<and> f x = Some (Inr y))"
  by (cases "(m, f)" rule: and_then.cases) auto

text \<open>
  C39: The end of a worker. \<^verbatim>\<open>Worker\<close> never returns, whatever the coordinator answers and however long it runs: its reduce loop has no way
  out, and the loop below it, which waits for the coordinator to finish, is dead code. The process does end, though: if it can listen on its socket, gets tasks
  with a positive number of buckets and input files that exist, and the coordinator is gone at some round of the map loop and of the
  reduce loop, then it ends from \<^verbatim>\<open>log.Fatal\<close> in \<^verbatim>\<open>call\<close>, and fuel beyond both rounds is enough.
\<close>

theorem worker_ends_when_coordinator_gone:
  assumes "lk_listen l" and "\<forall>k \<ge> K. \<not> lk_dial l (CallMap k)" and "\<forall>k \<ge> K. \<not> lk_dial l (CallReduce k)"
    and "\<forall>k mr. lk_map l k = Some mr \<longrightarrow> 0 < mr_NReduce mr \<and> mr_Filename mr \<in> dom fs"
  shows "(K < fuel \<longrightarrow> Worker fuel l pid openable srt mapf reducef fs = Some (Inl (LogFatal ''dialing:''))) \<and>
     (\<forall>fuel' l' fs'. Worker fuel' l' pid openable srt mapf reducef fs \<noteq> Some (Inr fs'))"
proof (intro conjI impI allI)
  assume fuel: "K < fuel"
  then obtain r where map: "worker_map_loop fuel (worker_link l) openable mapf 0 fs = Some r" and r: "\<forall>e. r = Inl e \<longrightarrow> e = gone"
    using map_loop_ends [OF assms(2,4), of 0 fuel fs openable mapf] by auto
  have reduce: "worker_reduce_loop fuel (worker_link l) openable srt reducef 0 fs1 = Some (Inl gone)" for fs1
    by (rule reduce_loop_ends [OF assms(3)]) (use fuel in simp)
  show "Worker fuel l pid openable srt mapf reducef fs = Some (Inl gone)"
    using assms(1) r by (cases r; cases "lk_dial l CallRegister") (simp_all add: Worker_def startServer_def call_def Let_def map reduce)
next
  show "Worker fuel' l' pid openable srt mapf reducef fs \<noteq> Some (Inr fs')" for fuel' l' fs'
    by (simp add: Worker_def Let_def and_then_Inr worker_reduce_loop_never_returns)
qed

text \<open>A coordinator that hands out one map task and one reduce task, and is gone from the third round of each loop on.\<close>

definition example_link :: link where
  "example_link =
     \<lparr>lk_listen = True,
      lk_dial = (\<lambda>s. case s of CallMap k \<Rightarrow> k < 2 | CallReduce k \<Rightarrow> k < 2 | _ \<Rightarrow> True),
      lk_register = \<lambda>_. Some (),
      lk_map = (\<lambda>k. if k = 0 then Some \<lparr>mr_NReduce = 1, mr_Filename = ''in'', mr_Maptask_id = 0\<rparr> else None),
      lk_map_done = \<lambda>_ _. None,
      lk_reduce = (\<lambda>k. if k = 0 then Some \<lparr>rr_Reducetask_id = 0, rr_Reducefiles = [''mr-0-0'']\<rparr> else None),
      lk_reduce_done = \<lambda>_ _. None,
      lk_exit = \<lambda>_. None\<rparr>"

lemma worker_ends_when_coordinator_gone_witness:
  "Worker 3 example_link 7 (\<lambda>_. True) id (\<lambda>f s. [\<lparr>Key = s, Value = f\<rparr>]) (\<lambda>k vs. concat vs) [''in'' \<mapsto> ''w''] =
     Some (Inl (LogFatal ''dialing:''))"
proof -
  have tasks: "\<forall>k mr. lk_map example_link k = Some mr \<longrightarrow> 0 < mr_NReduce mr \<and> mr_Filename mr \<in> dom [''in'' \<mapsto> ''w'']"
    by (simp add: example_link_def)
  show ?thesis
    by (rule worker_ends_when_coordinator_gone [THEN conjunct1, THEN mp, OF _ _ _ tasks, of 2])
      (simp_all add: example_link_def)
qed

end
