(* ===== verification/Labgob.thy ===== *)
theory Labgob
  imports GoPrelude
begin

text \<open>
  The checks that \<^verbatim>\<open>src/labgob/labgob.go\<close> wraps around \<^verbatim>\<open>encoding/gob\<close>. Types are nodes
  of a finite graph, as \<^verbatim>\<open>reflect.Type\<close> values are: a type is its number in the table \<open>tys\<close>,
  so that recursive types exist and type identity is equality of numbers. \<open>isUpper\<close> stands for
  \<^verbatim>\<open>unicode.IsUpper\<close> of the first rune of a field name. The package's global state is the
  set of checked types, the error count and the lines printed.

  Shown here: the recursion over a type ends, recursive types included; it visits exactly the
  types reachable from its argument; over any sequence of calls each lower-case field is counted
  once; and which values the default check complains about.
\<close>

section \<open>State and types\<close>

datatype gotype =
    GStruct string "(string \<times> nat) list"
  | GSlice nat
  | GArray nat nat
  | GPtr nat
  | GMap nat nat
  | GOther

record gobst =
  checked :: "nat set"
  errorCount :: int
  printed :: "string list"

definition ty_of :: "gotype list \<Rightarrow> nat \<Rightarrow> gotype" where
  "ty_of tys t = (if t < length tys then tys ! t else GOther)"

section \<open>checkType\<close>

definition lower_case_error :: "string \<Rightarrow> string \<Rightarrow> gobst \<Rightarrow> gobst" where
  "lower_case_error f tname st =
     st\<lparr>errorCount := errorCount st + 1,
        printed := printed st @
          [''labgob error: lower-case field '' @ f @ '' of '' @ tname @
           '' in RPC or persist/snapshot will break your Raft'']\<rparr>"

text \<open>
  The recursion is on fuel, None when it runs out; the types not yet checked bound the depth
  (\<open>checkType_visits\<close>).
\<close>

fun checkType :: "nat \<Rightarrow> (string \<Rightarrow> bool) \<Rightarrow> gotype list \<Rightarrow> nat \<Rightarrow> gobst \<Rightarrow> gobst option"
and checkFields :: "nat \<Rightarrow> (string \<Rightarrow> bool) \<Rightarrow> gotype list \<Rightarrow> string \<Rightarrow> (string \<times> nat) list \<Rightarrow> gobst \<Rightarrow> gobst option" where
  "checkType 0 isUpper tys t st = None"
| "checkType (Suc fuel) isUpper tys t st =
     (if t \<in> checked st then Some st
      else let st1 = st\<lparr>checked := insert t (checked st)\<rparr>
           in (case ty_of tys t of
                 GStruct tname fs \<Rightarrow> checkFields fuel isUpper tys tname fs st1
               | GSlice e \<Rightarrow> checkType fuel isUpper tys e st1
               | GArray _ e \<Rightarrow> checkType fuel isUpper tys e st1
               | GPtr e \<Rightarrow> checkType fuel isUpper tys e st1
               | GMap k e \<Rightarrow>
                   Option.bind (checkType fuel isUpper tys e st1) (checkType fuel isUpper tys k)
               | GOther \<Rightarrow> Some st1))"
| "checkFields fuel isUpper tys tname [] st = Some st"
| "checkFields fuel isUpper tys tname ((f, ft) # fs) st =
     Option.bind (checkType fuel isUpper tys ft (if isUpper f then st else lower_case_error f tname st))
       (checkFields fuel isUpper tys tname fs)"

text \<open>The value is known by its type, None for a nil interface, whose type has no kind to ask for.\<close>

definition checkValue :: "(string \<Rightarrow> bool) \<Rightarrow> gotype list \<Rightarrow> nat option \<Rightarrow> gobst \<Rightarrow> gobst go option" where
  "checkValue isUpper tys value st =
     (case value of
        None \<Rightarrow> Some (Inl NilDereference)
      | Some t \<Rightarrow> map_option Inr (checkType (Suc (length tys)) isUpper tys t st))"

section \<open>checkDefault\<close>

datatype scalar = SBool bool | SInt int | SUint nat | SFloatIsZero bool | SString string

text \<open>
  A struct field has its name and whether it is embedded. A value read through a field whose name
  is not exported is read-only for reflection: for good (\<^verbatim>\<open>flagStickyRO\<close>) or, for an embedded
  field, up to the next field selection (\<^verbatim>\<open>flagEmbedRO\<close>).
\<close>

datatype goval =
    VStruct "(string \<times> bool \<times> goval) list"
  | VPtr "goval option"
  | VScalar string scalar
  | VOther

datatype ro_flag = RO_none | RO_embed | RO_sticky

definition field_flag :: "(string \<Rightarrow> bool) \<Rightarrow> ro_flag \<Rightarrow> string \<Rightarrow> bool \<Rightarrow> ro_flag" where
  "field_flag isUpper ro f embedded =
     (if ro = RO_sticky then RO_sticky
      else if isUpper f then RO_none
      else if embedded then RO_embed else RO_sticky)"

fun scalar_zero :: "scalar \<Rightarrow> bool" where
  "scalar_zero (SBool b) = (\<not> b)"
| "scalar_zero (SInt i) = (i = 0)"
| "scalar_zero (SUint n) = (n = 0)"
| "scalar_zero (SFloatIsZero z) = z"
| "scalar_zero (SString s) = (s = [])"

definition non_default_error :: "string \<Rightarrow> gobst \<Rightarrow> gobst" where
  "non_default_error what st =
     (let st1 = (if errorCount st < 1
                 then st\<lparr>printed := printed st @
                        [''labgob warning: Decoding into a non-default variable/field '' @ what @
                         '' may not work'']\<rparr>
                 else st)
      in st1\<lparr>errorCount := errorCount st1 + 1\<rparr>)"

definition unexported_panic :: go_error where
  "unexported_panic = Panic ''reflect.Value.Interface: cannot return value obtained from unexported field or method''"

text \<open>\<^verbatim>\<open>value.Interface()\<close> panics on a read-only value.\<close>

definition check_scalar :: "ro_flag \<Rightarrow> string \<Rightarrow> scalar \<Rightarrow> string \<Rightarrow> gobst \<Rightarrow> gobst go" where
  "check_scalar ro tname s name st =
     (if ro \<noteq> RO_none then Inl unexported_panic
      else if scalar_zero s then Inr st
      else Inr (non_default_error (if name = [] then tname else name) st))"

fun checkDefault1 :: "(string \<Rightarrow> bool) \<Rightarrow> ro_flag \<Rightarrow> goval \<Rightarrow> nat \<Rightarrow> string \<Rightarrow> gobst \<Rightarrow> gobst go"
and checkDefaultFields :: "(string \<Rightarrow> bool) \<Rightarrow> ro_flag \<Rightarrow> (string \<times> bool \<times> goval) list \<Rightarrow> nat \<Rightarrow> string \<Rightarrow> gobst \<Rightarrow> gobst go" where
  "checkDefault1 isUpper ro (VStruct fs) depth name st =
     (if depth > 3 then Inr st else checkDefaultFields isUpper ro fs depth name st)"
| "checkDefault1 isUpper ro (VPtr None) depth name st = Inr st"
| "checkDefault1 isUpper ro (VPtr (Some v)) depth name st =
     (if depth > 3 then Inr st else checkDefault1 isUpper ro v (depth + 1) name st)"
| "checkDefault1 isUpper ro (VScalar tname s) depth name st =
     (if depth > 3 then Inr st else check_scalar ro tname s name st)"
| "checkDefault1 isUpper ro VOther depth name st = Inr st"
| "checkDefaultFields isUpper ro [] depth name st = Inr st"
| "checkDefaultFields isUpper ro ((f, emb, v) # fs) depth name st =
     go_bind
       (checkDefault1 isUpper (field_flag isUpper ro f emb) v (depth + 1)
          (if name = [] then f else name @ ''.'' @ f) st)
       (checkDefaultFields isUpper ro fs depth name)"

definition checkDefault :: "(string \<Rightarrow> bool) \<Rightarrow> goval option \<Rightarrow> gobst \<Rightarrow> gobst go" where
  "checkDefault isUpper value st =
     (case value of None \<Rightarrow> Inr st | Some v \<Rightarrow> checkDefault1 isUpper RO_none v 1 [] st)"

section \<open>Wrappers\<close>

text \<open>
  \<open>gob_encode\<close>, \<open>gob_decode\<close> and \<open>gob_register\<close> stand for the gob package. An argument carries its
  type and, for \<open>Decode\<close>, the value of the variable that is decoded into; None is nil.
\<close>

definition Encode ::
    "('v \<Rightarrow> 'b option) \<Rightarrow> (string \<Rightarrow> bool) \<Rightarrow> gotype list \<Rightarrow> (nat \<times> 'v) option \<Rightarrow> gobst \<Rightarrow>
     (gobst \<times> 'b option) go option" where
  "Encode gob_encode isUpper tys e st =
     map_option (\<lambda>r. go_bind r (\<lambda>st1. Inr (st1, Option.bind e (gob_encode \<circ> snd))))
       (checkValue isUpper tys (map_option fst e) st)"

definition Decode ::
    "('b \<Rightarrow> 'v option) \<Rightarrow> (string \<Rightarrow> bool) \<Rightarrow> gotype list \<Rightarrow> (nat \<times> goval) option \<Rightarrow> 'b \<Rightarrow> gobst \<Rightarrow>
     (gobst \<times> 'v option) go option" where
  "Decode gob_decode isUpper tys e data st =
     map_option (\<lambda>r. go_bind r (\<lambda>st1. go_bind (checkDefault isUpper (map_option snd e) st1)
                   (\<lambda>st2. Inr (st2, gob_decode data))))
       (checkValue isUpper tys (map_option fst e) st)"

definition Register ::
    "(nat option \<Rightarrow> 'r \<Rightarrow> 'r) \<Rightarrow> (string \<Rightarrow> bool) \<Rightarrow> gotype list \<Rightarrow> nat option \<Rightarrow> gobst \<times> 'r \<Rightarrow> (gobst \<times> 'r) go option" where
  "Register gob_register isUpper tys value = (\<lambda>(st, reg).
     map_option (\<lambda>r. go_bind r (\<lambda>st1. Inr (st1, gob_register value reg)))
       (checkValue isUpper tys value st))"

definition EncodeValue ::
    "('v \<Rightarrow> 'b option) \<Rightarrow> (string \<Rightarrow> bool) \<Rightarrow> gotype list \<Rightarrow> (nat \<times> 'v) option \<Rightarrow> gobst \<Rightarrow>
     (gobst \<times> 'b option) go option" where
  "EncodeValue gob_encodeValue isUpper tys value st =
     map_option (\<lambda>r. go_bind r (\<lambda>st1. Inr (st1, Option.bind value (gob_encodeValue \<circ> snd))))
       (checkValue isUpper tys (map_option fst value) st)"

definition RegisterName ::
    "(string \<Rightarrow> nat option \<Rightarrow> 'r \<Rightarrow> 'r) \<Rightarrow> (string \<Rightarrow> bool) \<Rightarrow> gotype list \<Rightarrow> string \<Rightarrow> nat option \<Rightarrow> gobst \<times> 'r \<Rightarrow>
     (gobst \<times> 'r) go option" where
  "RegisterName gob_registerName isUpper tys name value = (\<lambda>(st, reg).
     map_option (\<lambda>r. go_bind r (\<lambda>st1. Inr (st1, gob_registerName name value reg)))
       (checkValue isUpper tys value st))"

section \<open>Termination and reach of the type check\<close>

fun children :: "gotype \<Rightarrow> nat list" where
  "children (GStruct n fs) = map snd fs"
| "children (GSlice e) = [e]"
| "children (GArray n e) = [e]"
| "children (GPtr e) = [e]"
| "children (GMap k e) = [e, k]"
| "children GOther = []"

definition lower_fields :: "(string \<Rightarrow> bool) \<Rightarrow> gotype \<Rightarrow> nat" where
  "lower_fields isUpper ty =
     (case ty of GStruct n fs \<Rightarrow> length (filter (\<lambda>(f, _). \<not> isUpper f) fs) | _ \<Rightarrow> 0)"

inductive reaches :: "gotype list \<Rightarrow> nat \<Rightarrow> nat \<Rightarrow> bool" for tys where
  reaches_refl: "reaches tys t t"
| reaches_step: "reaches tys t u \<Longrightarrow> v \<in> set (children (ty_of tys u)) \<Longrightarrow> reaches tys t v"

definition pending :: "gotype list \<Rightarrow> gobst \<Rightarrow> nat" where
  "pending tys st = card ({..<length tys} - checked st)"

lemma pending_mono: "checked st \<subseteq> checked st' \<Longrightarrow> pending tys st' \<le> pending tys st"
  unfolding pending_def by (intro card_mono) auto

lemma pending_insert:
  assumes "t < length tys" and "t \<notin> checked st"
  shows "pending tys (st\<lparr>checked := insert t (checked st)\<rparr>) < pending tys st"
proof -
  have "{..<length tys} - insert t (checked st) \<subset> {..<length tys} - checked st"
    using assms by auto
  then show ?thesis unfolding pending_def by (simp add: psubset_card_mono)
qed

lemma reaches_trans: "reaches tys u v \<Longrightarrow> reaches tys t u \<Longrightarrow> reaches tys t v"
  by (induction rule: reaches.induct) (auto intro: reaches_step)

text \<open>
  What a run of the check from the types \<open>roots\<close> does to the state, beside \<open>k\<close> errors of its own:
  it marks the roots, marks only types reachable from them, marks every child of a type it marks,
  and adds the lower-case fields of the newly marked types to the error count.
\<close>

definition visits :: "(string \<Rightarrow> bool) \<Rightarrow> gotype list \<Rightarrow> nat list \<Rightarrow> nat \<Rightarrow> gobst \<Rightarrow> gobst \<Rightarrow> bool" where
  "visits isUpper tys roots k st st' \<longleftrightarrow>
     checked st \<subseteq> checked st' \<and> set roots \<subseteq> checked st' \<and> finite (checked st' - checked st) \<and>
     (\<forall>x \<in> checked st' - checked st. \<exists>r \<in> set roots. reaches tys r x) \<and>
     (\<forall>x \<in> checked st' - checked st. set (children (ty_of tys x)) \<subseteq> checked st') \<and>
     errorCount st' = errorCount st + int k +
       (\<Sum>x \<in> checked st' - checked st. int (lower_fields isUpper (ty_of tys x)))"

lemma visits_refl: "visits isUpper tys [] 0 st st"
  by (simp add: visits_def)

lemma visits_checked: "t \<in> checked st \<Longrightarrow> visits isUpper tys [t] 0 st st"
  by (simp add: visits_def)

lemma visits_trans:
  assumes "visits isUpper tys rs k st st1" and "visits isUpper tys rs' k' st1 st2"
  shows "visits isUpper tys (rs @ rs') (k + k') st st2"
proof -
  have split: "checked st2 - checked st = (checked st1 - checked st) \<union> (checked st2 - checked st1)"
    using assms by (auto simp: visits_def)
  have "(\<Sum>x \<in> checked st2 - checked st. int (lower_fields isUpper (ty_of tys x))) =
      (\<Sum>x \<in> checked st1 - checked st. int (lower_fields isUpper (ty_of tys x))) +
      (\<Sum>x \<in> checked st2 - checked st1. int (lower_fields isUpper (ty_of tys x)))"
    unfolding split using assms by (intro sum.union_disjoint) (auto simp: visits_def)
  moreover have "\<forall>x \<in> (checked st1 - checked st) \<union> (checked st2 - checked st1).
      set (children (ty_of tys x)) \<subseteq> checked st2"
    using assms unfolding visits_def by blast
  ultimately show ?thesis using assms unfolding visits_def split by auto
qed

lemma visits_errors:
  "visits isUpper tys rs k (st\<lparr>errorCount := errorCount st + int j, printed := p\<rparr>) st' \<Longrightarrow>
   visits isUpper tys rs (j + k) st st'"
  by (simp add: visits_def)

lemma visits_mark:
  assumes "t \<notin> checked st"
    and "visits isUpper tys (children (ty_of tys t)) (lower_fields isUpper (ty_of tys t))
           (st\<lparr>checked := insert t (checked st)\<rparr>) st'"
  shows "visits isUpper tys [t] 0 st st'"
proof -
  let ?new = "checked st' - insert t (checked st)"
  have new: "checked st' - checked st = insert t ?new"
    using assms by (auto simp: visits_def)
  have "reaches tys t x" if x: "x \<in> ?new" for x
  proof -
    from assms(2) x obtain r where r: "r \<in> set (children (ty_of tys t))" and "reaches tys r x"
      unfolding visits_def by (metis gobst.select_convs(1) gobst.surjective gobst.update_convs(1))
    moreover have "reaches tys t r" by (rule reaches_step [OF reaches_refl r])
    ultimately show ?thesis by (blast intro: reaches_trans)
  qed
  moreover have "(\<Sum>x \<in> insert t ?new. int (lower_fields isUpper (ty_of tys x))) =
      int (lower_fields isUpper (ty_of tys t)) + (\<Sum>x \<in> ?new. int (lower_fields isUpper (ty_of tys x)))"
    using assms(2) by (intro sum.insert) (auto simp: visits_def)
  ultimately show ?thesis
    using assms(2) unfolding visits_def new by (auto intro: reaches_refl)
qed

lemma checkType_visits:
  "pending tys st < fuel \<Longrightarrow>
     \<exists>st'. checkType fuel isUpper tys t st = Some st' \<and> visits isUpper tys [t] 0 st st'"
  "pending tys st < fuel \<Longrightarrow>
     \<exists>st'. checkFields fuel isUpper tys tname fs st = Some st' \<and>
       visits isUpper tys (map snd fs) (length (filter (\<lambda>(f, _). \<not> isUpper f) fs)) st st'"
proof (induction fuel isUpper tys t st and fuel isUpper tys tname fs st rule: checkType_checkFields.induct)
  case (2 fuel isUpper tys t st)
  let ?st1 = "st\<lparr>checked := insert t (checked st)\<rparr>"
  show ?case
  proof (cases "t \<in> checked st")
    case True
    then show ?thesis by (simp add: visits_checked)
  next
    case new: False
    have "\<exists>st'. checkType (Suc fuel) isUpper tys t st = Some st' \<and>
        visits isUpper tys (children (ty_of tys t)) (lower_fields isUpper (ty_of tys t)) ?st1 st'"
    proof (cases "t < length tys")
      case False
      with new show ?thesis by (simp add: ty_of_def lower_fields_def visits_refl)
    next
      case True
      with 2 new have less: "pending tys ?st1 < fuel"
        using pending_insert [OF True new] by simp
      show ?thesis
      proof (cases "ty_of tys t")
        case (GStruct n fs)
        with "2.IH"(1) [OF new refl GStruct less] new show ?thesis
          by (simp add: lower_fields_def)
      next
        case (GSlice e)
        with "2.IH"(2) [OF new refl GSlice less] new show ?thesis by (simp add: lower_fields_def)
      next
        case (GArray n e)
        with "2.IH"(3) [OF new refl GArray less] new show ?thesis by (simp add: lower_fields_def)
      next
        case (GPtr e)
        with "2.IH"(4) [OF new refl GPtr less] new show ?thesis by (simp add: lower_fields_def)
      next
        case (GMap k e)
        obtain st2 where st2: "checkType fuel isUpper tys e ?st1 = Some st2"
          and v2: "visits isUpper tys [e] 0 ?st1 st2"
          using "2.IH"(5) [OF new refl GMap less] by blast
        then have "pending tys st2 < fuel"
          using less pending_mono [of ?st1 st2 tys] by (simp add: visits_def)
        then obtain st3 where st3: "checkType fuel isUpper tys k st2 = Some st3"
          and v3: "visits isUpper tys [k] 0 st2 st3"
          using "2.IH"(6) [OF new refl GMap st2] by blast
        from visits_trans [OF v2 v3] st2 st3 GMap new show ?thesis
          by (simp add: lower_fields_def)
      next
        case GOther
        with new show ?thesis by (simp add: lower_fields_def visits_refl)
      qed
    qed
    with new visits_mark show ?thesis by blast
  qed
next
  case (4 fuel isUpper tys tname f ft fs st)
  define j :: nat where "j = (if isUpper f then 0 else 1)"
  let ?st0 = "if isUpper f then st else lower_case_error f tname st"
  have "pending tys ?st0 = pending tys st" by (simp add: pending_def lower_case_error_def)
  with 4 obtain st1 where st1: "checkType fuel isUpper tys ft ?st0 = Some st1"
    and v1: "visits isUpper tys [ft] 0 ?st0 st1"
    by (auto simp del: checkType.simps)
  have v1': "visits isUpper tys [ft] j st st1"
    using v1 by (simp add: visits_def j_def lower_case_error_def split: if_splits)
  then have "pending tys st1 < fuel"
    using 4 pending_mono [of st st1 tys] by (simp add: visits_def)
  with 4 st1 obtain st2 where st2: "checkFields fuel isUpper tys tname fs st1 = Some st2"
    and v2: "visits isUpper tys (map snd fs) (length (filter (\<lambda>(f, _). \<not> isUpper f) fs)) st1 st2"
    by (auto simp del: checkFields.simps)
  from visits_trans [OF v1' v2] st1 st2 show ?case by (auto simp: j_def)
qed (simp_all add: visits_refl)

lemma pending_le: "pending tys st \<le> length tys"
  unfolding pending_def by (metis card_Diff1_le card_lessThan card_mono Diff_subset finite_lessThan)

lemma checkValue_visits:
  "\<exists>st'. checkValue isUpper tys (Some t) st = Some (Inr st') \<and> visits isUpper tys [t] 0 st st'"
  using checkType_visits(1) [OF pending_le [THEN le_imp_less_Suc]]
  by (fastforce simp: checkValue_def)

text \<open>Between calls the checked set is closed under components.\<close>

definition gob_closed :: "gotype list \<Rightarrow> gobst \<Rightarrow> bool" where
  "gob_closed tys st \<longleftrightarrow> (\<forall>x \<in> checked st. set (children (ty_of tys x)) \<subseteq> checked st)"

lemma gob_closed_reaches: "reaches tys t x \<Longrightarrow> gob_closed tys st \<Longrightarrow> t \<in> checked st \<Longrightarrow> x \<in> checked st"
  by (induction rule: reaches.induct) (auto simp: gob_closed_def)

lemma visits_closed: "gob_closed tys st \<Longrightarrow> visits isUpper tys rs k st st' \<Longrightarrow> gob_closed tys st'"
  unfolding gob_closed_def visits_def by blast

lemma visits_one_root:
  assumes "gob_closed tys st" and "visits isUpper tys [t] 0 st st'"
  shows "checked st' = checked st \<union> {x. reaches tys t x}"
proof -
  have "x \<in> checked st'" if "reaches tys t x" for x
    using gob_closed_reaches [OF that visits_closed [OF assms]] assms(2) by (simp add: visits_def)
  then show ?thesis using assms(2) by (auto simp: visits_def)
qed

text \<open>
  C30: checking a value's type always returns, whatever cycles the type has; it then has marked
  exactly the types reachable from it (beside those marked before), and it has added to the
  error count the number of lower-case fields of the types it marked for the first time.
\<close>

theorem checkValue_counts_reachable_fields:
  assumes "gob_closed tys st"
  shows "\<exists>st'. checkValue isUpper tys (Some t) st = Some (Inr st') \<and> gob_closed tys st' \<and>
     checked st' = checked st \<union> {x. reaches tys t x} \<and>
     errorCount st' = errorCount st +
       (\<Sum>x \<in> {x. reaches tys t x} - checked st. int (lower_fields isUpper (ty_of tys x)))"
proof -
  obtain st' where ret: "checkValue isUpper tys (Some t) st = Some (Inr st')"
    and v: "visits isUpper tys [t] 0 st st'"
    using checkValue_visits by blast
  have reach: "checked st' = checked st \<union> {x. reaches tys t x}"
    by (rule visits_one_root [OF assms v])
  then have "checked st' - checked st = {x. reaches tys t x} - checked st" by auto
  with v have "errorCount st' = errorCount st +
      (\<Sum>x \<in> {x. reaches tys t x} - checked st. int (lower_fields isUpper (ty_of tys x)))"
    by (simp add: visits_def)
  with ret reach visits_closed [OF assms v] show ?thesis by blast
qed

definition example_types :: "gotype list" where
  "example_types = [GStruct ''Node'' [(''Next'', 1), (''val'', 2)], GPtr 0, GOther]"

definition gob_init :: gobst where
  "gob_init = \<lparr>checked = {}, errorCount = 0, printed = []\<rparr>"

lemma checkValue_counts_reachable_fields_witness:
  "\<exists>st'. checkValue (\<lambda>f. f = ''Next'') example_types (Some 0) gob_init = Some (Inr st') \<and> gob_closed example_types st' \<and>
     checked st' = checked gob_init \<union> {x. reaches example_types 0 x} \<and>
     errorCount st' = errorCount gob_init +
       (\<Sum>x \<in> {x. reaches example_types 0 x} - checked gob_init.
          int (lower_fields (\<lambda>f. f = ''Next'') (ty_of example_types x)))"
  by (rule checkValue_counts_reachable_fields) (simp add: gob_closed_def gob_init_def)


section \<open>What the default check complains about\<close>

text \<open>
  The specification lists the scalars a value contains, each with the selections that lead to it;
  depth, dotted name and read-only flag are read off the selections.
\<close>

datatype selection = Deref | Field string bool

fun leaves :: "goval \<Rightarrow> (selection list \<times> string \<times> scalar) list" where
  "leaves (VStruct fs) = concat (map (\<lambda>(f, emb, v). map (apfst ((#) (Field f emb))) (leaves v)) fs)"
| "leaves (VPtr None) = []"
| "leaves (VPtr (Some v)) = map (apfst ((#) Deref)) (leaves v)"
| "leaves (VScalar tname s) = [([], tname, s)]"
| "leaves VOther = []"

fun select_flag :: "(string \<Rightarrow> bool) \<Rightarrow> ro_flag \<Rightarrow> selection \<Rightarrow> ro_flag" where
  "select_flag isUpper ro Deref = ro"
| "select_flag isUpper ro (Field f emb) = field_flag isUpper ro f emb"

fun select_name :: "string \<Rightarrow> selection \<Rightarrow> string" where
  "select_name name Deref = name"
| "select_name name (Field f emb) = (if name = [] then f else name @ ''.'' @ f)"

abbreviation leaf_unexported :: "(string \<Rightarrow> bool) \<Rightarrow> selection list \<times> string \<times> scalar \<Rightarrow> bool" where
  "leaf_unexported isUpper \<equiv> (\<lambda>(p, _, _). foldl (select_flag isUpper) RO_none p \<noteq> RO_none)"

abbreviation leaf_name :: "selection list \<times> string \<times> scalar \<Rightarrow> string" where
  "leaf_name \<equiv> (\<lambda>(p, tname, _). if foldl select_name [] p = [] then tname else foldl select_name [] p)"

text \<open>The scalars the check looks at: two selections deep at most.\<close>

definition visible_leaves :: "goval \<Rightarrow> (selection list \<times> string \<times> scalar) list" where
  "visible_leaves v = filter (\<lambda>(p, _, _). length p \<le> 2) (leaves v)"

fun check_leaves ::
    "(string \<Rightarrow> bool) \<Rightarrow> ro_flag \<Rightarrow> nat \<Rightarrow> string \<Rightarrow> (selection list \<times> string \<times> scalar) list \<Rightarrow> gobst \<Rightarrow> gobst go" where
  "check_leaves isUpper ro depth name [] st = Inr st"
| "check_leaves isUpper ro depth name ((p, tname, s) # ls) st =
     (if depth + length p > 3 then check_leaves isUpper ro depth name ls st
      else go_bind (check_scalar (foldl (select_flag isUpper) ro p) tname s (foldl select_name name p) st)
             (check_leaves isUpper ro depth name ls))"

lemma check_leaves_append:
  "check_leaves isUpper ro depth name (ls @ ls') st =
     go_bind (check_leaves isUpper ro depth name ls st) (check_leaves isUpper ro depth name ls')"
  by (induction isUpper ro depth name ls st rule: check_leaves.induct) (auto simp: go_bind_assoc intro: go_bind_ext)

lemma check_leaves_select:
  "check_leaves isUpper ro depth name (map (apfst ((#) sel)) ls) st =
     check_leaves isUpper (select_flag isUpper ro sel) (Suc depth) (select_name name sel) ls st"
proof (induction ls arbitrary: st)
  case (Cons l ls)
  then show ?case by (cases l) (auto intro: go_bind_ext)
qed simp

lemma check_leaves_deep: "3 < depth \<Longrightarrow> check_leaves isUpper ro depth name ls st = Inr st"
  by (induction isUpper ro depth name ls st rule: check_leaves.induct) auto

lemma checkDefault1_leaves:
  "checkDefault1 isUpper ro v depth name st = check_leaves isUpper ro depth name (leaves v) st"
  "checkDefaultFields isUpper ro fs depth name st =
     check_leaves isUpper ro depth name (leaves (VStruct fs)) st"
proof (induction isUpper ro v depth name st and isUpper ro fs depth name st
    rule: checkDefault1_checkDefaultFields.induct)
  case (7 isUpper ro f emb v fs depth name st)
  then show ?case
    by (cases "checkDefault1 isUpper (field_flag isUpper ro f emb) v (depth + 1)
          (if name = [] then f else name @ ''.'' @ f) st")
      (simp_all add: check_leaves_append check_leaves_select)
qed (auto simp: check_leaves_deep check_leaves_select)

lemma check_leaves_visible:
  "check_leaves isUpper RO_none 1 [] ls st =
     check_leaves isUpper RO_none 1 [] (filter (\<lambda>(p, _, _). length p \<le> 2) ls) st"
proof (induction ls arbitrary: st)
  case (Cons l ls)
  then show ?case by (cases l) (auto simp: check_scalar_def)
qed simp

text \<open>The state after warnings for the fields in \<open>ws\<close>: each counts, only the first error is printed.\<close>

definition warned :: "string list \<Rightarrow> gobst \<Rightarrow> gobst" where
  "warned ws st =
     st\<lparr>errorCount := errorCount st + int (length ws),
        printed := printed st @
          (if ws \<noteq> [] \<and> errorCount st < 1
           then map (\<lambda>w. ''labgob warning: Decoding into a non-default variable/field '' @ w @
                       '' may not work'') (take (nat (1 - errorCount st)) ws)
           else [])\<rparr>"

lemma warned_Nil [simp]: "warned [] st = st"
  by (simp add: warned_def)

lemma warned_Cons: "warned ws (non_default_error w st) = warned (w # ws) st"
proof (cases "errorCount st < 1")
  case True
  define n where "n = nat (- errorCount st)"
  then have "nat (1 - errorCount st) = Suc n" and "nat (1 - (errorCount st + 1)) = n"
    and "(errorCount st + 1 < 1) = (n \<noteq> 0)"
    using True by auto
  with True show ?thesis by (cases ws) (auto simp: warned_def non_default_error_def Let_def)
qed (simp add: warned_def non_default_error_def)

lemma check_leaves_result:
  assumes "\<forall>(p, _, _) \<in> set ls. length p \<le> 2"
  shows "check_leaves isUpper RO_none 1 [] ls st =
     (if list_ex (leaf_unexported isUpper) ls then Inl unexported_panic
      else Inr (warned (map leaf_name (filter (\<lambda>(_, _, s). \<not> scalar_zero s) ls)) st))"
  using assms
proof (induction ls arbitrary: st)
  case (Cons l ls)
  then show ?case by (cases l) (auto simp: check_scalar_def warned_Cons)
qed simp

text \<open>
  C31: decoding into a variable looks at the scalars at most two selections deep and at no other.
  If one of them sits behind a lower-case field the check panics; otherwise it counts one error
  for each of them that is not the zero of its type, and prints the warning, with the dotted name
  of the field, only while the error count is below one. Deeper scalars go unnoticed.
\<close>

theorem checkDefault_visible_scalars:
  "checkDefault isUpper (Some v) st =
     (if list_ex (leaf_unexported isUpper) (visible_leaves v) then Inl unexported_panic
      else Inr (warned (map leaf_name (filter (\<lambda>(_, _, s). \<not> scalar_zero s) (visible_leaves v))) st))"
proof -
  have "checkDefault isUpper (Some v) st = check_leaves isUpper RO_none 1 [] (visible_leaves v) st"
    by (simp add: checkDefault_def checkDefault1_leaves visible_leaves_def
        check_leaves_visible [of isUpper "leaves v"] del: One_nat_def)
  also have "\<dots> = (if list_ex (leaf_unexported isUpper) (visible_leaves v) then Inl unexported_panic
      else Inr (warned (map leaf_name (filter (\<lambda>(_, _, s). \<not> scalar_zero s) (visible_leaves v))) st))"
    by (rule check_leaves_result) (auto simp: visible_leaves_def)
  finally show ?thesis .
qed

end
