(* ===== verification/Messages.thy ===== *)
theory Messages
  imports Labgob
begin

text \<open>
  The types of the messages that the services send and of the operations they register, as
  \<^verbatim>\<open>reflect\<close> shows them to \<^verbatim>\<open>src/labgob/labgob.go\<close>: the structs of \<^verbatim>\<open>src/raft/raft.go\<close>,
  \<^verbatim>\<open>src/shardctrler/common.go\<close>, \<^verbatim>\<open>src/shardctrler/server.go\<close>, \<^verbatim>\<open>src/shardkv/common.go\<close> and
  \<^verbatim>\<open>src/shardkv/server.go\<close>, and \<^verbatim>\<open>time.Time\<close> of the standard library.

  Shown here: the type check accepts all messages of Raft and every message without a time
  stamp, and counts seventeen errors, once, as soon as a message with a time stamp is sent or an
  operation registered: the fields of \<^verbatim>\<open>time.Time\<close> and of the types below it. They are false alarms,
  as \<^verbatim>\<open>time.Time\<close> encodes itself.
\<close>

section \<open>The table of types\<close>

text \<open>Types that are not messages.\<close>

abbreviation "ty_LogEntry \<equiv> 24 :: nat"
abbreviation "ty_Config \<equiv> 25 :: nat"
abbreviation "ty_Time \<equiv> 26 :: nat"
abbreviation "ty_Location \<equiv> 27 :: nat"
abbreviation "ty_zone \<equiv> 28 :: nat"
abbreviation "ty_zoneTrans \<equiv> 29 :: nat"
abbreviation "ty_int \<equiv> 30 :: nat"
abbreviation "ty_bool \<equiv> 31 :: nat"
abbreviation "ty_string \<equiv> 32 :: nat"
abbreviation "ty_int64 \<equiv> 33 :: nat"
abbreviation "ty_uint64 \<equiv> 34 :: nat"
abbreviation "ty_byte \<equiv> 35 :: nat"
abbreviation "ty_interface \<equiv> 36 :: nat"
abbreviation "ty_ctlErr \<equiv> 37 :: nat"
abbreviation "ty_kvErr \<equiv> 38 :: nat"
abbreviation "ty_bytes \<equiv> 39 :: nat"
abbreviation "ty_entries \<equiv> 40 :: nat"
abbreviation "ty_shards \<equiv> 41 :: nat"
abbreviation "ty_strings \<equiv> 42 :: nat"
abbreviation "ty_groups \<equiv> 43 :: nat"
abbreviation "ty_ints \<equiv> 44 :: nat"
abbreviation "ty_kvmap \<equiv> 45 :: nat"
abbreviation "ty_shardData \<equiv> 46 :: nat"
abbreviation "ty_ackMap \<equiv> 47 :: nat"

text \<open>The messages of Raft: types 0 to 5.\<close>

definition install_messages :: "gotype list" where
  "install_messages =
     [GStruct ''InstallSnapshotArgs'' [(''Term'', ty_int), (''LeaderId'', ty_int), (''LastIncludeIndex'', ty_int),
        (''LastIncludeTerm'', ty_int), (''Data'', ty_bytes)],
      GStruct ''InstallSnapshotReply'' [(''Term'', ty_int)]]"

definition raft_messages :: "gotype list" where
  "raft_messages =
     [GStruct ''RequestVoteArgs'' [(''Term'', ty_int), (''CandidateId'', ty_int), (''LastLogIndex'', ty_int), (''LastLogTerm'', ty_int)],
      GStruct ''RequestVoteReply'' [(''Term'', ty_int), (''VoteGranted'', ty_bool)],
      GStruct ''AppendEntriesArgs'' [(''Term'', ty_int), (''LeaderId'', ty_int), (''PrevLogIndex'', ty_int), (''PrevLogTerm'', ty_int),
        (''LeaderCommit'', ty_int), (''Entries'', ty_entries)],
      GStruct ''AppendEntriesReply'' [(''Term'', ty_int), (''Success'', ty_bool), (''ConflictIndex'', ty_int), (''ConflictTerm'', ty_int)]]"

text \<open>The messages of the controller: types 6 to 13, and its operation: 14.\<close>

definition ctrler_messages :: "gotype list" where
  "ctrler_messages =
     [GStruct ''JoinArgs'' [(''Servers'', ty_groups), (''ClientId'', ty_int64), (''TimeStamp'', ty_Time)],
      GStruct ''JoinReply'' [(''WrongLeader'', ty_bool), (''Err'', ty_ctlErr)],
      GStruct ''LeaveArgs'' [(''GIDs'', ty_ints), (''ClientId'', ty_int64), (''TimeStamp'', ty_Time)],
      GStruct ''LeaveReply'' [(''WrongLeader'', ty_bool), (''Err'', ty_ctlErr)],
      GStruct ''MoveArgs'' [(''Shard'', ty_int), (''GID'', ty_int), (''ClientId'', ty_int64), (''TimeStamp'', ty_Time)],
      GStruct ''MoveReply'' [(''WrongLeader'', ty_bool), (''Err'', ty_ctlErr)],
      GStruct ''QueryArgs'' [(''Num'', ty_int), (''ClientId'', ty_int64), (''TimeStamp'', ty_Time)],
      GStruct ''QueryReply'' [(''WrongLeader'', ty_bool), (''Err'', ty_ctlErr), (''Config'', ty_Config)]]"

definition ctrler_op :: gotype where
  "ctrler_op = GStruct ''Op'' [(''Command'', ty_string), (''ArgsJoin'', ty_groups), (''ArgsLeave'', ty_ints),
     (''ArgsMoveShard'', ty_int), (''ArgsMoveGid'', ty_int), (''ArgsQuery'', ty_int), (''ReplyQuery'', ty_Config),
     (''ClientId'', ty_int64), (''TimeStamp'', ty_Time)]"

text \<open>The messages of the key/value service: types 15 to 18, its operation: 19, and those between groups: 20 to 23.\<close>

definition kv_messages :: "gotype list" where
  "kv_messages =
     [GStruct ''PutAppendArgs'' [(''Key'', ty_string), (''Value'', ty_string), (''Op'', ty_string), (''ClientId'', ty_int64),
        (''TimeStamp'', ty_Time)],
      GStruct ''PutAppendReply'' [(''Config'', ty_Config), (''Err'', ty_kvErr)],
      GStruct ''GetArgs'' [(''Key'', ty_string), (''ClientId'', ty_int64), (''TimeStamp'', ty_Time)],
      GStruct ''GetReply'' [(''Err'', ty_kvErr), (''Value'', ty_string)]]"

definition kv_op :: gotype where
  "kv_op = GStruct ''Op'' [(''Op'', ty_string), (''Key'', ty_string), (''Value'', ty_string), (''ClientId'', ty_int64),
     (''TimeStamp'', ty_Time), (''Config'', ty_Config), (''ShardId'', ty_int), (''ConfigNum'', ty_int), (''ShardIds'', ty_ints),
     (''ShardData'', ty_shardData), (''Ack'', ty_ackMap)]"

definition transfer_messages :: "gotype list" where
  "transfer_messages =
     [GStruct ''TransferShardArgs'' [(''Num'', ty_int), (''ShardIds'', ty_ints)],
      GStruct ''TransferShardReply'' [(''Err'', ty_kvErr), (''ShardData'', ty_shardData), (''Ack'', ty_ackMap)]]"

definition delete_messages :: "gotype list" where
  "delete_messages =
     [GStruct ''DeleteShardArgs'' [(''Num'', ty_int), (''ShardIds'', ty_ints)],
      GStruct ''DeleteShardReply'' [(''Err'', ty_kvErr)]]"

text \<open>The types of the standard library that \<^verbatim>\<open>time.Time\<close> is made of, and the types the fields name.\<close>

definition time_types :: "gotype list" where
  "time_types =
     [GStruct ''Time'' [(''wall'', ty_uint64), (''ext'', ty_int64), (''loc'', 48)],
      GStruct ''Location'' [(''name'', ty_string), (''zone'', 49), (''tx'', 50), (''extend'', ty_string), (''cacheStart'', ty_int64),
        (''cacheEnd'', ty_int64), (''cacheZone'', 51)],
      GStruct ''zone'' [(''name'', ty_string), (''offset'', ty_int), (''isDST'', ty_bool)],
      GStruct ''zoneTrans'' [(''when'', ty_int64), (''index'', ty_byte), (''isstd'', ty_bool), (''isutc'', ty_bool)]]"

definition part_types :: "gotype list" where
  "part_types =
     [GStruct ''LogEntry'' [(''Term'', ty_int), (''Command'', ty_interface)],
      GStruct ''Config'' [(''Num'', ty_int), (''Shards'', ty_shards), (''Groups'', ty_groups)]] @ time_types @ replicate 9 GOther @
     [GSlice ty_byte, GSlice ty_LogEntry, GArray 10 ty_int, GSlice ty_string, GMap ty_int ty_strings, GSlice ty_int,
      GMap ty_string ty_string, GArray 10 ty_kvmap, GMap ty_int64 ty_Time, GPtr ty_Location, GSlice ty_zone, GSlice ty_zoneTrans,
      GPtr ty_zone]"

text \<open>
  A message is encoded as a struct or by its pointer, and the server decodes into a pointer to its
  pointer: types 52 and up, 76 and up.
\<close>

definition message_types :: "gotype list" where
  "message_types =
     install_messages @ raft_messages @ ctrler_messages @ [ctrler_op] @ kv_messages @ [kv_op] @ transfer_messages @ delete_messages @ part_types @
     map GPtr [0..<24] @ map GPtr [52..<76]"

fun message_type :: "nat \<times> nat \<Rightarrow> nat" where
  "message_type (k, pointers) = (if pointers = 0 then k else if pointers = 1 then 52 + k else 76 + k)"

definition stamped :: "nat \<Rightarrow> bool" where
  "stamped k \<longleftrightarrow> k \<in> set [6, 8, 10, 12, 14, 15, 17, 19, 21]"

definition upper_first :: "string \<Rightarrow> bool" where
  "upper_first f \<longleftrightarrow> (case f of [] \<Rightarrow> False | c # _ \<Rightarrow> c \<in> set ''ABCDEFGHIJKLMNOPQRSTUVWXYZ'')"

section \<open>Checking messages\<close>

text \<open>The check of every \<^verbatim>\<open>Encode\<close>, \<^verbatim>\<open>Decode\<close> and \<^verbatim>\<open>Register\<close>, one after the other.\<close>

fun check_all :: "(string \<Rightarrow> bool) \<Rightarrow> gotype list \<Rightarrow> nat list \<Rightarrow> gobst \<Rightarrow> gobst go option" where
  "check_all isUpper tys [] st = Some (Inr st)"
| "check_all isUpper tys (t # ts) st =
     (case checkValue isUpper tys (Some t) st of
        Some (Inr st1) \<Rightarrow> check_all isUpper tys ts st1
      | r \<Rightarrow> r)"

definition counted :: "(string \<Rightarrow> bool) \<Rightarrow> gotype list \<Rightarrow> gobst \<Rightarrow> bool" where
  "counted isUpper tys st \<longleftrightarrow> gob_closed tys st \<and> finite (checked st) \<and>
     errorCount st = (\<Sum>x \<in> checked st. int (lower_fields isUpper (ty_of tys x)))"

lemma check_all_counts:
  "counted isUpper tys st \<Longrightarrow> \<exists>st'. check_all isUpper tys ts st = Some (Inr st') \<and> counted isUpper tys st' \<and>
     checked st' = checked st \<union> {x. \<exists>t \<in> set ts. reaches tys t x}"
proof (induction ts arbitrary: st)
  case (Cons t ts)
  then have cl: "gob_closed tys st" and fin: "finite (checked st)" by (simp_all add: counted_def)
  obtain st1 where ret: "checkValue isUpper tys (Some t) st = Some (Inr st1)" and v: "visits isUpper tys [t] 0 st st1"
    using checkValue_visits by blast
  have sub: "checked st \<subseteq> checked st1" and fin1: "finite (checked st1)" using v fin by (auto simp: visits_def dest: finite_subset)
  have "errorCount st1 = (\<Sum>x \<in> checked st1. int (lower_fields isUpper (ty_of tys x)))"
    using v Cons.prems sum.subset_diff [OF sub fin1, of "\<lambda>x. int (lower_fields isUpper (ty_of tys x))"]
    by (simp add: visits_def counted_def)
  with fin1 visits_closed [OF cl v] have "counted isUpper tys st1" by (simp add: counted_def)
  from Cons.IH [OF this] visits_one_root [OF cl v] ret show ?case by auto
qed simp

lemma gob_init_counted: "counted isUpper tys gob_init"
  by (simp add: counted_def gob_closed_def gob_init_def)


section \<open>What the messages reach\<close>

lemmas message_table = message_types_def install_messages_def raft_messages_def ctrler_messages_def ctrler_op_def kv_messages_def kv_op_def
  transfer_messages_def delete_messages_def part_types_def time_types_def

text \<open>The types from which no time stamp is reached.\<close>

definition clean_types :: "nat list" where
  "clean_types = filter (\<lambda>k. \<not> stamped k) [0..<26] @ [30..<47] @ map ((+) 52) (filter (\<lambda>k. \<not> stamped k) [0..<24]) @
     map ((+) 76) (filter (\<lambda>k. \<not> stamped k) [0..<24])"

lemma clean_closed: "\<forall>x \<in> set clean_types. set (children (ty_of message_types x)) \<subseteq> set clean_types"
  by code_simp

lemma lower_only_time: "\<forall>x \<in> set [0..<100]. x \<notin> set [26..<30] \<longrightarrow> lower_fields upper_first (ty_of message_types x) = 0"
  by code_simp

lemma lower_time: "map (\<lambda>x. lower_fields upper_first (ty_of message_types x)) [26..<30] = [3, 7, 3, 4]"
  by code_simp

lemma time_parts:
  "48 \<in> set (children (ty_of message_types 26))" "27 \<in> set (children (ty_of message_types 48))"
  "49 \<in> set (children (ty_of message_types 27))" "50 \<in> set (children (ty_of message_types 27))"
  "28 \<in> set (children (ty_of message_types 49))" "29 \<in> set (children (ty_of message_types 50))"
  by code_simp+

lemma stamps_near: "\<forall>k \<in> set (filter stamped [0..<24]). 26 \<in> set (children (ty_of message_types k)) \<or>
     47 \<in> set (children (ty_of message_types k)) \<and> 26 \<in> set (children (ty_of message_types 47))"
  by code_simp

lemma pointers_near: "\<forall>k \<in> set [0..<24]. k \<in> set (children (ty_of message_types (52 + k))) \<and> 52 + k \<in> set (children (ty_of message_types (76 + k)))"
  by code_simp

lemma clean_reaches: "reaches message_types t x \<Longrightarrow> t \<in> set clean_types \<Longrightarrow> x \<in> set clean_types"
  by (induction rule: reaches.induct) (use clean_closed in blast)+

lemma reaches_time: "reaches message_types t 26 \<Longrightarrow> x \<in> {26..<30} \<Longrightarrow> reaches message_types t x"
proof -
  assume t: "reaches message_types t 26" and x: "x \<in> {26..<30}"
  have r27: "reaches message_types t 27" using reaches_step [OF reaches_step [OF t time_parts(1)] time_parts(2)] .
  have "reaches message_types t 28" "reaches message_types t 29"
    using reaches_step [OF reaches_step [OF r27 time_parts(3)] time_parts(5)]
      reaches_step [OF reaches_step [OF r27 time_parts(4)] time_parts(6)] .
  moreover have "x = 26 \<or> x = 27 \<or> x = 28 \<or> x = 29" using x by auto
  ultimately show ?thesis using t r27 by blast
qed

lemma stamped_reaches:
  assumes "stamped k" and "k < 24"
  shows "reaches message_types (message_type (k, p)) 26"
proof -
  have "k \<in> set (filter stamped [0..<24])" using assms by simp
  with stamps_near have near: "26 \<in> set (children (ty_of message_types k)) \<or>
     47 \<in> set (children (ty_of message_types k)) \<and> 26 \<in> set (children (ty_of message_types 47))" by blast
  have k: "reaches message_types t 26" if "reaches message_types t k" for t
    using near reaches_step [OF that] reaches_step [OF reaches_step [OF that]] by blast
  have "k \<in> set [0..<24]" using assms(2) by simp
  with pointers_near have "k \<in> set (children (ty_of message_types (52 + k)))" "52 + k \<in> set (children (ty_of message_types (76 + k)))" by blast+
  then have "reaches message_types (52 + k) k" "reaches message_types (76 + k) k"
    using reaches_step [OF reaches_refl] reaches_step [OF reaches_step [OF reaches_refl]] by blast+
  then show ?thesis using k [OF reaches_refl] k by simp
qed

lemma unstamped_clean:
  assumes "\<not> stamped k" and "k < 24"
  shows "message_type (k, p) \<in> set clean_types"
  using assms by (auto simp: clean_types_def)

lemma length_message_types: "length message_types = 100"
  by code_simp

lemma lower_elsewhere: "x \<notin> {26..<30} \<Longrightarrow> lower_fields upper_first (ty_of message_types x) = 0"
  using lower_only_time by (cases "x < 100") (auto simp: ty_of_def length_message_types lower_fields_def)

lemma clean_no_time: "set clean_types \<inter> {26..<30} = {}"
  by (auto simp: clean_types_def stamped_def)

text \<open>
  C33: The messages the services send, against the check of labgob. In whatever order messages are encoded and decoded and
  operations registered, as structs or through one or two pointers, the check returns; it has counted no error as long as
  all of them are messages of Raft, replies without time stamps or requests between groups, and seventeen as soon as one of them carries a time
  stamp, however many follow: the lower-case fields of \<^verbatim>\<open>time.Time\<close> and of the types it is made of. So
  no field of a message itself is lower-case and lost, and all complaints are about time stamps.
\<close>

theorem messages_only_time_reported:
  assumes "\<forall>(k, p) \<in> set ms. k < 24"
  shows "\<exists>st. check_all upper_first message_types (map message_type ms) gob_init = Some (Inr st) \<and>
     errorCount st = (if \<exists>(k, p) \<in> set ms. stamped k then 17 else 0)"
proof -
  let ?X = "{x. \<exists>t \<in> set (map message_type ms). reaches message_types t x}"
  let ?f = "\<lambda>x. int (lower_fields upper_first (ty_of message_types x))"
  obtain st where ret: "check_all upper_first message_types (map message_type ms) gob_init = Some (Inr st)"
    and "counted upper_first message_types st" and "checked st = ?X"
    using check_all_counts [OF gob_init_counted] by (fastforce simp: gob_init_def)
  then have fin: "finite ?X" and err: "errorCount st = (\<Sum>x \<in> ?X. ?f x)" by (simp_all add: counted_def)
  have "?f x = 0" if "x \<in> ?X - ?X \<inter> {26..<30}" for x
  proof -
    from that have "x \<notin> {26..<30}" by blast
    from lower_elsewhere [OF this] show ?thesis by (rule ssubst) simp
  qed
  then have "(\<Sum>x \<in> ?X. ?f x) = (\<Sum>x \<in> ?X \<inter> {26..<30}. ?f x)" by (intro sum.mono_neutral_right [OF fin Int_lower1] ballI)
  also have "\<dots> = (if \<exists>(k, p) \<in> set ms. stamped k then 17 else 0)"
  proof (cases "\<exists>(k, p) \<in> set ms. stamped k")
    case True
    then obtain k p where kp: "(k, p) \<in> set ms" "stamped k" by auto
    with assms have "k < 24" by auto
    note at = reaches_time [OF stamped_reaches [OF kp(2) this, of p]]
    have "message_type (k, p) \<in> set (map message_type ms)" using kp(1) by (simp del: message_type.simps)
    with at have "{26..<30} \<subseteq> ?X" by blast
    then have "?X \<inter> {26..<30} = set [26..<30]" unfolding set_upt by (rule Int_absorb1)
    moreover have "(\<Sum>x \<in> set [26..<30]. ?f x) = sum_list (map ?f [26..<30])" by (rule sum_set_upt_conv_sum_list_nat)
    moreover have "map ?f [26..<30] = [3, 7, 3, 4]" using arg_cong [OF lower_time, of "map int"] by (simp add: comp_def)
    ultimately show ?thesis using True by simp
  next
    case False
    have "message_type (k, p) \<in> set clean_types" if "(k, p) \<in> set ms" for k p
      by (rule unstamped_clean) (use that False assms in auto)
    then have roots: "t \<in> set clean_types" if "t \<in> set (map message_type ms)" for t using that by (auto simp del: message_type.simps)
    have "?X \<subseteq> set clean_types" using clean_reaches roots by blast
    with clean_no_time have "?X \<inter> {26..<30} = {}" by blast
    then show ?thesis by (simp add: False)
  qed
  finally show ?thesis using ret err by auto
qed

theorem messages_only_time_reported_witness:
  "(\<exists>st. check_all upper_first message_types (map message_type [(4, 1), (5, 2)]) gob_init = Some (Inr st) \<and> errorCount st = 0) \<and>
   (\<exists>st. check_all upper_first message_types (map message_type [(4, 1), (15, 1), (14, 0)]) gob_init = Some (Inr st) \<and> errorCount st = 17)"
  using messages_only_time_reported [of "[(4, 1), (5, 2)]"] messages_only_time_reported [of "[(4, 1), (15, 1), (14, 0)]"]
  by (simp add: stamped_def)

end
