(* ===== verification/Labrpc.thy ===== *)
theory Labrpc
  imports GoPrelude "HOL-Library.Word"
begin

text \<open>
  The simulated network of \<^verbatim>\<open>src/labrpc/labrpc.go\<close>. A \<open>Network\<close> is a record with the maps of the
  Go struct; servers are objects with an identity, so the model keeps them in a heap (a list
  indexed by address) and the network's map holds addresses, None for nil. Request processing is a
  goroutine per request and one more for its handler; their steps between two blocking points are
  the actions of \<open>lab_exec\<close>, and a schedule is a list of actions, interleaved with the calls that
  reconfigure the network. Random draws are arguments of the actions. An action whose thread is
  not at that point changes nothing.

  Shown here: a request gets at most one reply and its handler runs at most once; a positive reply
  carries what the handler returned; a request from a disabled or unconnected end never reaches a
  handler; no positive reply is sent after the server was deleted or the end disabled; a reliable
  network delivers; the method name is split at the last dot; the counters wrap at their width.
\<close>

section \<open>Data\<close>

text \<open>An \<^verbatim>\<open>interface{}\<close> used as a name holds a string or an integer in this code base.\<close>

datatype gname = NStr string | NInt int

type_synonym gbytes = "8 word list"

record reqMsg =
  rq_endname :: gname
  rq_svcMeth :: string
  rq_argsType :: string
  rq_args :: gbytes

record replyMsg =
  rp_ok :: bool
  rp_reply :: gbytes

definition noReply :: replyMsg where
  "noReply = \<lparr>rp_ok = False, rp_reply = []\<rparr>"

record ClientEnd =
  ce_endname :: gname

record Network =
  reliable :: bool
  longDelays :: bool
  longReordering :: bool
  net_ends :: "gname \<rightharpoonup> ClientEnd"
  net_enabled :: "gname \<rightharpoonup> bool"
  net_servers :: "gname \<rightharpoonup> nat option"
  net_connections :: "gname \<rightharpoonup> gname option"
  net_done :: bool
  net_count :: "32 word"
  net_bytes :: "64 word"

text \<open>
  What reflection tells of a method, and the function it is: from the decoded argument and the
  state behind the receiver to the new state and the reply.
\<close>

record ('a, 's, 'r) rmethod =
  m_name :: string
  m_pkgPath :: string
  m_numIn :: nat
  m_in2Ptr :: bool
  m_numOut :: nat
  m_func :: "'a \<Rightarrow> 's \<Rightarrow> 's \<times> 'r"

record ('a, 's, 'r) Service =
  svc_name :: string
  svc_methods :: "string \<rightharpoonup> ('a, 's, 'r) rmethod"

record ('a, 's, 'r) Server =
  services :: "string \<rightharpoonup> ('a, 's, 'r) Service"
  srv_count :: int

section \<open>Operations of the network\<close>

definition MakeNetwork :: Network where
  "MakeNetwork = \<lparr>reliable = True, longDelays = False, longReordering = False,
     net_ends = Map.empty, net_enabled = Map.empty, net_servers = Map.empty, net_connections = Map.empty,
     net_done = False, net_count = 0, net_bytes = 0\<rparr>"

text \<open>Closing a closed channel panics.\<close>

definition Cleanup :: "Network \<Rightarrow> Network go" where
  "Cleanup rn = (if net_done rn then Inl (Panic ''close of closed channel'') else Inr (rn\<lparr>net_done := True\<rparr>))"

definition Reliable :: "bool \<Rightarrow> Network \<Rightarrow> Network" where
  "Reliable yes rn = rn\<lparr>reliable := yes\<rparr>"

definition LongReordering :: "bool \<Rightarrow> Network \<Rightarrow> Network" where
  "LongReordering yes rn = rn\<lparr>longReordering := yes\<rparr>"

definition LongDelays :: "bool \<Rightarrow> Network \<Rightarrow> Network" where
  "LongDelays yes rn = rn\<lparr>longDelays := yes\<rparr>"

text \<open>A map read at an absent key gives the zero value.\<close>

definition enabled_at :: "Network \<Rightarrow> gname \<Rightarrow> bool" where
  "enabled_at rn e = (net_enabled rn e = Some True)"

definition server_at :: "Network \<Rightarrow> gname \<Rightarrow> nat option" where
  "server_at rn s = (case net_servers rn s of None \<Rightarrow> None | Some p \<Rightarrow> p)"

definition connection_at :: "Network \<Rightarrow> gname \<Rightarrow> gname option" where
  "connection_at rn e = (case net_connections rn e of None \<Rightarrow> None | Some s \<Rightarrow> s)"

definition readEndnameInfo ::
    "Network \<Rightarrow> gname \<Rightarrow> bool \<times> gname option \<times> nat option \<times> bool \<times> bool" where
  "readEndnameInfo rn e =
     (let servername = connection_at rn e;
          server = (case servername of None \<Rightarrow> None | Some s \<Rightarrow> server_at rn s)
      in (enabled_at rn e, servername, server, reliable rn, longReordering rn))"

definition isServerDead :: "Network \<Rightarrow> gname \<Rightarrow> gname \<Rightarrow> nat \<Rightarrow> bool" where
  "isServerDead rn e servername server =
     (\<not> enabled_at rn e \<or> server_at rn servername \<noteq> Some server)"

definition MakeEnd :: "gname \<Rightarrow> Network \<Rightarrow> (Network \<times> ClientEnd) go" where
  "MakeEnd e rn =
     (if net_ends rn e \<noteq> None then Inl (LogFatal ''MakeEnd: already exists'')
      else let ce = \<lparr>ce_endname = e\<rparr>
           in Inr (rn\<lparr>net_ends := (net_ends rn)(e \<mapsto> ce), net_enabled := (net_enabled rn)(e \<mapsto> False),
                     net_connections := (net_connections rn)(e \<mapsto> None)\<rparr>, ce))"

definition DeleteEnd :: "gname \<Rightarrow> Network \<Rightarrow> Network go" where
  "DeleteEnd e rn =
     (if net_ends rn e = None then Inl (LogFatal ''MakeEnd: doesn't exists'')
      else Inr (rn\<lparr>net_ends := (net_ends rn)(e := None), net_enabled := (net_enabled rn)(e := None),
                  net_connections := (net_connections rn)(e := None)\<rparr>))"

definition AddServer :: "gname \<Rightarrow> nat \<Rightarrow> Network \<Rightarrow> Network" where
  "AddServer s rs rn = rn\<lparr>net_servers := (net_servers rn)(s \<mapsto> Some rs)\<rparr>"

definition DeleteServer :: "gname \<Rightarrow> Network \<Rightarrow> Network" where
  "DeleteServer s rn = rn\<lparr>net_servers := (net_servers rn)(s \<mapsto> None)\<rparr>"

definition Connect :: "gname \<Rightarrow> gname \<Rightarrow> Network \<Rightarrow> Network" where
  "Connect e s rn = rn\<lparr>net_connections := (net_connections rn)(e \<mapsto> Some s)\<rparr>"

definition Enable :: "gname \<Rightarrow> bool \<Rightarrow> Network \<Rightarrow> Network" where
  "Enable e b rn = rn\<lparr>net_enabled := (net_enabled rn)(e \<mapsto> b)\<rparr>"

definition GetTotalCount :: "Network \<Rightarrow> int" where
  "GetTotalCount rn = sint (net_count rn)"

definition GetTotalBytes :: "Network \<Rightarrow> 64 word" where
  "GetTotalBytes rn = net_bytes rn"

definition AddBytes :: "gbytes \<Rightarrow> Network \<Rightarrow> Network" where
  "AddBytes bs rn = rn\<lparr>net_bytes := net_bytes rn + of_nat (length bs)\<rparr>"

text \<open>The network goroutine's work on a request, before it starts \<^verbatim>\<open>processReq\<close>.\<close>

definition accept_request :: "reqMsg \<Rightarrow> Network \<Rightarrow> Network" where
  "accept_request req rn = AddBytes (rq_args req) (rn\<lparr>net_count := net_count rn + 1\<rparr>)"

section \<open>Servers and services\<close>

definition MakeServer :: "('a, 's, 'r) Server" where
  "MakeServer = \<lparr>services = Map.empty, srv_count = 0\<rparr>"

definition AddService :: "('a, 's, 'r) Service \<Rightarrow> ('a, 's, 'r) Server \<Rightarrow> ('a, 's, 'r) Server" where
  "AddService svc rs = rs\<lparr>services := (services rs)(svc_name svc \<mapsto> svc)\<rparr>"

definition Server_GetCount :: "('a, 's, 'r) Server \<Rightarrow> int" where
  "Server_GetCount rs = srv_count rs"

definition Network_GetCount :: "('a, 's, 'r) Server list \<Rightarrow> gname \<Rightarrow> Network \<Rightarrow> int go" where
  "Network_GetCount heap s rn =
     (case server_at rn s of
        None \<Rightarrow> Inl NilDereference
      | Some a \<Rightarrow> go_bind (go_nth heap (int a)) (\<lambda>svr. Inr (Server_GetCount svr)))"

definition suitable_method :: "('a, 's, 'r) rmethod \<Rightarrow> bool" where
  "suitable_method m \<longleftrightarrow>
     \<not> (m_pkgPath m \<noteq> [] \<or> m_numIn m \<noteq> 3 \<or> \<not> m_in2Ptr m \<or> m_numOut m \<noteq> 0)"

fun collect_methods ::
    "('a, 's, 'r) rmethod list \<Rightarrow> (string \<rightharpoonup> ('a, 's, 'r) rmethod) \<Rightarrow> string \<rightharpoonup> ('a, 's, 'r) rmethod" where
  "collect_methods [] ms = ms"
| "collect_methods (m # rest) ms =
     collect_methods rest (if suitable_method m then ms(m_name m \<mapsto> m) else ms)"

definition MakeService :: "string \<Rightarrow> ('a, 's, 'r) rmethod list \<Rightarrow> ('a, 's, 'r) Service" where
  "MakeService typname typmethods =
     \<lparr>svc_name = typname, svc_methods = collect_methods typmethods Map.empty\<rparr>"

text \<open>
  \<open>decode\<close> gives the argument a handler sees for the bytes sent, the error of the gob decoder being
  ignored as it is in the code; \<open>encode\<close> gives the bytes of the reply.
\<close>

definition Service_dispatch ::
    "(string \<Rightarrow> gbytes \<Rightarrow> 'a) \<Rightarrow> ('r \<Rightarrow> gbytes) \<Rightarrow> ('a, 's, 'r) Service \<Rightarrow> string \<Rightarrow> reqMsg \<Rightarrow> 's \<Rightarrow>
     ('s \<times> replyMsg) go" where
  "Service_dispatch decode encode svc methname req s =
     (case svc_methods svc methname of
        None \<Rightarrow> Inl (LogFatal ''labrpc.Service.dispatch(): unknown method'')
      | Some method \<Rightarrow>
          let args = decode (rq_argsType req) (rq_args req);
              (s1, replyv) = m_func method args s
          in Inr (s1, \<lparr>rp_ok = True, rp_reply = encode replyv\<rparr>))"

text \<open>\<^verbatim>\<open>strings.LastIndex\<close> of a one-character string.\<close>

fun LastIndex :: "string \<Rightarrow> char \<Rightarrow> int" where
  "LastIndex [] c = -1"
| "LastIndex (x # xs) c =
     (let i = LastIndex xs c in if 0 \<le> i then i + 1 else if x = c then 0 else -1)"

definition split_svcMeth :: "string \<Rightarrow> (string \<times> string) go" where
  "split_svcMeth svcMeth =
     (let dot = LastIndex svcMeth (CHR ''.'')
      in if dot < 0 then Inl SliceBounds
         else Inr (take (nat dot) svcMeth, drop (nat (dot + 1)) svcMeth))"

definition Server_dispatch ::
    "(string \<Rightarrow> gbytes \<Rightarrow> 'a) \<Rightarrow> ('r \<Rightarrow> gbytes) \<Rightarrow> ('a, 's, 'r) Server \<Rightarrow> reqMsg \<Rightarrow> 's \<Rightarrow>
     (('a, 's, 'r) Server \<times> 's \<times> replyMsg) go" where
  "Server_dispatch decode encode rs req s =
     (let rs1 = rs\<lparr>srv_count := srv_count rs + 1\<rparr>
      in go_bind (split_svcMeth (rq_svcMeth req)) (\<lambda>(serviceName, methodName).
           case services rs1 serviceName of
             None \<Rightarrow> Inl (LogFatal ''labrpc.Server.dispatch(): unknown service'')
           | Some service \<Rightarrow>
               go_bind (Service_dispatch decode encode service methodName req s)
                 (\<lambda>(s1, reply). Inr (rs1, s1, reply))))"

section \<open>Calls of a client end\<close>

text \<open>
  \<^verbatim>\<open>ClientEnd.Call\<close> in two parts, before and after the wait for the reply. \<open>enc\<close> and \<open>dec\<close> are the gob
  coders, None for an error.
\<close>

definition Call_request ::
    "('v \<Rightarrow> gbytes option) \<Rightarrow> ClientEnd \<Rightarrow> string \<Rightarrow> string \<Rightarrow> 'v \<Rightarrow> reqMsg go" where
  "Call_request enc e svcMeth argsType args =
     (case enc args of
        None \<Rightarrow> Inl (Panic ''encode'')
      | Some bs \<Rightarrow> Inr \<lparr>rq_endname = ce_endname e, rq_svcMeth = svcMeth,
                        rq_argsType = argsType, rq_args = bs\<rparr>)"

definition Call_finish :: "(gbytes \<Rightarrow> 'w option) \<Rightarrow> replyMsg \<Rightarrow> 'w option go" where
  "Call_finish dec rep =
     (if rp_ok rep
      then (case dec (rp_reply rep) of
              None \<Rightarrow> Inl (LogFatal ''ClientEnd.Call(): decode reply'')
            | Some v \<Rightarrow> Inr (Some v))
      else Inr None)"

section \<open>Request processing\<close>

text \<open>
  What \<^verbatim>\<open>processReq\<close> remembers of \<^verbatim>\<open>readEndnameInfo\<close>, where it stands, and where the goroutine that
  runs the handler stands: not started, about to run, holding a reply for the channel \<^verbatim>\<open>ech\<close>, or
  finished with the reply received.
\<close>

record pinfo =
  pi_servername :: gname
  pi_server :: nat
  pi_reliable :: bool
  pi_longreordering :: bool

datatype ppc =
    PStart
  | PWait pinfo
  | PEnd pinfo "replyMsg option"
  | PLate replyMsg
  | PTimeout
  | POver

datatype hstate = HNone | HReady nat | HSent replyMsg | HTaken replyMsg

record proc =
  pr_req :: reqMsg
  pr_pc :: ppc
  pr_handler :: hstate

text \<open>Up to the start of the handler; \<open>r\<close> is the draw that may drop the request.\<close>

definition processReq_begin :: "nat \<Rightarrow> Network \<Rightarrow> reqMsg \<Rightarrow> ppc \<times> hstate \<times> replyMsg option" where
  "processReq_begin r rn req =
     (case readEndnameInfo rn (rq_endname req) of
        (True, Some servername, Some server, rel, lr) \<Rightarrow>
          if \<not> rel \<and> r mod 1000 < 100 then (POver, HNone, Some noReply)
          else (PWait \<lparr>pi_servername = servername, pi_server = server,
                       pi_reliable = rel, pi_longreordering = lr\<rparr>, HReady server, None)
      | _ \<Rightarrow> (PTimeout, HNone, None))"

text \<open>One turn of the wait loop when the timer fires, and when the handler's reply arrives.\<close>

definition processReq_tick :: "Network \<Rightarrow> reqMsg \<Rightarrow> pinfo \<Rightarrow> ppc" where
  "processReq_tick rn req i =
     (if isServerDead rn (rq_endname req) (pi_servername i) (pi_server i) then PEnd i None else PWait i)"

definition processReq_receive :: "pinfo \<Rightarrow> hstate \<Rightarrow> ppc \<times> hstate" where
  "processReq_receive i h =
     (case h of HSent reply \<Rightarrow> (PEnd i (Some reply), HTaken reply) | _ \<Rightarrow> (PWait i, h))"

text \<open>After the loop; \<open>r1\<close> and \<open>r2\<close> are the draws that may drop or delay the reply.\<close>

definition processReq_end ::
    "nat \<Rightarrow> nat \<Rightarrow> Network \<Rightarrow> reqMsg \<Rightarrow> pinfo \<Rightarrow> replyMsg option \<Rightarrow> Network \<times> ppc \<times> replyMsg option" where
  "processReq_end r1 r2 rn req i received =
     (let serverDead = isServerDead rn (rq_endname req) (pi_servername i) (pi_server i)
      in case received of
           None \<Rightarrow> (rn, POver, Some noReply)
         | Some reply \<Rightarrow>
             if serverDead then (rn, POver, Some noReply)
             else if \<not> pi_reliable i \<and> r1 mod 1000 < 100 then (rn, POver, Some noReply)
             else if pi_longreordering i \<and> r2 mod 900 < 600 then (rn, PLate reply, None)
             else (AddBytes (rp_reply reply) rn, POver, Some reply))"

section \<open>Schedules\<close>

datatype net_op =
    OpReliable bool
  | OpLongReordering bool
  | OpLongDelays bool
  | OpMakeEnd gname
  | OpDeleteEnd gname
  | OpAddServer gname nat
  | OpDeleteServer gname
  | OpConnect gname gname
  | OpEnable gname bool
  | OpCleanup

fun net_apply :: "net_op \<Rightarrow> Network \<Rightarrow> Network go" where
  "net_apply (OpReliable b) rn = Inr (Reliable b rn)"
| "net_apply (OpLongReordering b) rn = Inr (LongReordering b rn)"
| "net_apply (OpLongDelays b) rn = Inr (LongDelays b rn)"
| "net_apply (OpMakeEnd e) rn = go_bind (MakeEnd e rn) (\<lambda>(rn1, _). Inr rn1)"
| "net_apply (OpDeleteEnd e) rn = DeleteEnd e rn"
| "net_apply (OpAddServer s a) rn = Inr (AddServer s a rn)"
| "net_apply (OpDeleteServer s) rn = Inr (DeleteServer s rn)"
| "net_apply (OpConnect e s) rn = Inr (Connect e s rn)"
| "net_apply (OpEnable e b) rn = Inr (Enable e b rn)"
| "net_apply OpCleanup rn = Cleanup rn"

record ('a, 's, 'r) lab =
  l_net :: Network
  l_heap :: "('a, 's, 'r) Server list"
  l_app :: 's
  l_procs :: "proc list"
  l_running :: bool

datatype lab_act =
    Net net_op
  | NetExit
  | Accept reqMsg
  | Begin nat nat
  | Handle nat
  | Tick nat
  | Receive nat
  | End nat nat nat
  | Fire nat

datatype lab_out =
    Silent
  | Accepted reqMsg
  | Ran nat replyMsg
  | Replied nat replyMsg

definition reply_out :: "nat \<Rightarrow> replyMsg option \<Rightarrow> lab_out" where
  "reply_out i m = (case m of None \<Rightarrow> Silent | Some r \<Rightarrow> Replied i r)"

text \<open>
  \<open>Net\<close> is a call of another goroutine on the network, \<open>NetExit\<close> and \<open>Accept\<close> are the two branches of
  the network goroutine, the rest are steps of request \<open>i\<close>: \<open>Fire\<close> is a delayed reply.
\<close>

definition lab_step_proc ::
    "(string \<Rightarrow> gbytes \<Rightarrow> 'a) \<Rightarrow> ('r \<Rightarrow> gbytes) \<Rightarrow> ('a, 's, 'r) lab \<Rightarrow> nat \<Rightarrow> proc \<Rightarrow> lab_act \<Rightarrow>
     (('a, 's, 'r) lab \<times> proc \<times> lab_out) go" where
  "lab_step_proc decode encode L i p act =
     (case act of
        Begin _ r \<Rightarrow>
          (case pr_pc p of
             PStart \<Rightarrow>
               let (pc, h, m) = processReq_begin r (l_net L) (pr_req p)
               in Inr (L, p\<lparr>pr_pc := pc, pr_handler := h\<rparr>, reply_out i m)
           | _ \<Rightarrow> Inr (L, p, Silent))
      | Tick _ \<Rightarrow>
          (case pr_pc p of
             PWait pin \<Rightarrow> Inr (L, p\<lparr>pr_pc := processReq_tick (l_net L) (pr_req p) pin\<rparr>, Silent)
           | _ \<Rightarrow> Inr (L, p, Silent))
      | Receive _ \<Rightarrow>
          (case pr_pc p of
             PWait pin \<Rightarrow>
               let (pc, h) = processReq_receive pin (pr_handler p)
               in Inr (L, p\<lparr>pr_pc := pc, pr_handler := h\<rparr>, Silent)
           | _ \<Rightarrow> Inr (L, p, Silent))
      | End _ r1 r2 \<Rightarrow>
          (case pr_pc p of
             PEnd pin received \<Rightarrow>
               let (rn, pc, m) = processReq_end r1 r2 (l_net L) (pr_req p) pin received
               in Inr (L\<lparr>l_net := rn\<rparr>, p\<lparr>pr_pc := pc\<rparr>, reply_out i m)
           | _ \<Rightarrow> Inr (L, p, Silent))
      | Fire _ \<Rightarrow>
          (case pr_pc p of
             PLate reply \<Rightarrow>
               Inr (L\<lparr>l_net := AddBytes (rp_reply reply) (l_net L)\<rparr>, p\<lparr>pr_pc := POver\<rparr>, Replied i reply)
           | PTimeout \<Rightarrow> Inr (L, p\<lparr>pr_pc := POver\<rparr>, Replied i noReply)
           | _ \<Rightarrow> Inr (L, p, Silent))
      | Handle _ \<Rightarrow>
          (case pr_handler p of
             HReady a \<Rightarrow>
               go_bind (go_nth (l_heap L) (int a)) (\<lambda>rs.
               go_bind (Server_dispatch decode encode rs (pr_req p) (l_app L)) (\<lambda>(rs1, s1, reply).
                 Inr (L\<lparr>l_heap := (l_heap L)[a := rs1], l_app := s1\<rparr>,
                      p\<lparr>pr_handler := HSent reply\<rparr>, Ran i reply)))
           | _ \<Rightarrow> Inr (L, p, Silent))
      | _ \<Rightarrow> Inr (L, p, Silent))"

definition act_proc :: "lab_act \<Rightarrow> nat" where
  "act_proc act = (case act of Begin i _ \<Rightarrow> i | Handle i \<Rightarrow> i | Tick i \<Rightarrow> i | Receive i \<Rightarrow> i
     | End i _ _ \<Rightarrow> i | Fire i \<Rightarrow> i | _ \<Rightarrow> 0)"

definition lab_exec ::
    "(string \<Rightarrow> gbytes \<Rightarrow> 'a) \<Rightarrow> ('r \<Rightarrow> gbytes) \<Rightarrow> ('a, 's, 'r) lab \<Rightarrow> lab_act \<Rightarrow>
     (('a, 's, 'r) lab \<times> lab_out) go" where
  "lab_exec decode encode L act =
     (case act of
        Net nop \<Rightarrow> go_bind (net_apply nop (l_net L)) (\<lambda>rn. Inr (L\<lparr>l_net := rn\<rparr>, Silent))
      | NetExit \<Rightarrow> Inr (if net_done (l_net L) then L\<lparr>l_running := False\<rparr> else L, Silent)
      | Accept req \<Rightarrow>
          if l_running L
          then Inr (L\<lparr>l_net := accept_request req (l_net L),
                      l_procs := l_procs L @ [\<lparr>pr_req = req, pr_pc = PStart, pr_handler = HNone\<rparr>]\<rparr>,
                    Accepted req)
          else Inr (L, Silent)
      | _ \<Rightarrow>
          let i = act_proc act
          in if i < length (l_procs L)
             then go_bind (lab_step_proc decode encode L i (l_procs L ! i) act) (\<lambda>(L1, p, out).
                    Inr (L1\<lparr>l_procs := (l_procs L1)[i := p]\<rparr>, out))
             else Inr (L, Silent))"


section \<open>What a schedule puts out\<close>

fun ran_of :: "nat \<Rightarrow> lab_out list \<Rightarrow> replyMsg list" where
  "ran_of i [] = []"
| "ran_of i (Ran j r # os) = (if j = i then r # ran_of i os else ran_of i os)"
| "ran_of i (_ # os) = ran_of i os"

fun replied_of :: "nat \<Rightarrow> lab_out list \<Rightarrow> replyMsg list" where
  "replied_of i [] = []"
| "replied_of i (Replied j r # os) = (if j = i then r # replied_of i os else replied_of i os)"
| "replied_of i (_ # os) = replied_of i os"

lemma ran_of_append [simp]: "ran_of i (os @ os') = ran_of i os @ ran_of i os'"
  by (induction i os rule: ran_of.induct) auto

lemma replied_of_append [simp]: "replied_of i (os @ os') = replied_of i os @ replied_of i os'"
  by (induction i os rule: replied_of.induct) auto

fun out_proc :: "lab_out \<Rightarrow> nat option" where
  "out_proc (Ran i r) = Some i"
| "out_proc (Replied i r) = Some i"
| "out_proc _ = None"

lemma out_proc_other [simp]:
  "out_proc out \<noteq> Some i \<Longrightarrow> ran_of i [out] = []"
  "out_proc out \<noteq> Some i \<Longrightarrow> replied_of i [out] = []"
  by (cases out; simp)+

text \<open>The steps of one request, by the code they run.\<close>

lemma lab_step_proc_elim:
  assumes "lab_step_proc decode encode L i p act = Inr (L1, p', out)"
  obtains (idle) "L1 = L" and "p' = p" and "out = Silent"
  | (starts) r pc h m where "act = Begin (act_proc act) r" and "pr_pc p = PStart"
      and "processReq_begin r (l_net L) (pr_req p) = (pc, h, m)"
      and "L1 = L" and "p' = p\<lparr>pr_pc := pc, pr_handler := h\<rparr>" and "out = reply_out i m"
  | (tick) pin where "pr_pc p = PWait pin"
      and "L1 = L" and "p' = p\<lparr>pr_pc := processReq_tick (l_net L) (pr_req p) pin\<rparr>" and "out = Silent"
  | (receive) pin reply where "pr_pc p = PWait pin" and "pr_handler p = HSent reply"
      and "L1 = L" and "p' = p\<lparr>pr_pc := PEnd pin (Some reply), pr_handler := HTaken reply\<rparr>" and "out = Silent"
  | (finish) r1 r2 pin received rn pc m where "pr_pc p = PEnd pin received"
      and "processReq_end r1 r2 (l_net L) (pr_req p) pin received = (rn, pc, m)"
      and "L1 = L\<lparr>l_net := rn\<rparr>" and "p' = p\<lparr>pr_pc := pc\<rparr>" and "out = reply_out i m"
  | (late) reply where "pr_pc p = PLate reply"
      and "L1 = L\<lparr>l_net := AddBytes (rp_reply reply) (l_net L)\<rparr>" and "p' = p\<lparr>pr_pc := POver\<rparr>"
      and "out = Replied i reply"
  | (timeout) "pr_pc p = PTimeout" and "L1 = L" and "p' = p\<lparr>pr_pc := POver\<rparr>" and "out = Replied i noReply"
  | (handle) a rs rs1 s1 reply where "pr_handler p = HReady a"
      and "Server_dispatch decode encode rs (pr_req p) (l_app L) = Inr (rs1, s1, reply)"
      and "L1 = L\<lparr>l_heap := (l_heap L)[a := rs1], l_app := s1\<rparr>" and "p' = p\<lparr>pr_handler := HSent reply\<rparr>"
      and "out = Ran i reply"
proof (cases act)
  case (Receive j)
  show thesis
  proof (cases "\<exists>pin reply. pr_pc p = PWait pin \<and> pr_handler p = HSent reply")
    case True
    then obtain pin reply where "pr_pc p = PWait pin" and "pr_handler p = HSent reply" by blast
    with assms Receive show thesis
      by (intro receive) (auto simp: lab_step_proc_def processReq_receive_def)
  next
    case False
    with assms Receive have "L1 = L \<and> p' = p \<and> out = Silent"
      by (cases p) (auto simp: lab_step_proc_def processReq_receive_def split: ppc.splits hstate.splits)
    then show thesis by (intro idle) simp_all
  qed
next
  case (Handle j)
  show thesis
  proof (cases "pr_handler p")
    case (HReady a)
    with assms Handle obtain rs rs1 s1 reply
      where "Server_dispatch decode encode rs (pr_req p) (l_app L) = Inr (rs1, s1, reply)"
        and "L1 = L\<lparr>l_heap := (l_heap L)[a := rs1], l_app := s1\<rparr>"
        and "p' = p\<lparr>pr_handler := HSent reply\<rparr>" and "out = Ran i reply"
      by (auto simp: lab_step_proc_def go_bind_Inr)
    with HReady show thesis by (rule handle)
  qed (rule idle; use assms Handle in \<open>simp add: lab_step_proc_def\<close>)+
next
  case (Begin j r)
  show thesis
  proof (cases "pr_pc p = PStart")
    case True
    with assms Begin show thesis
      by (cases "processReq_begin r (l_net L) (pr_req p)")
        (intro starts, auto simp: lab_step_proc_def act_proc_def)
  next
    case False
    with assms Begin show thesis by (intro idle) (auto simp: lab_step_proc_def split: ppc.splits)
  qed
next
  case (End j r1 r2)
  show thesis
  proof (cases "\<exists>pin received. pr_pc p = PEnd pin received")
    case True
    then obtain pin received where pc: "pr_pc p = PEnd pin received" by blast
    obtain rn pc' m where "processReq_end r1 r2 (l_net L) (pr_req p) pin received = (rn, pc', m)"
      by (cases "processReq_end r1 r2 (l_net L) (pr_req p) pin received")
    with assms End pc show thesis
      by (intro finish) (auto simp: lab_step_proc_def)
  next
    case False
    with assms End show thesis by (intro idle) (auto simp: lab_step_proc_def split: ppc.splits)
  qed
next
  case (Fire j)
  show thesis
  proof (cases "pr_pc p")
    case (PLate reply)
    with assms Fire show thesis by (intro late) (auto simp: lab_step_proc_def)
  next
    case PTimeout
    with assms Fire show thesis by (intro timeout) (auto simp: lab_step_proc_def)
  qed (rule idle; use assms Fire in \<open>simp add: lab_step_proc_def\<close>)+
next
  case (Tick j)
  show thesis
  proof (cases "pr_pc p")
    case (PWait pin)
    with assms Tick show thesis by (intro tick) (auto simp: lab_step_proc_def)
  qed (rule idle; use assms Tick in \<open>simp add: lab_step_proc_def\<close>)+
next
  case (Net nop)
  with assms show thesis by (intro idle) (simp_all add: lab_step_proc_def)
next
  case NetExit
  with assms show thesis by (intro idle) (simp_all add: lab_step_proc_def)
next
  case (Accept req)
  with assms show thesis by (intro idle) (simp_all add: lab_step_proc_def)
qed

lemma reply_out_proc [simp]: "out_proc (reply_out i m) = (case m of None \<Rightarrow> None | Some _ \<Rightarrow> Some i)"
  by (simp add: reply_out_def split: option.splits)

lemma reply_out_lists [simp]:
  "ran_of j [reply_out i m] = []"
  "replied_of i [reply_out i m] = (case m of None \<Rightarrow> [] | Some r \<Rightarrow> [r])"
  by (simp_all add: reply_out_def split: option.splits)

lemma processReq_begin_elim:
  assumes "processReq_begin r rn req = (pc, h, m)"
  obtains (dropped) "pc = POver" and "h = HNone" and "m = Some noReply"
  | (started) pin where "pc = PWait pin" and "h = HReady (pi_server pin)" and "m = None"
      and "\<not> isServerDead rn (rq_endname req) (pi_servername pin) (pi_server pin)"
  | (nobody) "pc = PTimeout" and "h = HNone" and "m = None"
  using assms
  by (fastforce simp: processReq_begin_def readEndnameInfo_def isServerDead_def Let_def
      split: prod.splits bool.splits option.splits if_splits)

lemma processReq_end_elim:
  assumes "processReq_end r1 r2 rn req pin received = (rn', pc, m)"
  obtains (failed) "pc = POver" and "m = Some noReply" and "rn' = rn"
  | (delayed) reply where "received = Some reply" and "pc = PLate reply" and "m = None" and "rn' = rn"
      and "\<not> isServerDead rn (rq_endname req) (pi_servername pin) (pi_server pin)"
  | (sent) reply where "received = Some reply" and "pc = POver" and "m = Some reply"
      and "rn' = AddBytes (rp_reply reply) rn"
      and "\<not> isServerDead rn (rq_endname req) (pi_servername pin) (pi_server pin)"
  using assms
  by (auto simp: processReq_end_def Let_def split: option.splits if_splits)

lemma lab_exec_elim:
  assumes "lab_exec decode encode L act = Inr (L', out)"
  obtains (other) "l_procs L' = l_procs L" and "out = Silent"
  | (accept) req where "out = Accepted req"
      and "l_procs L' = l_procs L @ [\<lparr>pr_req = req, pr_pc = PStart, pr_handler = HNone\<rparr>]"
  | (step) i p L1 where "i = act_proc act" and "i < length (l_procs L)"
      and "lab_step_proc decode encode L i (l_procs L ! i) act = Inr (L1, p, out)"
      and "l_procs L1 = l_procs L" and "l_procs L' = (l_procs L)[i := p]" and "l_net L' = l_net L1"
proof -
  have keep: "l_procs L1 = l_procs L"
    if "lab_step_proc decode encode L i q act = Inr (L1, p, out)" for i q L1 p
    using that by (cases rule: lab_step_proc_elim) simp_all
  show thesis
  proof (cases "(\<exists>nop. act = Net nop) \<or> act = NetExit \<or> (\<exists>req. act = Accept req)")
    case True
    with assms have "l_procs L' = l_procs L \<and> out = Silent \<or> (\<exists>req. out = Accepted req \<and>
        l_procs L' = l_procs L @ [\<lparr>pr_req = req, pr_pc = PStart, pr_handler = HNone\<rparr>])"
      by (auto simp: lab_exec_def go_bind_Inr split: if_splits)
    with other accept show thesis by blast
  next
    case False
    then have exec: "lab_exec decode encode L act =
        (if act_proc act < length (l_procs L)
         then go_bind (lab_step_proc decode encode L (act_proc act) (l_procs L ! act_proc act) act)
                (\<lambda>(L1, p, out). Inr (L1\<lparr>l_procs := (l_procs L1)[act_proc act := p]\<rparr>, out))
         else Inr (L, Silent))"
      by (cases act) (simp_all add: lab_exec_def Let_def)
    show thesis
    proof (cases "act_proc act < length (l_procs L)")
      case True
      with assms exec obtain L1 p
        where "lab_step_proc decode encode L (act_proc act) (l_procs L ! act_proc act) act = Inr (L1, p, out)"
          and "L' = L1\<lparr>l_procs := (l_procs L1)[act_proc act := p]\<rparr>"
        by (auto simp: go_bind_Inr)
      with True keep show thesis by (intro step [of "act_proc act" L1 p]) auto
    next
      case False
      with assms exec show thesis by (intro other) auto
    qed
  qed
qed

lemma lab_step_proc_out:
  "lab_step_proc decode encode L i p act = Inr (L1, p', out) \<Longrightarrow> out_proc out = None \<or> out_proc out = Some i"
  by (cases rule: lab_step_proc_elim, assumption) (auto split: option.splits)

text \<open>What is known of a request from where its goroutines stand.\<close>

definition proc_ok :: "proc \<Rightarrow> replyMsg list \<Rightarrow> replyMsg list \<Rightarrow> bool" where
  "proc_ok p rans reps \<longleftrightarrow>
     (case pr_handler p of HNone \<Rightarrow> rans = [] | HReady _ \<Rightarrow> rans = [] | HSent r \<Rightarrow> rans = [r] | HTaken r \<Rightarrow> rans = [r]) \<and>
     (case pr_pc p of
        PStart \<Rightarrow> reps = []
      | PWait _ \<Rightarrow> reps = []
      | PEnd _ None \<Rightarrow> reps = []
      | PEnd _ (Some r) \<Rightarrow> reps = [] \<and> pr_handler p = HTaken r
      | PLate r \<Rightarrow> reps = [] \<and> pr_handler p = HTaken r
      | PTimeout \<Rightarrow> reps = []
      | POver \<Rightarrow> (\<exists>m. reps = [m] \<and> (rp_ok m \<longrightarrow> pr_handler p = HTaken m))) \<and>
     (pr_pc p = PStart \<longrightarrow> pr_handler p = HNone)"

lemma proc_ok_step:
  assumes "proc_ok p rans reps" and "lab_step_proc decode encode L i p act = Inr (L1, p', out)"
  shows "proc_ok p' (rans @ ran_of i [out]) (reps @ replied_of i [out])"
  using assms(2)
proof (cases rule: lab_step_proc_elim)
  case (starts r pc h m)
  from starts(3) show ?thesis
    by (cases rule: processReq_begin_elim) (use assms(1) starts in \<open>auto simp: proc_ok_def noReply_def\<close>)
next
  case (finish r1 r2 pin received rn pc m)
  from finish(2) show ?thesis
    by (cases rule: processReq_end_elim)
      (use assms(1) finish in \<open>auto simp: proc_ok_def noReply_def split: option.splits\<close>)
next
  case (handle a rs rs1 s1 reply)
  with assms(1) show ?thesis by (auto simp: proc_ok_def split: ppc.splits option.splits)
qed (use assms(1) in \<open>auto simp: proc_ok_def processReq_tick_def noReply_def\<close>)

lemma proc_ok_bounds:
  "proc_ok p rans reps \<Longrightarrow>
     length rans \<le> 1 \<and> length reps \<le> 1 \<and> (\<forall>m \<in> set reps. rp_ok m \<longrightarrow> rans = [m])"
  by (cases "pr_handler p"; cases "pr_pc p") (auto simp: proc_ok_def split: option.splits)

definition lab_hist :: "('a, 's, 'r) lab \<Rightarrow> lab_out list \<Rightarrow> bool" where
  "lab_hist L os \<longleftrightarrow>
     (\<forall>i. if i < length (l_procs L) then proc_ok (l_procs L ! i) (ran_of i os) (replied_of i os)
          else ran_of i os = [] \<and> replied_of i os = [])"

lemma lab_exec_hist:
  assumes "lab_hist L h" and "lab_exec decode encode L act = Inr (L', out)"
  shows "lab_hist L' (h @ [out])"
  using assms(2)
proof (cases rule: lab_exec_elim)
  case other
  with assms(1) show ?thesis by (simp add: lab_hist_def)
next
  case (accept req)
  moreover have "proc_ok \<lparr>pr_req = req, pr_pc = PStart, pr_handler = HNone\<rparr> [] []"
    by (simp add: proc_ok_def)
  moreover have "ran_of i [out] = []" and "replied_of i [out] = []" for i
    using accept(1) by simp_all
  ultimately show ?thesis using assms(1)
    by (auto simp: lab_hist_def nth_append less_Suc_eq split: if_splits)
next
  case (step i p L1)
  have "proc_ok p (ran_of i (h @ [out])) (replied_of i (h @ [out]))"
    using proc_ok_step [OF _ step(3), of "ran_of i h" "replied_of i h"] assms(1) step(2)
    by (simp add: lab_hist_def)
  moreover have "out_proc out \<noteq> Some j" if "j \<noteq> i" for j
    using lab_step_proc_out [OF step(3)] that by auto
  ultimately show ?thesis
    using assms(1) step by (auto simp: lab_hist_def nth_list_update)
qed

interpretation labh: go_history "lab_exec decode encode" lab_hist "\<lambda>_ _. True"
  for decode :: "string \<Rightarrow> gbytes \<Rightarrow> 'a" and encode :: "'r \<Rightarrow> gbytes"
  by unfold_locales (rule lab_exec_hist)

text \<open>
  C2: whatever the schedule, the reconfigurations of the network and the random drops and delays,
  the handler of a request runs at most once, the caller gets at most one reply, and a positive
  reply is the one the handler of that request returned.
\<close>

theorem rpc_at_most_once:
  assumes "l_procs L = []" and "go_run (lab_exec decode encode) L acts = Inr (L', os)"
  shows "length (ran_of i os) \<le> 1 \<and> length (replied_of i os) \<le> 1 \<and>
     (\<forall>m \<in> set (replied_of i os). rp_ok m \<longrightarrow> ran_of i os = [m])"
proof -
  have "lab_hist L []" using assms(1) by (simp add: lab_hist_def)
  from labh.run_hist [OF this _ assms(2)] have "lab_hist L' os" by simp
  then show ?thesis
    using proc_ok_bounds [of "l_procs L' ! i" "ran_of i os" "replied_of i os"]
    by (simp add: lab_hist_def) (metis empty_iff le0 list.set(1) list.size(3))
qed


text \<open>A server with one method that adds the number of argument bytes to a counter.\<close>

definition example_method :: "(nat, nat, nat) rmethod" where
  "example_method = \<lparr>m_name = ''Add'', m_pkgPath = [], m_numIn = 3, m_in2Ptr = True, m_numOut = 0,
     m_func = (\<lambda>a s. (s + a, s + a))\<rparr>"

definition example_lab :: "(nat, nat, nat) lab" where
  "example_lab =
     \<lparr>l_net = Enable (NStr ''e'') True (Connect (NStr ''e'') (NInt 0) (AddServer (NInt 0) 0 MakeNetwork)),
      l_heap = [AddService (MakeService ''KV'' [example_method]) MakeServer],
      l_app = 0, l_procs = [], l_running = True\<rparr>"

definition example_req :: reqMsg where
  "example_req = \<lparr>rq_endname = NStr ''e'', rq_svcMeth = ''KV.Add'', rq_argsType = ''Args'', rq_args = [1, 2]\<rparr>"

lemmas example_lab_defs = example_lab_def example_req_def example_method_def
  Enable_def Connect_def AddServer_def MakeNetwork_def AddService_def MakeService_def MakeServer_def
  suitable_method_def

lemmas lab_eval = lab_exec_def lab_step_proc_def act_proc_def processReq_begin_def processReq_tick_def
  processReq_receive_def processReq_end_def reply_out_def readEndnameInfo_def isServerDead_def
  enabled_at_def server_at_def connection_at_def Server_dispatch_def Service_dispatch_def
  split_svcMeth_def go_nth_def accept_request_def AddBytes_def Let_def

lemma rpc_at_most_once_witness:
  "\<exists>L' os. go_run (lab_exec (\<lambda>_. length) (\<lambda>r. replicate r 0)) example_lab
       [Accept example_req, Begin 0 0, Handle 0, Receive 0, End 0 0 0, End 0 0 0] = Inr (L', os) \<and>
     replied_of 0 os = [\<lparr>rp_ok = True, rp_reply = [0, 0]\<rparr>] \<and>
     ran_of 0 os = [\<lparr>rp_ok = True, rp_reply = [0, 0]\<rparr>]"
proof -
  obtain L' os where run: "go_run (lab_exec (\<lambda>_. length) (\<lambda>r. replicate r 0)) example_lab
       [Accept example_req, Begin 0 0, Handle 0, Receive 0, End 0 0 0, End 0 0 0] = Inr (L', os)"
    and replied: "replied_of 0 os = [\<lparr>rp_ok = True, rp_reply = [0, 0]\<rparr>]"
    by (simp add: lab_eval example_lab_defs numeral_2_eq_2)
  have "l_procs example_lab = []" by (simp add: example_lab_def)
  from rpc_at_most_once [OF this run, of 0] replied have "ran_of 0 os = [\<lparr>rp_ok = True, rp_reply = [0, 0]\<rparr>]"
    by simp
  with run replied show ?thesis by blast
qed

section \<open>Dead ends and killed servers\<close>

definition nowhere :: "nat \<Rightarrow> ('a, 's, 'r) lab \<Rightarrow> lab_out list \<Rightarrow> bool" where
  "nowhere i L os \<longleftrightarrow>
     i < length (l_procs L) \<and> pr_pc (l_procs L ! i) \<in> {PTimeout, POver} \<and>
     pr_handler (l_procs L ! i) = HNone \<and> ran_of i os = [] \<and> set (replied_of i os) \<subseteq> {noReply}"

lemma nowhere_exec:
  assumes "nowhere i L h" and "lab_exec decode encode L act = Inr (L', out)"
  shows "nowhere i L' (h @ [out])"
  using assms(2)
proof (cases rule: lab_exec_elim)
  case (step j p L1)
  show ?thesis
  proof (cases "j = i")
    case False
    then have "out_proc out \<noteq> Some i" using lab_step_proc_out [OF step(3)] by auto
    with False step assms(1) show ?thesis by (auto simp: nowhere_def)
  next
    case True
    from step(3) show ?thesis
      by (cases rule: lab_step_proc_elim) (use True step assms(1) in \<open>auto simp: nowhere_def\<close>)
  qed
qed (use assms(1) in \<open>auto simp: nowhere_def nth_append\<close>)

interpretation labn: go_history "lab_exec decode encode" "nowhere i" "\<lambda>_ _. True"
  for decode :: "string \<Rightarrow> gbytes \<Rightarrow> 'a" and encode :: "'r \<Rightarrow> gbytes" and i
  by unfold_locales (rule nowhere_exec)

text \<open>
  A request that is taken up while its end is disabled, unconnected, or connected to a name
  with no live server never reaches a handler, even if the network is repaired afterwards, and
  its caller is told of failure only.
\<close>

theorem dead_end_never_handled:
  assumes "i < length (l_procs L)" and "pr_pc (l_procs L ! i) = PStart"
    and "\<not> (\<exists>s a. enabled_at (l_net L) (rq_endname (pr_req (l_procs L ! i))) \<and>
              connection_at (l_net L) (rq_endname (pr_req (l_procs L ! i))) = Some s \<and>
              server_at (l_net L) s = Some a)"
    and "go_run (lab_exec decode encode) L (Begin i r # acts) = Inr (L', os)"
  shows "ran_of i os = [] \<and> set (replied_of i os) \<subseteq> {noReply}"
proof -
  from assms(3) have "processReq_begin r (l_net L) (pr_req (l_procs L ! i)) = (PTimeout, HNone, None)"
    by (auto simp: processReq_begin_def readEndnameInfo_def Let_def split: option.splits bool.splits)
  with assms(1,2) obtain L1 where first: "lab_exec decode encode L (Begin i r) = Inr (L1, Silent)"
    and "nowhere i L1 []"
    by (auto simp: lab_exec_def lab_step_proc_def act_proc_def reply_out_def nowhere_def Let_def)
  moreover from assms(4) first obtain os1
    where "go_run (lab_exec decode encode) L1 acts = Inr (L', os1)" and "os = Silent # os1"
    by (auto simp: go_bind_Inr)
  ultimately have "nowhere i L' os1" using labn.run_hist by fastforce
  with \<open>os = Silent # os1\<close> show ?thesis by (simp add: nowhere_def)
qed

lemma dead_end_never_handled_witness:
  "\<exists>L' os. go_run (lab_exec (\<lambda>_. length) (\<lambda>r. replicate r 0))
       (example_lab\<lparr>l_net := Enable (NStr ''e'') False (l_net example_lab),
          l_procs := [\<lparr>pr_req = example_req, pr_pc = PStart, pr_handler = HNone\<rparr>]\<rparr>)
       [Begin 0 0, Net (OpEnable (NStr ''e'') True), Handle 0, Fire 0] = Inr (L', os) \<and>
     ran_of 0 os = [] \<and> set (replied_of 0 os) \<subseteq> {noReply}"
proof -
  let ?L = "example_lab\<lparr>l_net := Enable (NStr ''e'') False (l_net example_lab),
          l_procs := [\<lparr>pr_req = example_req, pr_pc = PStart, pr_handler = HNone\<rparr>]\<rparr>"
  obtain L' os where run: "go_run (lab_exec (\<lambda>_. length) (\<lambda>r. replicate r 0)) ?L
       [Begin 0 0, Net (OpEnable (NStr ''e'') True), Handle 0, Fire 0] = Inr (L', os)"
    by (simp add: lab_eval example_lab_defs)
  have "ran_of 0 os = [] \<and> set (replied_of 0 os) \<subseteq> {noReply}"
    by (rule dead_end_never_handled [OF _ _ _ run]) (simp_all add: lab_eval example_lab_defs)
  with run show ?thesis by blast
qed

text \<open>
  A request that waits for the object \<open>a\<close>, which is no longer the server of the name \<open>s\<close>.
\<close>

definition orphaned :: "gname \<Rightarrow> nat \<Rightarrow> nat \<Rightarrow> ('a, 's, 'r) lab \<Rightarrow> lab_out list \<Rightarrow> bool" where
  "orphaned s a i L os \<longleftrightarrow>
     server_at (l_net L) s \<noteq> Some a \<and> i < length (l_procs L) \<and>
     (case pr_pc (l_procs L ! i) of
        PWait pin \<Rightarrow> pi_servername pin = s \<and> pi_server pin = a
      | PEnd pin _ \<Rightarrow> pi_servername pin = s \<and> pi_server pin = a
      | POver \<Rightarrow> True
      | _ \<Rightarrow> False) \<and>
     (\<forall>m \<in> set (replied_of i os). \<not> rp_ok m)"

lemma server_at_AddBytes [simp]: "server_at (AddBytes bs rn) s = server_at rn s"
  by (simp add: server_at_def AddBytes_def)

lemma server_at_accept [simp]: "server_at (accept_request req rn) s = server_at rn s"
  by (simp add: accept_request_def server_at_def AddBytes_def)

lemma net_apply_server:
  assumes "net_apply nop rn = Inr rn'" and "server_at rn s \<noteq> Some a" and "nop \<noteq> OpAddServer s a"
  shows "server_at rn' s \<noteq> Some a"
  using assms
  by (cases nop)
    (auto simp: server_at_def Reliable_def LongReordering_def LongDelays_def MakeEnd_def DeleteEnd_def
      AddServer_def DeleteServer_def Connect_def Enable_def Cleanup_def Let_def split: if_splits)

lemma lab_exec_server:
  assumes "lab_exec decode encode L act = Inr (L', out)" and "server_at (l_net L) s \<noteq> Some a"
    and "act \<noteq> Net (OpAddServer s a)"
  shows "server_at (l_net L') s \<noteq> Some a"
proof -
  have keep: "server_at (l_net L1) s = server_at (l_net L) s"
    if "lab_step_proc decode encode L i q act = Inr (L1, p, out)" for i q L1 p
    using that
  proof (cases rule: lab_step_proc_elim)
    case (finish r1 r2 pin received rn pc m)
    from finish(2) show ?thesis by (cases rule: processReq_end_elim) (use finish in auto)
  qed simp_all
  show ?thesis
    using assms net_apply_server
    by (cases act) (auto simp: lab_exec_def go_bind_Inr Let_def keep split: if_splits)
qed

lemma orphaned_exec:
  assumes "orphaned s a i L h" and "act \<noteq> Net (OpAddServer s a)"
    and exec: "lab_exec decode encode L act = Inr (L', out)"
  shows "orphaned s a i L' (h @ [out])"
proof -
  have srv: "server_at (l_net L') s \<noteq> Some a"
    using lab_exec_server [OF exec] assms by (simp add: orphaned_def)
  from exec show ?thesis
  proof (cases rule: lab_exec_elim)
    case (step j p L1)
    show ?thesis
    proof (cases "j = i")
      case False
      then have "out_proc out \<noteq> Some i" using lab_step_proc_out [OF step(3)] by auto
      with False step assms(1) srv show ?thesis by (simp add: orphaned_def)
    next
      case True
      from step(3) show ?thesis
      proof (cases rule: lab_step_proc_elim)
        case (finish r1 r2 pin received rn pc m)
        then have "isServerDead (l_net L) (rq_endname (pr_req (l_procs L ! j))) (pi_servername pin) (pi_server pin)"
          using assms(1) True by (simp add: orphaned_def isServerDead_def)
        with finish(2) have "pc = POver" and "m = Some noReply"
          by (auto elim: processReq_end_elim)
        with finish True step assms(1) srv show ?thesis by (simp add: orphaned_def noReply_def)
      qed (use True step assms(1) srv in \<open>auto simp: orphaned_def processReq_tick_def split: ppc.splits\<close>)
    qed
  qed (use assms(1) srv in \<open>auto simp: orphaned_def nth_append\<close>)
qed

interpretation labo: go_history "lab_exec decode encode" "orphaned s a i" "\<lambda>_ act. act \<noteq> Net (OpAddServer s a)"
  for decode :: "string \<Rightarrow> gbytes \<Rightarrow> 'a" and encode :: "'r \<Rightarrow> gbytes" and s a i
  by unfold_locales (rule orphaned_exec)

text \<open>
  C10: once a server has been deleted, a request that was waiting for it gets no positive reply,
  even if its handler has already run or runs later; so a client never sees the success of an
  operation that only the killed instance persisted. The same server object must not be added
  under that name again.
\<close>

theorem deleted_server_sends_no_success:
  assumes "i < length (l_procs L)" and "pr_pc (l_procs L ! i) = PWait pin"
    and "Net (OpAddServer (pi_servername pin) (pi_server pin)) \<notin> set acts"
    and "go_run (lab_exec decode encode) L (Net (OpDeleteServer (pi_servername pin)) # acts) = Inr (L', os)"
  shows "\<forall>m \<in> set (replied_of i os). \<not> rp_ok m"
proof -
  let ?L1 = "L\<lparr>l_net := DeleteServer (pi_servername pin) (l_net L)\<rparr>"
  from assms(4) obtain os1 where run: "go_run (lab_exec decode encode) ?L1 acts = Inr (L', os1)"
    and os: "os = Silent # os1"
    by (auto simp: go_bind_Inr lab_exec_def)
  have "orphaned (pi_servername pin) (pi_server pin) i ?L1 []"
    using assms(1,2) by (simp add: orphaned_def server_at_def DeleteServer_def)
  moreover have "go_allowed (lab_exec decode encode)
      (\<lambda>_ act. act \<noteq> Net (OpAddServer (pi_servername pin) (pi_server pin))) ?L1 acts"
    using assms(3) by (intro go_allowed_static) auto
  ultimately have "orphaned (pi_servername pin) (pi_server pin) i L' os1"
    using run by (rule labo.run_hist)
  with os show ?thesis by (simp add: orphaned_def)
qed


lemma deleted_server_sends_no_success_witness:
  "\<exists>L' os. go_run (lab_exec (\<lambda>_. length) (\<lambda>r. replicate r 0))
       (example_lab\<lparr>l_procs := [\<lparr>pr_req = example_req,
          pr_pc = PWait \<lparr>pi_servername = NInt 0, pi_server = 0, pi_reliable = True, pi_longreordering = False\<rparr>,
          pr_handler = HReady 0\<rparr>]\<rparr>)
       [Net (OpDeleteServer (NInt 0)), Handle 0, Receive 0, Net (OpAddServer (NInt 0) 1), End 0 0 0] = Inr (L', os) \<and>
     replied_of 0 os = [noReply] \<and> \<not> rp_ok (hd (replied_of 0 os))"
proof -
  let ?pin = "\<lparr>pi_servername = NInt 0, pi_server = 0, pi_reliable = True, pi_longreordering = False\<rparr>"
  let ?L = "example_lab\<lparr>l_procs := [\<lparr>pr_req = example_req, pr_pc = PWait ?pin, pr_handler = HReady 0\<rparr>]\<rparr>"
  obtain L' os where run: "go_run (lab_exec (\<lambda>_. length) (\<lambda>r. replicate r 0)) ?L
       [Net (OpDeleteServer (NInt 0)), Handle 0, Receive 0, Net (OpAddServer (NInt 0) 1), End 0 0 0] = Inr (L', os)"
    and replied: "replied_of 0 os = [noReply]"
    by (simp add: lab_eval example_lab_defs DeleteServer_def)
  have "\<forall>m \<in> set (replied_of 0 os). \<not> rp_ok m"
    by (rule deleted_server_sends_no_success [where pin = ?pin and L = ?L and i = 0 and
          acts = "[Handle 0, Receive 0, Net (OpAddServer (NInt 0) 1), End 0 0 0]" and
          decode = "\<lambda>_. length" and encode = "\<lambda>r. replicate r 0" and L' = L'])
      (simp_all only: run pinfo.select_convs, simp_all)
  with replied have "\<not> rp_ok (hd (replied_of 0 os))" by simp
  with run replied show ?thesis by blast
qed

section \<open>Method names\<close>

lemma LastIndex_none: "c \<notin> set xs \<Longrightarrow> LastIndex xs c = -1"
  by (induction xs) auto

lemma LastIndex_append: "c \<notin> set ys \<Longrightarrow> LastIndex (xs @ c # ys) c = int (length xs)"
  by (induction xs) (auto simp: LastIndex_none)

lemma split_svcMeth_dot:
  assumes "CHR ''.'' \<notin> set meth"
  shows "split_svcMeth (svc @ ''.'' @ meth) = Inr (svc, meth)"
proof -
  have "LastIndex (svc @ ''.'' @ meth) (CHR ''.'') = int (length svc)"
    using LastIndex_append [OF assms, of svc] by simp
  then show ?thesis by (simp add: split_svcMeth_def nat_add_distrib)
qed

text \<open>
  A method name is split at its last dot: a service name, dots included, and a method name
  without dots come back from their concatenation, and a name without a dot panics.
\<close>

theorem svcMeth_round_trip:
  assumes "CHR ''.'' \<notin> set meth"
  shows "split_svcMeth (svc @ ''.'' @ meth) = Inr (svc, meth) \<and> split_svcMeth meth = Inl SliceBounds"
  using split_svcMeth_dot [OF assms] LastIndex_none [OF assms] by (simp add: split_svcMeth_def)

lemma svcMeth_round_trip_witness:
  "split_svcMeth (''a.Raft'' @ ''.'' @ ''AppendEntries'') = Inr (''a.Raft'', ''AppendEntries'') \<and>
   split_svcMeth ''AppendEntries'' = Inl SliceBounds"
  by (rule svcMeth_round_trip) simp

section \<open>Delivery\<close>

text \<open>
  On a reliable network without long reordering, a request from an enabled end that is
  connected to a live server with the service and method it names is answered: taking it up,
  running its handler, receiving and forwarding the reply gives the caller the encoding of what
  the method returned, and the method has been applied once to the state behind it, whatever the
  draws.
\<close>

theorem reliable_network_delivers:
  assumes "i < length (l_procs L)" and "pr_pc (l_procs L ! i) = PStart"
    and "pr_req (l_procs L ! i) = req" and "rq_svcMeth req = svcn @ ''.'' @ meth"
    and "CHR ''.'' \<notin> set meth"
    and "enabled_at (l_net L) (rq_endname req)"
    and "connection_at (l_net L) (rq_endname req) = Some s" and "server_at (l_net L) s = Some a"
    and "reliable (l_net L)" and "\<not> longReordering (l_net L)"
    and "a < length (l_heap L)" and "services (l_heap L ! a) svcn = Some svc"
    and "svc_methods svc meth = Some m"
    and "m_func m (decode (rq_argsType req) (rq_args req)) (l_app L) = (s', v)"
  shows "\<exists>L'. go_run (lab_exec decode encode) L [Begin i r, Handle i, Receive i, End i r1 r2] =
       Inr (L', [Silent, Ran i \<lparr>rp_ok = True, rp_reply = encode v\<rparr>, Silent,
                 Replied i \<lparr>rp_ok = True, rp_reply = encode v\<rparr>]) \<and>
     l_app L' = s' \<and> srv_count (l_heap L' ! a) = srv_count (l_heap L ! a) + 1"
proof -
  have split: "split_svcMeth (rq_svcMeth req) = Inr (svcn, meth)"
    using assms(4) split_svcMeth_dot [OF assms(5)] by simp
  have dispatch: "Server_dispatch decode encode (l_heap L ! a) req (l_app L) =
      Inr ((l_heap L ! a)\<lparr>srv_count := srv_count (l_heap L ! a) + 1\<rparr>, s',
           \<lparr>rp_ok = True, rp_reply = encode v\<rparr>)"
    using assms split by (simp add: Server_dispatch_def Service_dispatch_def)
  show ?thesis
    using assms(1-3,6-11) dispatch
    by (simp add: lab_exec_def lab_step_proc_def act_proc_def processReq_begin_def processReq_receive_def
        processReq_end_def reply_out_def readEndnameInfo_def isServerDead_def go_nth_def Let_def)
qed

lemma reliable_network_delivers_witness:
  "\<exists>L'. go_run (lab_exec (\<lambda>_. length) (\<lambda>r. replicate r 0))
       (example_lab\<lparr>l_procs := [\<lparr>pr_req = example_req, pr_pc = PStart, pr_handler = HNone\<rparr>]\<rparr>)
       [Begin 0 7, Handle 0, Receive 0, End 0 8 9] =
       Inr (L', [Silent, Ran 0 \<lparr>rp_ok = True, rp_reply = [0, 0]\<rparr>, Silent,
                 Replied 0 \<lparr>rp_ok = True, rp_reply = [0, 0]\<rparr>]) \<and>
     l_app L' = 2 \<and> srv_count (l_heap L' ! 0) = 1"
proof -
  let ?L = "example_lab\<lparr>l_procs := [\<lparr>pr_req = example_req, pr_pc = PStart, pr_handler = HNone\<rparr>]\<rparr>"
  have "\<exists>L'. go_run (lab_exec (\<lambda>_. length) (\<lambda>r. replicate r 0)) ?L
       [Begin 0 7, Handle 0, Receive 0, End 0 8 9] =
       Inr (L', [Silent, Ran 0 \<lparr>rp_ok = True, rp_reply = replicate 2 0\<rparr>, Silent,
                 Replied 0 \<lparr>rp_ok = True, rp_reply = replicate 2 0\<rparr>]) \<and>
     l_app L' = 2 \<and> srv_count (l_heap L' ! 0) = srv_count (l_heap ?L ! 0) + 1"
    by (rule reliable_network_delivers [where req = example_req and svcn = "''KV''" and meth = "''Add''"
          and s = "NInt 0" and svc = "MakeService ''KV'' [example_method]" and m = example_method])
      (simp_all add: example_lab_defs enabled_at_def connection_at_def server_at_def)
  then show ?thesis by (simp add: example_lab_defs numeral_2_eq_2)
qed

section \<open>Statistics\<close>

text \<open>
  What the counters should hold: the accepted requests, the bytes of their arguments and the bytes
  of the replies that were sent.
\<close>

fun accepted_count :: "lab_out list \<Rightarrow> nat" where
  "accepted_count [] = 0"
| "accepted_count (Accepted req # os) = Suc (accepted_count os)"
| "accepted_count (_ # os) = accepted_count os"

fun traffic :: "lab_out list \<Rightarrow> nat" where
  "traffic [] = 0"
| "traffic (Accepted req # os) = length (rq_args req) + traffic os"
| "traffic (Replied i m # os) = length (rp_reply m) + traffic os"
| "traffic (_ # os) = traffic os"

lemma accepted_count_append [simp]: "accepted_count (os @ os') = accepted_count os + accepted_count os'"
  by (induction os rule: accepted_count.induct) auto

lemma traffic_append [simp]: "traffic (os @ os') = traffic os + traffic os'"
  by (induction os rule: traffic.induct) auto

definition stats_ok :: "32 word \<Rightarrow> 64 word \<Rightarrow> ('a, 's, 'r) lab \<Rightarrow> lab_out list \<Rightarrow> bool" where
  "stats_ok c b L os \<longleftrightarrow>
     net_count (l_net L) = c + of_nat (accepted_count os) \<and>
     net_bytes (l_net L) = b + of_nat (traffic os)"

lemma net_apply_stats:
  "net_apply nop rn = Inr rn' \<Longrightarrow> net_count rn' = net_count rn \<and> net_bytes rn' = net_bytes rn"
  by (cases nop)
    (auto simp: Reliable_def LongReordering_def LongDelays_def MakeEnd_def DeleteEnd_def
      AddServer_def DeleteServer_def Connect_def Enable_def Cleanup_def Let_def split: if_splits)

lemma lab_step_proc_stats:
  assumes "lab_step_proc decode encode L i p act = Inr (L1, p', out)" and "stats_ok c b L h"
  shows "stats_ok c b L1 (h @ [out])"
  using assms(1)
proof (cases rule: lab_step_proc_elim)
  case (starts r pc h m)
  from starts(3) show ?thesis
    by (cases rule: processReq_begin_elim)
      (use assms(2) starts in \<open>auto simp: stats_ok_def reply_out_def noReply_def\<close>)
next
  case (finish r1 r2 pin received rn pc m)
  from finish(2) show ?thesis
    by (cases rule: processReq_end_elim)
      (use assms(2) finish in \<open>auto simp: stats_ok_def reply_out_def noReply_def AddBytes_def\<close>)
qed (use assms(2) in \<open>auto simp: stats_ok_def noReply_def AddBytes_def\<close>)

lemma stats_ok_exec:
  assumes "stats_ok c b L h" and "lab_exec decode encode L act = Inr (L', out)"
  shows "stats_ok c b L' (h @ [out])"
proof (cases "(\<exists>nop. act = Net nop) \<or> act = NetExit \<or> (\<exists>req. act = Accept req)")
  case True
  with assms net_apply_stats show ?thesis
    by (fastforce simp: lab_exec_def go_bind_Inr stats_ok_def accept_request_def AddBytes_def split: if_splits)
next
  case False
  have procs: "stats_ok c b (L1\<lparr>l_procs := ps\<rparr>) os = stats_ok c b L1 os" for L1 :: "('a, 'b, 'c) lab" and ps os
    by (simp add: stats_ok_def)
  from False assms lab_step_proc_stats [OF _ assms(1)] show ?thesis
    by (cases act) (auto simp: lab_exec_def go_bind_Inr Let_def procs stats_ok_def split: if_splits)
qed

interpretation labs: go_history "lab_exec decode encode" "stats_ok c b" "\<lambda>_ _. True"
  for decode :: "string \<Rightarrow> gbytes \<Rightarrow> 'a" and encode :: "'r \<Rightarrow> gbytes" and c b
  by unfold_locales (rule stats_ok_exec)

text \<open>
  Over any schedule the RPC counter grows by the number of requests the network took, and
  reads as that number reduced to a signed 32-bit integer; the byte counter grows by the bytes of
  the arguments taken and of the replies sent, modulo \<open>2 ^ 64\<close>.
\<close>

theorem network_statistics_exact:
  assumes "net_count (l_net L) = 0" and "net_bytes (l_net L) = 0"
    and "go_run (lab_exec decode encode) L acts = Inr (L', os)"
  shows "GetTotalCount (l_net L') = signed_take_bit 31 (int (accepted_count os)) \<and>
     GetTotalBytes (l_net L') = word_of_nat (traffic os)"
proof -
  have "stats_ok 0 0 L []" using assms(1,2) by (simp add: stats_ok_def)
  from labs.run_hist [OF this _ assms(3)] have "stats_ok 0 0 L' os" by simp
  then show ?thesis
    by (simp add: stats_ok_def GetTotalCount_def GetTotalBytes_def signed_of_nat)
qed


lemma network_statistics_exact_witness:
  "\<exists>L' os. go_run (lab_exec (\<lambda>_. length) (\<lambda>r. replicate r 0)) example_lab
       [Accept example_req, Begin 0 0, Handle 0, Receive 0, End 0 0 0] = Inr (L', os) \<and>
     accepted_count os = 1 \<and> traffic os = 4 \<and>
     GetTotalCount (l_net L') = signed_take_bit 31 (int (accepted_count os)) \<and>
     GetTotalBytes (l_net L') = word_of_nat (traffic os)"
proof -
  obtain L' os where run: "go_run (lab_exec (\<lambda>_. length) (\<lambda>r. replicate r 0)) example_lab
       [Accept example_req, Begin 0 0, Handle 0, Receive 0, End 0 0 0] = Inr (L', os)"
    and "accepted_count os = 1" and "traffic os = 4"
    by (simp add: lab_eval example_lab_defs)
  moreover have "GetTotalCount (l_net L') = signed_take_bit 31 (int (accepted_count os)) \<and>
     GetTotalBytes (l_net L') = word_of_nat (traffic os)"
    by (rule network_statistics_exact [OF _ _ run]) (simp_all add: example_lab_defs)
  ultimately show ?thesis by blast
qed

end
