(* ===== verification/Labrpc_Calls.thy ===== *)
theory Labrpc_Calls
  imports Labrpc
begin

text \<open>
  The callers of \<^verbatim>\<open>src/labrpc/labrpc.go\<close>: \<^verbatim>\<open>ClientEnd.Call\<close> as a thread beside the goroutines of the
  network. A caller sends its request into \<^verbatim>\<open>Network.endCh\<close>, which the network's goroutine receives, or
  finds that the network is gone, and then waits on the channel of its own request. Both channels are
  unbuffered, so a send and its receive are one step.

  Shown here: whatever the schedule, a call that returns true returns the decoded reply of the one run
  of the handler for its own request, and the handler of a call that returns false ran at most once.
\<close>

section \<open>Callers\<close>

text \<open>The number says which request of the network is the caller's, None when it was never sent.\<close>

datatype 'w caller =
    CSending reqMsg
  | CWaiting reqMsg nat
  | CReturned reqMsg "nat option" "'w option"

record ('a, 's, 'r, 'w) calls =
  cl_lab :: "('a, 's, 'r) lab"
  cl_callers :: "'w caller list"

datatype 'v call_act =
    CCall ClientEnd string string 'v
  | CSend nat
  | CGone nat
  | CNet lab_act

text \<open>The two branches of the \<^verbatim>\<open>select\<close> that sends the request.\<close>

definition Call_send ::
    "(string \<Rightarrow> gbytes \<Rightarrow> 'a) \<Rightarrow> ('r \<Rightarrow> gbytes) \<Rightarrow> nat \<Rightarrow> ('a, 's, 'r, 'w) calls \<Rightarrow> (('a, 's, 'r, 'w) calls \<times> lab_out) go" where
  "Call_send decode encode k S =
     (if k < length (cl_callers S)
      then (case cl_callers S ! k of
              CSending req \<Rightarrow>
                if l_running (cl_lab S)
                then go_bind (lab_exec decode encode (cl_lab S) (Accept req)) (\<lambda>(L, out).
                       Inr (S\<lparr>cl_lab := L, cl_callers := (cl_callers S)[k := CWaiting req (length (l_procs (cl_lab S)))]\<rparr>, out))
                else Inr (S, Silent)
            | _ \<Rightarrow> Inr (S, Silent))
      else Inr (S, Silent))"

definition Call_gone :: "nat \<Rightarrow> ('a, 's, 'r, 'w) calls \<Rightarrow> ('a, 's, 'r, 'w) calls" where
  "Call_gone k S =
     (if k < length (cl_callers S)
      then (case cl_callers S ! k of
              CSending req \<Rightarrow>
                if net_done (l_net (cl_lab S)) then S\<lparr>cl_callers := (cl_callers S)[k := CReturned req None None]\<rparr> else S
            | _ \<Rightarrow> S)
      else S)"

text \<open>A reply on the channel of request \<open>i\<close> reaches the caller that waits on it.\<close>

definition wake :: "nat \<Rightarrow> 'w option \<Rightarrow> 'w caller \<Rightarrow> 'w caller" where
  "wake i v c = (case c of CWaiting req j \<Rightarrow> if j = i then CReturned req (Some i) v else c | _ \<Rightarrow> c)"

definition Call_receive ::
    "(gbytes \<Rightarrow> 'w option) \<Rightarrow> ('a, 's, 'r, 'w) calls \<Rightarrow> ('a, 's, 'r) lab \<times> lab_out \<Rightarrow> (('a, 's, 'r, 'w) calls \<times> lab_out) go" where
  "Call_receive dec S = (\<lambda>(L, out).
     case out of
       Replied i rep \<Rightarrow>
         go_bind (Call_finish dec rep) (\<lambda>v. Inr (S\<lparr>cl_lab := L, cl_callers := map (wake i v) (cl_callers S)\<rparr>, out))
     | _ \<Rightarrow> Inr (S\<lparr>cl_lab := L\<rparr>, out))"

fun call_exec ::
    "('v \<Rightarrow> gbytes option) \<Rightarrow> (gbytes \<Rightarrow> 'w option) \<Rightarrow> (string \<Rightarrow> gbytes \<Rightarrow> 'a) \<Rightarrow> ('r \<Rightarrow> gbytes) \<Rightarrow>
     ('a, 's, 'r, 'w) calls \<Rightarrow> 'v call_act \<Rightarrow> (('a, 's, 'r, 'w) calls \<times> lab_out) go" where
  "call_exec enc dec decode encode S (CCall e svcMeth argsType args) =
     go_bind (Call_request enc e svcMeth argsType args) (\<lambda>req.
       Inr (S\<lparr>cl_callers := cl_callers S @ [CSending req]\<rparr>, Silent))"
| "call_exec enc dec decode encode S (CSend k) = Call_send decode encode k S"
| "call_exec enc dec decode encode S (CGone k) = Inr (Call_gone k S, Silent)"
| "call_exec enc dec decode encode S (CNet act) =
     (case act of
        Accept _ \<Rightarrow> Inr (S, Silent)
      | _ \<Rightarrow> go_bind (lab_exec decode encode (cl_lab S) act) (Call_receive dec S))"

section \<open>Requests keep their contents\<close>

lemma lab_step_proc_req: "lab_step_proc decode encode L i p act = Inr (L1, p', out) \<Longrightarrow> pr_req p' = pr_req p"
  by (cases rule: lab_step_proc_elim, assumption) simp_all

lemma lab_exec_req:
  assumes "lab_exec decode encode L act = Inr (L', out)"
  shows "length (l_procs L) \<le> length (l_procs L')"
    and "i < length (l_procs L) \<Longrightarrow> pr_req (l_procs L' ! i) = pr_req (l_procs L ! i)"
    and "out = Replied i m \<Longrightarrow> i < length (l_procs L)"
  using assms
  by (cases rule: lab_exec_elim; auto simp: nth_append nth_list_update dest: lab_step_proc_req lab_step_proc_out)+

lemma net_apply_done: "net_apply nop rn = Inr rn' \<Longrightarrow> net_done rn \<Longrightarrow> net_done rn'"
  by (cases nop) (auto simp: go_bind_Inr Reliable_def LongReordering_def LongDelays_def MakeEnd_def DeleteEnd_def AddServer_def
      DeleteServer_def Connect_def Enable_def Cleanup_def Let_def split: if_splits)

lemma lab_step_proc_done:
  "lab_step_proc decode encode L i p act = Inr (L1, p', out) \<Longrightarrow> net_done (l_net L1) = net_done (l_net L)"
  by (cases rule: lab_step_proc_elim, assumption) (auto simp: AddBytes_def elim!: processReq_end_elim)

lemma lab_exec_done:
  assumes "lab_exec decode encode L act = Inr (L', out)" and "net_done (l_net L)"
  shows "net_done (l_net L')"
proof (cases "\<exists>nop. act = Net nop")
  case True
  with assms net_apply_done show ?thesis by (fastforce simp: lab_exec_def go_bind_Inr)
next
  case False
  with assms show ?thesis
    by (cases act) (auto simp: lab_exec_def go_bind_Inr accept_request_def AddBytes_def Let_def split: if_splits dest: lab_step_proc_done)
qed

section \<open>Outcomes of calls\<close>

text \<open>What is known of a caller from where it stands; \<open>os\<close> is what the network has put out.\<close>

fun caller_ok :: "(gbytes \<Rightarrow> 'w option) \<Rightarrow> ('a, 's, 'r) lab \<Rightarrow> lab_out list \<Rightarrow> 'w caller \<Rightarrow> bool" where
  "caller_ok dec L os (CSending req) \<longleftrightarrow> True"
| "caller_ok dec L os (CWaiting req i) \<longleftrightarrow> i < length (l_procs L) \<and> pr_req (l_procs L ! i) = req \<and> replied_of i os = []"
| "caller_ok dec L os (CReturned req None v) \<longleftrightarrow> v = None \<and> net_done (l_net L)"
| "caller_ok dec L os (CReturned req (Some i) v) \<longleftrightarrow>
     i < length (l_procs L) \<and> pr_req (l_procs L ! i) = req \<and> (\<exists>m. replied_of i os = [m] \<and> Call_finish dec m = Inr v)"

fun request_of :: "'w caller \<Rightarrow> nat option" where
  "request_of (CSending req) = None"
| "request_of (CWaiting req i) = Some i"
| "request_of (CReturned req sent v) = sent"

definition calls_hist :: "(gbytes \<Rightarrow> 'w option) \<Rightarrow> ('a, 's, 'r, 'w) calls \<Rightarrow> lab_out list \<Rightarrow> bool" where
  "calls_hist dec S os \<longleftrightarrow> lab_hist (cl_lab S) os \<and> (\<forall>c \<in> set (cl_callers S). caller_ok dec (cl_lab S) os c) \<and>
     (\<forall>k < length (cl_callers S). \<forall>k' < length (cl_callers S). k \<noteq> k' \<longrightarrow> request_of (cl_callers S ! k) \<noteq> None \<longrightarrow>
        request_of (cl_callers S ! k) \<noteq> request_of (cl_callers S ! k'))"

lemma lab_hist_bounds:
  assumes "lab_hist L os"
  shows "length (ran_of i os) \<le> 1 \<and> length (replied_of i os) \<le> 1 \<and> (\<forall>m \<in> set (replied_of i os). rp_ok m \<longrightarrow> ran_of i os = [m])"
  using assms proc_ok_bounds [of "l_procs L ! i" "ran_of i os" "replied_of i os"]
  by (cases "i < length (l_procs L)") (auto simp: lab_hist_def)

lemma caller_ok_step:
  assumes "caller_ok dec L os c" and "lab_exec decode encode L act = Inr (L', out)"
    and "\<And>i m. out = Replied i m \<Longrightarrow> request_of c \<noteq> Some i"
  shows "caller_ok dec L' (os @ [out]) c"
proof -
  have none: "replied_of i [out] = []" if "request_of c = Some i" for i
    using assms(3) that by (cases out) auto
  show ?thesis
    using assms(1) lab_exec_req(1,2) [OF assms(2)] lab_exec_done [OF assms(2)] none
    by (cases "(dec, L, os, c)" rule: caller_ok.cases) (auto intro: less_le_trans)
qed

lemma caller_ok_wake:
  assumes ok: "caller_ok dec L os c" and step: "lab_exec decode encode L act = Inr (L', Replied i m)"
    and fin: "Call_finish dec m = Inr v" and hist: "lab_hist L' (os @ [Replied i m])"
  shows "caller_ok dec L' (os @ [Replied i m]) (wake i v c)"
proof (cases "request_of c = Some i")
  case False
  then have "wake i v c = c" by (cases c) (auto simp: wake_def)
  with caller_ok_step [OF ok step] False show ?thesis by auto
next
  case True
  have i: "i < length (l_procs L)" "i < length (l_procs L')" using lab_exec_req(3,1) [OF step] by auto
  have "length (replied_of i (os @ [Replied i m])) \<le> 1"
    using lab_hist_bounds [OF hist, of i] by simp
  then have "replied_of i os = []" by simp
  with True ok i fin lab_exec_req(2) [OF step] show ?thesis
    by (cases "(dec, L, os, c)" rule: caller_ok.cases) (auto simp: wake_def)
qed

lemma request_of_wake [simp]: "request_of (wake i v c) = request_of c"
  by (cases c) (auto simp: wake_def)

lemma calls_hist_wake:
  assumes "calls_hist dec S os" and step: "lab_exec decode encode (cl_lab S) act = Inr (L', out)"
    and "Call_receive dec S (L', out) = Inr (S', out')"
  shows "calls_hist dec S' (os @ [out'])"
proof -
  have hist: "lab_hist L' (os @ [out])" using assms(1) lab_exec_hist [OF _ step] by (simp add: calls_hist_def)
  show ?thesis
  proof (cases "\<exists>i m. out = Replied i m")
    case True
    then obtain i m v where out: "out = Replied i m" and fin: "Call_finish dec m = Inr v"
      and S': "S' = S\<lparr>cl_lab := L', cl_callers := map (wake i v) (cl_callers S)\<rparr>" "out' = out"
      using assms(3) by (auto simp: Call_receive_def go_bind_Inr)
    have "caller_ok dec L' (os @ [out]) (wake i v c)" if "c \<in> set (cl_callers S)" for c
      using caller_ok_wake [OF _ step [unfolded out] fin hist [unfolded out], of c] assms(1) that by (simp add: calls_hist_def out)
    with assms(1) hist show ?thesis by (simp add: calls_hist_def S')
  next
    case False
    then have S': "S' = S\<lparr>cl_lab := L'\<rparr>" "out' = out" using assms(3) by (auto simp: Call_receive_def split: lab_out.splits)
    have "caller_ok dec L' (os @ [out]) c" if "c \<in> set (cl_callers S)" for c
      using caller_ok_step [OF _ step, of dec os c] assms(1) False that by (simp add: calls_hist_def)
    with assms(1) hist show ?thesis by (simp add: calls_hist_def S')
  qed
qed
lemma caller_ok_Silent [simp]: "caller_ok dec L (os @ [Silent]) c = caller_ok dec L os c"
  by (cases "(dec, L, os, c)" rule: caller_ok.cases) simp_all

lemma calls_hist_CCall:
  "calls_hist dec S os \<Longrightarrow> calls_hist dec (S\<lparr>cl_callers := cl_callers S @ [CSending req]\<rparr>) (os @ [Silent])"
  by (auto simp: calls_hist_def lab_hist_def nth_append less_Suc_eq)

lemma calls_hist_Silent [simp]: "calls_hist dec S (os @ [Silent]) = calls_hist dec S os"
  by (simp add: calls_hist_def lab_hist_def)

lemma calls_hist_update:
  assumes "calls_hist dec S os" and "k < length (cl_callers S)" and "caller_ok dec (cl_lab S) os c"
    and "\<And>i k'. request_of c = Some i \<Longrightarrow> k' < length (cl_callers S) \<Longrightarrow> k' \<noteq> k \<Longrightarrow> request_of (cl_callers S ! k') \<noteq> Some i"
  shows "calls_hist dec (S\<lparr>cl_callers := (cl_callers S)[k := c]\<rparr>) os"
  using assms
  by (auto simp: calls_hist_def nth_list_update dest!: set_update_subset_insert [THEN subsetD])

lemma calls_hist_exec:
  assumes h: "calls_hist dec S os" and step: "call_exec enc dec decode encode S act = Inr (S', out)"
  shows "calls_hist dec S' (os @ [out])"
proof (cases act)
  case (CCall e svcMeth argsType args)
  with step calls_hist_CCall [OF h] show ?thesis by (auto simp: go_bind_Inr)
next
  case (CGone k)
  with step have S': "S' = Call_gone k S" "out = Silent" by auto
  have "calls_hist dec (Call_gone k S) os"
    using h by (auto simp: Call_gone_def intro!: calls_hist_update [OF h] split: caller.splits)
  with S' show ?thesis by simp
next
  case (CNet a)
  show ?thesis
  proof (cases "\<exists>req. a = Accept req")
    case True
    with CNet step h show ?thesis by auto
  next
    case False
    with CNet step obtain L o1 where "lab_exec decode encode (cl_lab S) a = Inr (L, o1)" "Call_receive dec S (L, o1) = Inr (S', out)"
      by (cases a) (auto simp: go_bind_Inr)
    from calls_hist_wake [OF h this] show ?thesis .
  qed
next
  case (CSend k)
  show ?thesis
  proof (cases "\<exists>req. k < length (cl_callers S) \<and> cl_callers S ! k = CSending req \<and> l_running (cl_lab S)")
    case False
    with CSend step have "S' = S" "out = Silent" by (auto simp: Call_send_def split: if_splits caller.splits)
    with h show ?thesis by simp
  next
    case True
    then obtain req where k: "k < length (cl_callers S)" "cl_callers S ! k = CSending req" "l_running (cl_lab S)" by blast
    let ?n = "length (l_procs (cl_lab S))"
    from k CSend step obtain L where ex: "lab_exec decode encode (cl_lab S) (Accept req) = Inr (L, out)"
      and S': "S' = S\<lparr>cl_lab := L, cl_callers := (cl_callers S)[k := CWaiting req ?n]\<rparr>"
      by (auto simp: Call_send_def go_bind_Inr)
    from ex k(3) have out: "out = Accepted req" and L: "l_procs L = l_procs (cl_lab S) @ [\<lparr>pr_req = req, pr_pc = PStart, pr_handler = HNone\<rparr>]"
      by (auto simp: lab_exec_def)
    have h1: "calls_hist dec (S\<lparr>cl_lab := L\<rparr>) (os @ [out])"
      by (rule calls_hist_wake [OF h ex, of _ out]) (simp add: Call_receive_def out)
    have "replied_of ?n os = []" using h by (simp add: calls_hist_def lab_hist_def)
    moreover have "request_of c \<noteq> Some ?n" if "c \<in> set (cl_callers S)" for c
      using h that by (cases "(dec, cl_lab S, os, c)" rule: caller_ok.cases) (auto simp: calls_hist_def)
    ultimately have "calls_hist dec (S\<lparr>cl_lab := L\<rparr>\<lparr>cl_callers := (cl_callers (S\<lparr>cl_lab := L\<rparr>))[k := CWaiting req ?n]\<rparr>) (os @ [out])"
      by (intro calls_hist_update [OF h1]) (use k in \<open>simp_all add: L out\<close>)
    then show ?thesis by (simp add: S')
  qed
qed

interpretation callh: go_history "call_exec enc dec decode encode" "calls_hist dec" "\<lambda>_ _. True"
  for enc :: "'v \<Rightarrow> gbytes option" and dec :: "gbytes \<Rightarrow> 'w option" and decode :: "string \<Rightarrow> gbytes \<Rightarrow> 'a" and encode :: "'r \<Rightarrow> gbytes"
  by unfold_locales (rule calls_hist_exec)


definition example_calls :: "(nat, nat, nat, gbytes) calls" where
  "example_calls = \<lparr>cl_lab = example_lab, cl_callers = []\<rparr>"

definition example_calling :: "gbytes call_act list" where
  "example_calling = [CCall \<lparr>ce_endname = NStr ''e''\<rparr> ''KV.Add'' ''Args'' [1, 2], CSend 0, CNet (Begin 0 0), CNet (Handle 0),
     CNet (Receive 0), CNet (End 0 0 0)]"



section \<open>No call gets stuck\<close>

text \<open>The caller can be brought to return, or the process ends in a panic or a fatal error.\<close>

definition can_return ::
    "('v \<Rightarrow> gbytes option) \<Rightarrow> (gbytes \<Rightarrow> 'w option) \<Rightarrow> (string \<Rightarrow> gbytes \<Rightarrow> 'a) \<Rightarrow> ('r \<Rightarrow> gbytes) \<Rightarrow> ('a, 's, 'r, 'w) calls \<Rightarrow> nat \<Rightarrow> bool" where
  "can_return enc dec decode encode S k \<longleftrightarrow>
     (\<exists>acts. case go_run (call_exec enc dec decode encode) S acts of
        Inl e \<Rightarrow> True
      | Inr (S', os) \<Rightarrow> \<exists>req sent v. cl_callers S' ! k = CReturned req sent v)"

lemma can_return_step:
  assumes "\<And>S1 out. call_exec enc dec decode encode S act = Inr (S1, out) \<Longrightarrow> can_return enc dec decode encode S1 k"
  shows "can_return enc dec decode encode S k"
proof (cases "call_exec enc dec decode encode S act")
  case (Inl e)
  then show ?thesis unfolding can_return_def by (intro exI [of _ "[act]"]) simp
next
  case (Inr p)
  obtain S1 out where p: "p = (S1, out)" by (cases p)
  from assms Inr p obtain acts where "case go_run (call_exec enc dec decode encode) S1 acts of
        Inl e \<Rightarrow> True | Inr (S', os) \<Rightarrow> \<exists>req sent v. cl_callers S' ! k = CReturned req sent v"
    unfolding can_return_def by blast
  with Inr p show ?thesis unfolding can_return_def
    by (intro exI [of _ "act # acts"]) (auto simp: go_bind_def split: sum.splits)
qed

lemma can_return_now: "\<exists>req sent v. cl_callers S ! k = CReturned req sent v \<Longrightarrow> can_return enc dec decode encode S k"
  unfolding can_return_def by (intro exI [of _ "[]"]) simp

text \<open>Caller \<open>k\<close> waits for request \<open>i\<close>, which stands at \<open>p\<close>.\<close>

definition awaits :: "('a, 's, 'r, 'w) calls \<Rightarrow> nat \<Rightarrow> nat \<Rightarrow> proc \<Rightarrow> bool" where
  "awaits S k i p \<longleftrightarrow> k < length (cl_callers S) \<and> (\<exists>req. cl_callers S ! k = CWaiting req i) \<and>
     i < length (l_procs (cl_lab S)) \<and> l_procs (cl_lab S) ! i = p"

lemma Call_receive_out: "Call_receive dec S (L, o1) = Inr (S1, out) \<Longrightarrow> o1 = out \<and> cl_lab S1 = L"
  by (auto simp: Call_receive_def go_bind_Inr split: lab_out.splits)

text \<open>A step of the awaited request, silent or with the reply.\<close>

lemma awaits_step:
  fixes S :: "('a, 's, 'r, 'w) calls"
  assumes aw: "awaits S k i p" and act: "act_proc act = i" "\<not> (\<exists>nop. act = Net nop)" "act \<noteq> NetExit" "\<not> (\<exists>req. act = Accept req)"
    and rest: "\<And>(S1 :: ('a, 's, 'r, 'w) calls) p' L1 out. lab_step_proc decode encode (cl_lab S) i p act = Inr (L1, p', out) \<Longrightarrow> awaits S1 k i p' \<Longrightarrow>
       \<not> (\<exists>m. out = Replied i m) \<Longrightarrow> can_return enc dec decode encode S1 k"
  shows "can_return enc dec decode encode S k"
proof (rule can_return_step [of enc dec decode encode S "CNet act"])
  fix S1 out assume "call_exec enc dec decode encode S (CNet act) = Inr (S1, out)"
  with act(2-4) obtain L o1 where "lab_exec decode encode (cl_lab S) act = Inr (L, o1)" and "Call_receive dec S (L, o1) = Inr (S1, out)"
    by (cases act) (auto simp: go_bind_Inr)
  then have ex: "lab_exec decode encode (cl_lab S) act = Inr (L, out)" and rc: "Call_receive dec S (L, out) = Inr (S1, out)"
    using Call_receive_out [of dec S L o1 S1 out] by simp_all
  have i: "i < length (l_procs (cl_lab S))" "l_procs (cl_lab S) ! i = p" and k: "k < length (cl_callers S)"
    using aw by (auto simp: awaits_def)
  obtain L1 p' where step: "lab_step_proc decode encode (cl_lab S) i p act = Inr (L1, p', out)"
    and L: "L = L1\<lparr>l_procs := (l_procs L1)[i := p']\<rparr>"
    using ex act i by (cases act) (auto simp: lab_exec_def go_bind_Inr Let_def)
  have procs: "l_procs L1 = l_procs (cl_lab S)" using step by (cases rule: lab_step_proc_elim) simp_all
  show "can_return enc dec decode encode S1 k"
  proof (cases "\<exists>m. out = Replied i m")
    case True
    with rc aw k show ?thesis
      by (intro can_return_now) (auto simp: Call_receive_def awaits_def wake_def go_bind_Inr)
  next
    case False
    then have "cl_callers S1 = cl_callers S" "cl_lab S1 = L"
      using rc lab_step_proc_out [OF step] by (auto simp: Call_receive_def go_bind_Inr split: lab_out.splits)
    with aw L procs have "awaits S1 k i p'" by (auto simp: awaits_def)
    from rest [OF step this False] show ?thesis .
  qed
qed


lemma returns_from_Fire:
  assumes "awaits S k i p" and "pr_pc p = PTimeout \<or> (\<exists>r. pr_pc p = PLate r)"
  shows "can_return enc dec decode encode S k"
  by (rule awaits_step [OF assms(1), of "Fire i"]) (use assms(2) in \<open>auto simp: act_proc_def lab_step_proc_def\<close>)

lemma returns_from_PEnd:
  assumes "awaits S k i p" and "pr_pc p = PEnd pin received"
  shows "can_return enc dec decode encode S k"
  by (rule awaits_step [OF assms(1), of "End i 999 899"])
    (use assms(2) in \<open>auto simp: act_proc_def lab_step_proc_def processReq_end_def reply_out_def split: option.splits if_splits\<close>)

lemma returns_from_HSent:
  assumes "awaits S k i p" and "pr_pc p = PWait pin" and "pr_handler p = HSent reply"
  shows "can_return enc dec decode encode S k"
  by (rule awaits_step [OF assms(1), of "Receive i"])
    (use assms(2,3) in \<open>auto simp: act_proc_def lab_step_proc_def processReq_receive_def intro: returns_from_PEnd\<close>)

lemma returns_from_HReady:
  assumes "awaits S k i p" and "pr_pc p = PWait pin" and "pr_handler p = HReady a"
  shows "can_return enc dec decode encode S k"
  by (rule awaits_step [OF assms(1), of "Handle i"])
    (use assms(2,3) in \<open>auto simp: act_proc_def lab_step_proc_def go_bind_Inr intro: returns_from_HSent\<close>)

lemma returns_from_PStart:
  fixes S :: "('a, 's, 'r, 'w) calls"
  assumes "awaits S k i p" and "pr_pc p = PStart"
  shows "can_return enc dec decode encode S k"
proof (rule awaits_step [OF assms(1), of "Begin i 999"])
  fix S1 :: "('a, 's, 'r, 'w) calls" and p' L1 out
  assume step: "lab_step_proc decode encode (cl_lab S) i p (Begin i 999) = Inr (L1, p', out)"
    and aw: "awaits S1 k i p'" and silent: "\<not> (\<exists>m. out = Replied i m)"
  obtain pc h m where pr: "processReq_begin 999 (l_net (cl_lab S)) (pr_req p) = (pc, h, m)" by (metis prod_cases3)
  have p': "p' = p\<lparr>pr_pc := pc, pr_handler := h\<rparr>" "out = reply_out i m"
    using step assms(2) pr by (auto simp: lab_step_proc_def)
  from pr show "can_return enc dec decode encode S1 k"
  proof (cases rule: processReq_begin_elim)
    case dropped
    with silent p' show ?thesis by (simp add: reply_out_def)
  next
    case (started pin)
    with aw p' show ?thesis by (auto intro: returns_from_HReady)
  next
    case nobody
    with aw p' show ?thesis by (auto intro: returns_from_Fire)
  qed
qed (simp_all add: act_proc_def)

text \<open>A request waits only while its handler is under way, and the network's goroutine leaves only when it is cleaned up.\<close>

definition lab_live :: "('a, 's, 'r) lab \<Rightarrow> bool" where
  "lab_live L \<longleftrightarrow> (\<forall>p \<in> set (l_procs L). \<forall>pin. pr_pc p = PWait pin \<longrightarrow> (\<exists>a. pr_handler p = HReady a) \<or> (\<exists>r. pr_handler p = HSent r)) \<and>
     (l_running L \<or> net_done (l_net L))"

lemma lab_step_proc_live:
  assumes "lab_step_proc decode encode L i p act = Inr (L1, p', out)"
    and "\<forall>pin. pr_pc p = PWait pin \<longrightarrow> (\<exists>a. pr_handler p = HReady a) \<or> (\<exists>r. pr_handler p = HSent r)"
  shows "\<forall>pin. pr_pc p' = PWait pin \<longrightarrow> (\<exists>a. pr_handler p' = HReady a) \<or> (\<exists>r. pr_handler p' = HSent r)"
  using assms(1)
proof (cases rule: lab_step_proc_elim)
  case (starts r pc h m)
  from starts(3) show ?thesis by (cases rule: processReq_begin_elim) (use starts in auto)
next
  case (finish r1 r2 pin received rn pc m)
  from finish(2) show ?thesis by (cases rule: processReq_end_elim) (use finish in auto)
qed (use assms(2) in \<open>auto simp: processReq_tick_def\<close>)


lemma lab_exec_live:
  assumes "lab_live L" and "lab_exec decode encode L act = Inr (L', out)"
  shows "lab_live L'"
proof -
  have "l_running L' \<or> net_done (l_net L')"
  proof (cases "net_done (l_net L)")
    case True
    with lab_exec_done [OF assms(2)] show ?thesis by simp
  next
    case False
    with assms show ?thesis
      by (cases act) (auto simp: lab_live_def lab_exec_def go_bind_Inr Let_def split: if_splits elim!: lab_step_proc_elim)
  qed
  moreover have "\<forall>p \<in> set (l_procs L'). \<forall>pin. pr_pc p = PWait pin \<longrightarrow> (\<exists>a. pr_handler p = HReady a) \<or> (\<exists>r. pr_handler p = HSent r)"
    using assms(2)
  proof (cases rule: lab_exec_elim)
    case (step i p L1)
    have "l_procs L ! i \<in> set (l_procs L)" using step(2) by simp
    with lab_step_proc_live [OF step(3)] assms(1) step(5) show ?thesis
      by (auto simp: lab_live_def dest!: set_update_subset_insert [THEN subsetD])
  qed (use assms(1) in \<open>auto simp: lab_live_def\<close>)
  ultimately show ?thesis by (simp add: lab_live_def)
qed

lemma call_exec_live:
  assumes "lab_live (cl_lab S)" and "call_exec enc dec decode encode S act = Inr (S', out)"
  shows "lab_live (cl_lab S')"
proof (cases act)
  case (CSend k)
  with assms show ?thesis
    by (auto simp: Call_send_def go_bind_Inr split: if_splits caller.splits intro: lab_exec_live)
next
  case (CNet a)
  with assms show ?thesis by (cases a) (auto simp: go_bind_Inr dest!: Call_receive_out intro: lab_exec_live)
next
  case (CGone k)
  with assms show ?thesis by (auto simp: Call_gone_def split: if_splits caller.splits)
qed (use assms in \<open>auto simp: go_bind_Inr\<close>)

interpretation calll: go_machine "call_exec enc dec decode encode" "\<lambda>S. lab_live (cl_lab S)" "\<lambda>_ _. True"
  for enc :: "'v \<Rightarrow> gbytes option" and dec :: "gbytes \<Rightarrow> 'w option" and decode :: "string \<Rightarrow> gbytes \<Rightarrow> 'a" and encode :: "'r \<Rightarrow> gbytes"
  by unfold_locales (rule call_exec_live)



end
