(* ===== verification/RaftBase.thy ===== *)
theory RaftBase
  imports GoPrelude Labrpc
begin

text \<open>
  The persister of \<^verbatim>\<open>src/raft/persister.go\<close>, and the data and visible operations of
  \<^verbatim>\<open>src/raft/raft.go\<close> (the bodies of the consensus handlers are not part of the sources).

  A byte slice is an address in a heap of byte arrays, None for nil. A persister holds two
  addresses; \<^verbatim>\<open>Copy\<close> shares them between two persisters, everything else clones. The client of
  the persisters owns the arrays it allocated and those it was given by a read, and may write
  into them at any time.

  Shown here: under every sequence of operations and client writes, the persisters behave as
  pairs of byte strings: a read returns what the last save of that persister, or of the persister
  it was copied from, stored at the time of the save.
\<close>

section \<open>Persister\<close>

type_synonym slice = "nat option"

record Persister =
  ps_raftstate :: slice
  ps_snapshot :: slice

definition MakePersister :: Persister where
  "MakePersister = \<lparr>ps_raftstate = None, ps_snapshot = None\<rparr>"

definition deref :: "gbytes list \<Rightarrow> slice \<Rightarrow> gbytes" where
  "deref heap x = (case x of None \<Rightarrow> [] | Some a \<Rightarrow> if a < length heap then heap ! a else [])"

definition clone :: "gbytes list \<Rightarrow> slice \<Rightarrow> gbytes list \<times> slice" where
  "clone heap orig = (heap @ [deref heap orig], Some (length heap))"

definition Copy :: "Persister \<Rightarrow> Persister" where
  "Copy ps = MakePersister\<lparr>ps_raftstate := ps_raftstate ps, ps_snapshot := ps_snapshot ps\<rparr>"

definition ReadRaftState :: "gbytes list \<Rightarrow> Persister \<Rightarrow> gbytes list \<times> slice" where
  "ReadRaftState heap ps = clone heap (ps_raftstate ps)"

definition RaftStateSize :: "gbytes list \<Rightarrow> Persister \<Rightarrow> nat" where
  "RaftStateSize heap ps = length (deref heap (ps_raftstate ps))"

definition Save :: "gbytes list \<Rightarrow> Persister \<Rightarrow> slice \<Rightarrow> slice \<Rightarrow> gbytes list \<times> Persister" where
  "Save heap ps raftstate snapshot =
     (let (heap1, r) = clone heap raftstate;
          (heap2, s) = clone heap1 snapshot
      in (heap2, ps\<lparr>ps_raftstate := r, ps_snapshot := s\<rparr>))"

definition ReadSnapshot :: "gbytes list \<Rightarrow> Persister \<Rightarrow> gbytes list \<times> slice" where
  "ReadSnapshot heap ps = clone heap (ps_snapshot ps)"

definition SnapshotSize :: "gbytes list \<Rightarrow> Persister \<Rightarrow> nat" where
  "SnapshotSize heap ps = length (deref heap (ps_snapshot ps))"

section \<open>Clients of the persisters\<close>

record pstate =
  pt_heap :: "gbytes list"
  pt_ps :: "Persister list"
  pt_owned :: "nat set"

datatype pcall =
    CallMake
  | CallCopy nat
  | CallSave nat slice slice
  | CallReadRaftState nat
  | CallReadSnapshot nat
  | CallRaftStateSize nat
  | CallSnapshotSize nat
  | ClientAlloc gbytes
  | ClientWrite nat nat "8 word"

text \<open>The outputs name the values at the time of the call.\<close>

datatype pout =
    OMade
  | OCopied nat
  | OSaved nat gbytes gbytes
  | OReadRaftState nat gbytes
  | OReadSnapshot nat gbytes
  | ORaftStateSize nat nat
  | OSnapshotSize nat nat
  | OClient

definition with_ps :: "pstate \<Rightarrow> nat \<Rightarrow> (Persister \<Rightarrow> pstate \<times> pout) \<Rightarrow> (pstate \<times> pout) go" where
  "with_ps st i f = (if i < length (pt_ps st) then Inr (f (pt_ps st ! i)) else Inl NilDereference)"

fun pexec :: "pstate \<Rightarrow> pcall \<Rightarrow> (pstate \<times> pout) go" where
  "pexec st CallMake = Inr (st\<lparr>pt_ps := pt_ps st @ [MakePersister]\<rparr>, OMade)"
| "pexec st (CallCopy i) = with_ps st i (\<lambda>ps. (st\<lparr>pt_ps := pt_ps st @ [Copy ps]\<rparr>, OCopied i))"
| "pexec st (CallSave i r s) = with_ps st i (\<lambda>ps.
     let (heap, ps1) = Save (pt_heap st) ps r s
     in (st\<lparr>pt_heap := heap, pt_ps := (pt_ps st)[i := ps1]\<rparr>,
         OSaved i (deref (pt_heap st) r) (deref (pt_heap st) s)))"
| "pexec st (CallReadRaftState i) = with_ps st i (\<lambda>ps.
     let (heap, x) = ReadRaftState (pt_heap st) ps
     in (st\<lparr>pt_heap := heap, pt_owned := pt_owned st \<union> set_option x\<rparr>, OReadRaftState i (deref heap x)))"
| "pexec st (CallReadSnapshot i) = with_ps st i (\<lambda>ps.
     let (heap, x) = ReadSnapshot (pt_heap st) ps
     in (st\<lparr>pt_heap := heap, pt_owned := pt_owned st \<union> set_option x\<rparr>, OReadSnapshot i (deref heap x)))"
| "pexec st (CallRaftStateSize i) = with_ps st i (\<lambda>ps. (st, ORaftStateSize i (RaftStateSize (pt_heap st) ps)))"
| "pexec st (CallSnapshotSize i) = with_ps st i (\<lambda>ps. (st, OSnapshotSize i (SnapshotSize (pt_heap st) ps)))"
| "pexec st (ClientAlloc bs) =
     Inr (st\<lparr>pt_heap := pt_heap st @ [bs], pt_owned := insert (length (pt_heap st)) (pt_owned st)\<rparr>, OClient)"
| "pexec st (ClientWrite a k v) =
     (if a < length (pt_heap st)
      then Inr (st\<lparr>pt_heap := (pt_heap st)[a := (pt_heap st ! a)[k := v]]\<rparr>, OClient)
      else Inl NilDereference)"

text \<open>A client passes and writes only arrays it owns.\<close>

fun client_owns :: "pstate \<Rightarrow> pcall \<Rightarrow> bool" where
  "client_owns st (CallSave i r s) \<longleftrightarrow> set_option r \<union> set_option s \<subseteq> pt_owned st"
| "client_owns st (ClientWrite a k v) \<longleftrightarrow> a \<in> pt_owned st"
| "client_owns st _ \<longleftrightarrow> True"

section \<open>Specification: pairs of byte strings\<close>

fun pspec_step :: "(gbytes \<times> gbytes) list \<Rightarrow> pout \<Rightarrow> (gbytes \<times> gbytes) list" where
  "pspec_step cs OMade = cs @ [([], [])]"
| "pspec_step cs (OCopied i) = cs @ [cs ! i]"
| "pspec_step cs (OSaved i r s) = cs[i := (r, s)]"
| "pspec_step cs _ = cs"

abbreviation pspec :: "pout list \<Rightarrow> (gbytes \<times> gbytes) list" where
  "pspec \<equiv> foldl pspec_step []"

fun pspec_agrees :: "(gbytes \<times> gbytes) list \<Rightarrow> pout \<Rightarrow> bool" where
  "pspec_agrees cs (OReadRaftState i bs) \<longleftrightarrow> bs = fst (cs ! i)"
| "pspec_agrees cs (OReadSnapshot i bs) \<longleftrightarrow> bs = snd (cs ! i)"
| "pspec_agrees cs (ORaftStateSize i n) \<longleftrightarrow> n = length (fst (cs ! i))"
| "pspec_agrees cs (OSnapshotSize i n) \<longleftrightarrow> n = length (snd (cs ! i))"
| "pspec_agrees cs _ \<longleftrightarrow> True"

definition pspec_outputs_ok :: "pout list \<Rightarrow> bool" where
  "pspec_outputs_ok os \<longleftrightarrow> (\<forall>k < length os. pspec_agrees (pspec (take k os)) (os ! k))"

lemma pspec_outputs_ok_snoc:
  "pspec_outputs_ok (os @ [out]) \<longleftrightarrow> pspec_outputs_ok os \<and> pspec_agrees (pspec os) out"
  by (auto simp: pspec_outputs_ok_def nth_append less_Suc_eq)

section \<open>Refinement\<close>

definition contents :: "gbytes list \<Rightarrow> Persister \<Rightarrow> gbytes \<times> gbytes" where
  "contents heap ps = (deref heap (ps_raftstate ps), deref heap (ps_snapshot ps))"

definition internal :: "Persister \<Rightarrow> nat set" where
  "internal ps = set_option (ps_raftstate ps) \<union> set_option (ps_snapshot ps)"

definition psep :: "pstate \<Rightarrow> bool" where
  "psep st \<longleftrightarrow>
     (\<forall>ps \<in> set (pt_ps st). internal ps \<subseteq> {..<length (pt_heap st)} - pt_owned st) \<and>
     pt_owned st \<subseteq> {..<length (pt_heap st)}"

definition phist :: "pstate \<Rightarrow> pout list \<Rightarrow> bool" where
  "phist st os \<longleftrightarrow>
     psep st \<and> map (contents (pt_heap st)) (pt_ps st) = pspec os \<and> pspec_outputs_ok os"

lemma deref_append [simp]:
  "set_option x \<subseteq> {..<length heap} \<Longrightarrow> deref (heap @ ys) x = deref heap x"
  by (auto simp: deref_def nth_append split: option.splits)

lemma deref_clone [simp]: "deref (heap @ [bs]) (Some (length heap)) = bs"
  by (simp add: deref_def)

lemma deref_update [simp]: "a \<notin> set_option x \<Longrightarrow> deref (heap[a := bs]) x = deref heap x"
  by (cases x) (auto simp: deref_def)

lemma contents_append [simp]:
  "internal ps \<subseteq> {..<length heap} \<Longrightarrow> contents (heap @ ys) ps = contents heap ps"
  by (simp add: contents_def internal_def)

lemma contents_update: "a \<notin> internal ps \<Longrightarrow> contents (heap[a := bs]) ps = contents heap ps"
  by (simp add: contents_def internal_def)

lemma psep_internal: "psep st \<Longrightarrow> ps \<in> set (pt_ps st) \<Longrightarrow> internal ps \<subseteq> {..<length (pt_heap st)}"
  by (auto simp: psep_def)

lemma psep_contents_append:
  "psep st \<Longrightarrow> map (contents (pt_heap st @ ys)) (pt_ps st) = map (contents (pt_heap st)) (pt_ps st)"
  by (simp add: psep_internal)

lemma psep_contents_update:
  "psep st \<Longrightarrow> a \<in> pt_owned st \<Longrightarrow>
     map (contents ((pt_heap st)[a := bs])) (pt_ps st) = map (contents (pt_heap st)) (pt_ps st)"
  by (auto simp: psep_def intro!: contents_update)

lemma phist_at:
  "phist st h \<Longrightarrow> i < length (pt_ps st) \<Longrightarrow> pspec h ! i = contents (pt_heap st) (pt_ps st ! i)"
  by (metis nth_map phist_def)

lemma Save_result:
  assumes "set_option s \<subseteq> {..<length heap}"
  shows "Save heap ps r s =
     (heap @ [deref heap r, deref heap s],
      ps\<lparr>ps_raftstate := Some (length heap), ps_snapshot := Some (Suc (length heap))\<rparr>)"
  using assms by (simp add: Save_def clone_def)

lemma phist_Save:
  assumes h: "phist st h" and own: "set_option r \<union> set_option s \<subseteq> pt_owned st" and i: "i < length (pt_ps st)"
    and exec: "pexec st (CallSave i r s) = Inr (st', out)"
  shows "phist st' (h @ [out])"
proof -
  let ?heap = "pt_heap st" and ?n = "length (pt_heap st)"
  let ?ps = "(pt_ps st ! i)\<lparr>ps_raftstate := Some ?n, ps_snapshot := Some (Suc ?n)\<rparr>"
  let ?new = "[deref ?heap r, deref ?heap s]"
  have sep: "psep st" using h by (simp add: phist_def)
  have "set_option s \<subseteq> {..<?n}" using own sep by (auto simp: psep_def)
  with exec i have st': "st' = st\<lparr>pt_heap := ?heap @ ?new, pt_ps := (pt_ps st)[i := ?ps]\<rparr>"
    and out: "out = OSaved i (deref ?heap r) (deref ?heap s)"
    by (auto simp: with_ps_def Save_result)
  have "contents (?heap @ ?new) ?ps = (deref ?heap r, deref ?heap s)"
    by (simp add: contents_def deref_def nth_append)
  then have "map (contents (?heap @ ?new)) ((pt_ps st)[i := ?ps]) =
      (map (contents ?heap) (pt_ps st))[i := (deref ?heap r, deref ?heap s)]"
    by (simp add: map_update psep_contents_append [OF sep])
  moreover have "psep st'"
    using sep st' by (fastforce simp: psep_def internal_def dest: set_update_subset_insert [THEN subsetD])
  ultimately show ?thesis
    using h st' out by (simp add: phist_def pspec_outputs_ok_snoc)
qed

lemma phist_grow:
  assumes "phist st h" and "n = length (pt_heap st)"
  shows "phist (st\<lparr>pt_heap := pt_heap st @ [bs], pt_owned := insert n (pt_owned st)\<rparr>) h"
  using assms psep_contents_append [of st "[bs]"] by (fastforce simp: phist_def psep_def)

lemma phist_exec:
  assumes h: "phist st h" and "client_owns st call" and exec: "pexec st call = Inr (st', out)"
  shows "phist st' (h @ [out])"
proof (cases call)
  case (CallSave i r s)
  with assms phist_Save show ?thesis by (auto simp: with_ps_def split: if_splits)
next
  case CallMake
  moreover have "internal MakePersister = {}" and "contents (pt_heap st) MakePersister = ([], [])"
    by (simp_all add: internal_def MakePersister_def contents_def deref_def)
  ultimately show ?thesis
    using h exec by (clarsimp simp: phist_def psep_def pspec_outputs_ok_snoc)
next
  case (CallCopy i)
  with exec have i: "i < length (pt_ps st)"
    and st': "st' = st\<lparr>pt_ps := pt_ps st @ [Copy (pt_ps st ! i)]\<rparr>" and out: "out = OCopied i"
    by (auto simp: with_ps_def split: if_splits)
  have "contents (pt_heap st) (Copy (pt_ps st ! i)) = contents (pt_heap st) (pt_ps st ! i)"
    and "internal (Copy (pt_ps st ! i)) = internal (pt_ps st ! i)"
    by (simp_all add: contents_def internal_def Copy_def)
  with h i st' out phist_at [OF h i] show ?thesis
    by (auto simp: phist_def psep_def pspec_outputs_ok_snoc)
next
  case (CallReadRaftState i)
  with exec phist_at [OF h, of i] phist_grow [OF h refl, of "deref (pt_heap st) (ps_raftstate (pt_ps st ! i))"]
  show ?thesis
    by (auto simp: with_ps_def ReadRaftState_def clone_def phist_def pspec_outputs_ok_snoc contents_def
        split: if_splits)
next
  case (CallReadSnapshot i)
  with exec phist_at [OF h, of i] phist_grow [OF h refl, of "deref (pt_heap st) (ps_snapshot (pt_ps st ! i))"]
  show ?thesis
    by (auto simp: with_ps_def ReadSnapshot_def clone_def phist_def pspec_outputs_ok_snoc contents_def
        split: if_splits)
next
  case (CallRaftStateSize i)
  with h exec phist_at [OF h, of i] show ?thesis
    by (auto simp: with_ps_def RaftStateSize_def phist_def pspec_outputs_ok_snoc contents_def split: if_splits)
next
  case (CallSnapshotSize i)
  with h exec phist_at [OF h, of i] show ?thesis
    by (auto simp: with_ps_def SnapshotSize_def phist_def pspec_outputs_ok_snoc contents_def split: if_splits)
next
  case (ClientAlloc bs)
  with exec phist_grow [OF h refl, of bs] show ?thesis
    by (auto simp: phist_def pspec_outputs_ok_snoc)
next
  case (ClientWrite a k v)
  with assms have "a \<in> pt_owned st" by simp
  with h exec ClientWrite psep_contents_update [of st a "(pt_heap st ! a)[k := v]"] show ?thesis
    by (clarsimp simp: phist_def psep_def pspec_outputs_ok_snoc split: if_splits)
qed

interpretation pers: go_history pexec phist client_owns
  by unfold_locales (rule phist_exec)

definition pinit :: pstate where
  "pinit = \<lparr>pt_heap = [], pt_ps = [], pt_owned = {}\<rparr>"

text \<open>
  C7: for every sequence of persister calls, mixed with a client that writes into the arrays it
  allocated or read, the persisters refine pairs of byte strings: each holds what the last save
  stored at the time of the call, a copy holds what the original held when it was copied, later
  saves of one do not show in the other, and every read and size agrees.
\<close>

theorem persister_refines_pairs:
  assumes "go_allowed pexec client_owns pinit calls" and "go_run pexec pinit calls = Inr (st, os)"
  shows "map (contents (pt_heap st)) (pt_ps st) = pspec os \<and>
     (\<forall>k < length os. pspec_agrees (pspec (take k os)) (os ! k))"
proof -
  have "phist pinit []" by (simp add: phist_def psep_def pinit_def pspec_outputs_ok_def)
  from pers.run_hist [OF this assms] show ?thesis
    by (simp add: phist_def pspec_outputs_ok_def)
qed

definition example_pcalls :: "pcall list" where
  "example_pcalls =
     [CallMake, ClientAlloc [1, 2], CallSave 0 (Some 0) None, ClientWrite 0 0 9, CallCopy 0,
      CallSave 0 (Some 0) None, CallReadRaftState 1]"

lemma persister_refines_pairs_witness:
  "\<exists>st os. go_run pexec pinit example_pcalls = Inr (st, os) \<and> last os = OReadRaftState 1 [1, 2] \<and>
     map (contents (pt_heap st)) (pt_ps st) = pspec os \<and> pspec_outputs_ok os"
proof -
  note defs = example_pcalls_def pinit_def with_ps_def Save_def clone_def Copy_def ReadRaftState_def
    MakePersister_def deref_def
  obtain st os where run: "go_run pexec pinit example_pcalls = Inr (st, os)"
    and "last os = OReadRaftState 1 [1, 2]"
    by (simp add: defs)
  moreover have "go_allowed pexec client_owns pinit example_pcalls"
    by (simp add: defs)
  ultimately show ?thesis unfolding pspec_outputs_ok_def using persister_refines_pairs by blast
qed

section \<open>Raft: data and visible operations\<close>

record 'c ApplyMsg =
  CommandValid :: bool
  Command :: "'c option"
  CommandIndex :: int
  SnapshotValid :: bool
  Snapshot :: "gbytes option"
  SnapshotTerm :: int
  SnapshotIndex :: int

record 'c LogEntry =
  le_Term :: int
  le_Command :: 'c

datatype raft_state = Leader | Candidate | Follower

text \<open>A channel is known by its identity.\<close>

record 'c Raft =
  rf_me :: int
  rf_dead :: "32 word"
  currentTerm :: int
  votedFor :: int
  logs :: "'c LogEntry list"
  commitIndex :: int
  lastApplied :: int
  nextIndex :: "int list"
  matchIndex :: "int list"
  rf_state :: raft_state
  voteCount :: int
  winElectCh :: nat
  stepDownCh :: nat
  grantVoteCh :: nat
  heartbeatCh :: nat
  snapLastIndex :: int
  snapLastTerm :: int

definition getLastIndex :: "'c Raft \<Rightarrow> int" where
  "getLastIndex rf = int (length (logs rf)) - 1 + snapLastIndex rf"

definition getLastTerm :: "'c Raft \<Rightarrow> int go" where
  "getLastTerm rf =
     go_bind (go_nth (logs rf) (getLastIndex rf - snapLastIndex rf)) (\<lambda>e. Inr (le_Term e))"

text \<open>\<open>r\<close> is the result of \<^verbatim>\<open>rand.Intn(40)\<close>.\<close>

definition getElectionTimeout :: "nat \<Rightarrow> nat" where
  "getElectionTimeout r = 120 + r mod 40"

text \<open>
  Sending on an unbuffered channel without blocking: the value reaches a receiver that is waiting,
  and is dropped when there is none. \<open>waiting\<close> gives the number of receivers blocked on a channel.
\<close>

definition sendToChannel :: "(nat \<Rightarrow> nat) \<Rightarrow> nat \<Rightarrow> bool \<Rightarrow> (nat \<Rightarrow> nat) \<times> bool option" where
  "sendToChannel waiting ch value =
     (if 0 < waiting ch then (waiting(ch := waiting ch - 1), Some value) else (waiting, None))"

definition Raft_Kill :: "'c Raft \<Rightarrow> 'c Raft" where
  "Raft_Kill rf = rf\<lparr>rf_dead := 1\<rparr>"

definition Raft_killed :: "'c Raft \<Rightarrow> bool" where
  "Raft_killed rf = (rf_dead rf = 1)"

text \<open>\<open>fresh\<close> is the first channel identity not yet in use.\<close>

definition resetChannels :: "nat \<Rightarrow> 'c Raft \<Rightarrow> nat \<times> 'c Raft" where
  "resetChannels fresh rf =
     (fresh + 4, rf\<lparr>winElectCh := fresh, stepDownCh := fresh + 1, grantVoteCh := fresh + 2,
                   heartbeatCh := fresh + 3\<rparr>)"

lemma getLastTerm_last:
  "getLastTerm rf = (if logs rf = [] then Inl IndexOutOfRange else Inr (le_Term (last (logs rf))))"
  by (auto simp: getLastTerm_def getLastIndex_def go_nth_def last_conv_nth nat_diff_distrib' Suc_le_eq)

end
