(* ===== verification/Tester.thy ===== *)
theory Tester
  imports Labrpc "HOL-Library.Multiset"
begin

text \<open>
  What the testers of the three packages (\<^verbatim>\<open>src/raft/config.go\<close>, \<^verbatim>\<open>src/shardctrler/config.go\<close>,
  \<^verbatim>\<open>src/shardkv/config.go\<close>) do alike to the simulated network: loops that make client ends, loops that
  enable or disable them by name, and the shuffling of the ends of a clerk; and the limit on the time of a test.

  Shown here: what a loop leaves of the network, end by end, and that shuffling loses no end.
\<close>

section \<open>The limit on a test\<close>

text \<open>\<open>failed\<close> is \<^verbatim>\<open>t.Failed()\<close>, \<open>elapsed\<close> the time since the start in nanoseconds.\<close>

definition checkTimeout :: "bool \<Rightarrow> int \<Rightarrow> unit go" where
  "checkTimeout failed elapsed =
     (if \<not> failed \<and> 120 * 10 ^ 9 < elapsed then Inl (LogFatal ''test took longer than 120 seconds'') else Inr ())"

section \<open>Names of ends\<close>

text \<open>\<^verbatim>\<open>cfg.endnames[i][j]\<close>; an index into a nil slice of names panics.\<close>

definition endname_at :: "string list option list \<Rightarrow> nat \<Rightarrow> nat \<Rightarrow> gname go" where
  "endname_at ens i j =
     go_bind (go_nth ens (int i)) (\<lambda>names.
       case names of
         None \<Rightarrow> Inl IndexOutOfRange
       | Some ns \<Rightarrow> go_bind (go_nth ns (int j)) (\<lambda>s. Inr (NStr s)))"

text \<open>A loop of calls of \<^verbatim>\<open>Enable\<close>, for those \<open>j\<close> that pass the guard.\<close>

fun enable_ends :: "(nat \<Rightarrow> bool) \<Rightarrow> (nat \<Rightarrow> gname go) \<Rightarrow> bool \<Rightarrow> nat list \<Rightarrow> Network \<Rightarrow> Network go" where
  "enable_ends guard name b [] net = Inr net"
| "enable_ends guard name b (j # js) net =
     (if guard j then go_bind (name j) (\<lambda>e. enable_ends guard name b js (Enable e b net))
      else enable_ends guard name b js net)"

text \<open>
  A loop that makes an end under a random name and connects it to a server; some of the loops
  enable it as well. \<open>rnd j\<close> is the draw of \<^verbatim>\<open>randstring(20)\<close>.
\<close>

fun make_ends ::
    "(nat \<Rightarrow> string) \<Rightarrow> (nat \<Rightarrow> gname) \<Rightarrow> bool \<Rightarrow> nat list \<Rightarrow> Network \<Rightarrow> (Network \<times> ClientEnd list) go" where
  "make_ends rnd srv en [] net = Inr (net, [])"
| "make_ends rnd srv en (j # js) net =
     go_bind (MakeEnd (NStr (rnd j)) net) (\<lambda>(net1, e).
       let net2 = Connect (NStr (rnd j)) (srv j) net1;
           net3 = (if en then Enable (NStr (rnd j)) True net2 else net2)
       in go_bind (make_ends rnd srv en js net3) (\<lambda>(net4, es). Inr (net4, e # es)))"

text \<open>\<open>r i\<close> is the draw of \<^verbatim>\<open>rand.Intn(i + 1)\<close>, reduced to its range.\<close>

fun shuffle :: "(nat \<Rightarrow> nat) \<Rightarrow> nat list \<Rightarrow> 'a list \<Rightarrow> 'a list" where
  "shuffle r [] sa = sa"
| "shuffle r (i # is) sa =
     (let j = r i mod (i + 1)
      in shuffle r is (sa[i := sa ! j, j := sa ! i]))"

definition random_handles :: "(nat \<Rightarrow> nat) \<Rightarrow> 'a list \<Rightarrow> 'a list" where
  "random_handles r kvh = shuffle r [0..<length kvh] kvh"

section \<open>Enabling\<close>

lemma enabled_at_simps [simp]:
  "enabled_at (Enable e b net) e' = (if e' = e then b else enabled_at net e')"
  "enabled_at (Connect e s net) e' = enabled_at net e'"
  "enabled_at (AddServer s a net) e' = enabled_at net e'"
  "enabled_at (DeleteServer s net) e' = enabled_at net e'"
  "enabled_at (Reliable yes net) e' = enabled_at net e'"
  "enabled_at (net\<lparr>net_servers := sv\<rparr>) e' = enabled_at net e'"
  by (simp_all add: enabled_at_def Enable_def Connect_def AddServer_def DeleteServer_def Reliable_def)

definition same_but_enabled :: "Network \<Rightarrow> Network \<Rightarrow> bool" where
  "same_but_enabled net net' \<longleftrightarrow> net' = net\<lparr>net_enabled := net_enabled net'\<rparr>"

lemma same_but_enabled_refl [simp]: "same_but_enabled net net"
  by (simp add: same_but_enabled_def)

lemma same_but_enabled_trans:
  "same_but_enabled net net1 \<Longrightarrow> same_but_enabled net1 net2 \<Longrightarrow> same_but_enabled net net2"
  unfolding same_but_enabled_def by (cases net; cases net1; cases net2) simp

lemma same_but_enabled_Enable [simp]: "same_but_enabled net (Enable e b net)"
  by (simp add: same_but_enabled_def Enable_def)

lemma same_but_enabledD:
  assumes "same_but_enabled net net'"
  shows "net_ends net' = net_ends net" and "net_servers net' = net_servers net"
    and "net_connections net' = net_connections net"
  using assms unfolding same_but_enabled_def by (cases net; cases net'; simp)+

lemma enable_ends_result:
  assumes "\<forall>j \<in> set js. guard j \<longrightarrow> name j = Inr (nm j)"
  shows "\<exists>net'. enable_ends guard name b js net = Inr net' \<and> same_but_enabled net net' \<and>
     (\<forall>e. enabled_at net' e = (if \<exists>j \<in> set js. guard j \<and> nm j = e then b else enabled_at net e))"
  using assms
proof (induction js arbitrary: net)
  case (Cons j js)
  then have rest: "\<forall>j \<in> set js. guard j \<longrightarrow> name j = Inr (nm j)" by simp
  show ?case
  proof (cases "guard j")
    case True
    from Cons.IH [OF rest, of "Enable (nm j) b net"] Cons.prems True show ?thesis
      using same_but_enabled_trans [OF same_but_enabled_Enable] by (auto intro: exI)
  next
    case False
    with Cons.IH [OF rest, of net] show ?thesis by auto
  qed
qed simp

text \<open>The end by which server \<open>i\<close> sends to server \<open>j\<close>, and a set of ends in which no two share a name.\<close>

definition end_of :: "string list option list \<Rightarrow> nat \<Rightarrow> nat \<Rightarrow> gname" where
  "end_of ens i j = NStr (the (ens ! i) ! j)"

definition ends_wf :: "nat \<Rightarrow> string list option list \<Rightarrow> bool" where
  "ends_wf n ens \<longleftrightarrow>
     length ens = n \<and> (\<forall>i < n. \<exists>ns. ens ! i = Some ns \<and> length ns = n) \<and>
     inj_on (\<lambda>(i, j). end_of ens i j) ({..<n} \<times> {..<n})"

lemma ends_wf_eq:
  "ends_wf n ens \<Longrightarrow> i < n \<Longrightarrow> j < n \<Longrightarrow> i' < n \<Longrightarrow> j' < n \<Longrightarrow>
     end_of ens i j = end_of ens i' j' \<longleftrightarrow> i = i' \<and> j = j'"
  by (auto simp: ends_wf_def dest: inj_onD [where x = "(i, j)" and y = "(i', j')"])

lemma endname_at_wf:
  "ends_wf n ens \<Longrightarrow> i < n \<Longrightarrow> j < n \<Longrightarrow> endname_at ens i j = Inr (end_of ens i j)"
  by (auto simp: ends_wf_def endname_at_def end_of_def go_nth_def)

lemma enable_both_ways:
  assumes wf: "ends_wf n ens" and i: "i < n" and js: "set js \<subseteq> {..<n}"
  shows "\<exists>net1 net2.
     enable_ends g1 (endname_at ens i) b js net = Inr net1 \<and>
     enable_ends g2 (\<lambda>j. endname_at ens j i) b js net1 = Inr net2 \<and> same_but_enabled net net2 \<and>
     (\<forall>x < n. \<forall>y < n. enabled_at net2 (end_of ens x y) =
        (if x = i \<and> y \<in> set js \<and> g1 y \<or> y = i \<and> x \<in> set js \<and> g2 x then b else enabled_at net (end_of ens x y)))"
proof -
  obtain net1 where net1: "enable_ends g1 (endname_at ens i) b js net = Inr net1" "same_but_enabled net net1"
    and out: "\<forall>e. enabled_at net1 e = (if \<exists>j \<in> set js. g1 j \<and> end_of ens i j = e then b else enabled_at net e)"
    using enable_ends_result [of js g1 "endname_at ens i" "end_of ens i" b net] endname_at_wf [OF wf i] js by auto
  obtain net2 where net2: "enable_ends g2 (\<lambda>j. endname_at ens j i) b js net1 = Inr net2" "same_but_enabled net1 net2"
    and inc: "\<forall>e. enabled_at net2 e = (if \<exists>j \<in> set js. g2 j \<and> end_of ens j i = e then b else enabled_at net1 e)"
    using enable_ends_result [of js g2 "\<lambda>j. endname_at ens j i" "\<lambda>j. end_of ens j i" b net1]
      endname_at_wf [OF wf _ i] js by auto
  have "enabled_at net2 (end_of ens x y) =
      (if x = i \<and> y \<in> set js \<and> g1 y \<or> y = i \<and> x \<in> set js \<and> g2 x then b else enabled_at net (end_of ens x y))"
    if "x < n" and "y < n" for x y
  proof -
    have "(\<exists>j \<in> set js. g1 j \<and> end_of ens i j = end_of ens x y) \<longleftrightarrow> x = i \<and> y \<in> set js \<and> g1 y"
      and "(\<exists>j \<in> set js. g2 j \<and> end_of ens j i = end_of ens x y) \<longleftrightarrow> y = i \<and> x \<in> set js \<and> g2 x"
      using that ends_wf_eq [OF wf] i js by auto
    with out inc show ?thesis by auto
  qed
  with net1 net2 same_but_enabled_trans show ?thesis by blast
qed

section \<open>Making ends\<close>

lemma make_ends_result:
  assumes "distinct js" and "inj_on rnd (set js)" and "\<forall>j \<in> set js. net_ends net (NStr (rnd j)) = None"
  shows "\<exists>net'. make_ends rnd srv en js net = Inr (net', map (\<lambda>j. \<lparr>ce_endname = NStr (rnd j)\<rparr>) js) \<and>
     net_servers net' = net_servers net \<and> reliable net' = reliable net \<and>
     dom (net_ends net') = dom (net_ends net) \<union> (\<lambda>j. NStr (rnd j)) ` set js \<and>
     (\<forall>e. enabled_at net' e = (if e \<in> (\<lambda>j. NStr (rnd j)) ` set js then en else enabled_at net e)) \<and>
     (\<forall>j \<in> set js. connection_at net' (NStr (rnd j)) = Some (srv j)) \<and>
     (\<forall>e. e \<notin> (\<lambda>j. NStr (rnd j)) ` set js \<longrightarrow> connection_at net' e = connection_at net e)"
  using assms
proof (induction js arbitrary: net)
  case (Cons j js)
  let ?e = "NStr (rnd j)"
  define net3 where "net3 = net\<lparr>net_ends := (net_ends net)(?e \<mapsto> \<lparr>ce_endname = ?e\<rparr>),
      net_enabled := (net_enabled net)(?e \<mapsto> en), net_connections := (net_connections net)(?e \<mapsto> Some (srv j))\<rparr>"
  have other: "rnd j' \<noteq> rnd j" if "j' \<in> set js" for j'
    using Cons.prems that by (auto simp: inj_on_def)
  from Cons.prems other have "distinct js" and "inj_on rnd (set js)"
    and "\<forall>j' \<in> set js. net_ends net3 (NStr (rnd j')) = None"
    by (auto simp: net3_def)
  note IH = Cons.IH [OF this]
  have step: "make_ends rnd srv en (j # js) net =
      go_bind (make_ends rnd srv en js net3) (\<lambda>(net4, es). Inr (net4, \<lparr>ce_endname = ?e\<rparr> # es))"
    using Cons.prems(3) by (cases net) (auto simp: MakeEnd_def Connect_def Enable_def net3_def Let_def)
  have at3: "enabled_at net3 e = (if e = ?e then en else enabled_at net e)"
      "connection_at net3 e = (if e = ?e then Some (srv j) else connection_at net e)"
      "dom (net_ends net3) = insert ?e (dom (net_ends net))"
      "net_servers net3 = net_servers net" "reliable net3 = reliable net" for e
    by (auto simp: net3_def enabled_at_def connection_at_def)
  from IH obtain net' where run: "make_ends rnd srv en js net3 = Inr (net', map (\<lambda>j. \<lparr>ce_endname = NStr (rnd j)\<rparr>) js)"
    and res: "net_servers net' = net_servers net3" "reliable net' = reliable net3"
      "dom (net_ends net') = dom (net_ends net3) \<union> (\<lambda>j. NStr (rnd j)) ` set js"
      "\<forall>e. enabled_at net' e = (if e \<in> (\<lambda>j. NStr (rnd j)) ` set js then en else enabled_at net3 e)"
      "\<forall>j \<in> set js. connection_at net' (NStr (rnd j)) = Some (srv j)"
      "\<forall>e. e \<notin> (\<lambda>j. NStr (rnd j)) ` set js \<longrightarrow> connection_at net' e = connection_at net3 e"
    by blast
  have new: "?e \<notin> (\<lambda>j. NStr (rnd j)) ` set js" using other by (metis gname.inject(1) imageE)
  show ?case
    unfolding step run
    using res at3 new by auto
qed simp

section \<open>Shuffling\<close>

lemma shuffle_mset: "\<forall>i \<in> set is. i < length sa \<Longrightarrow> mset (shuffle r is sa) = mset sa"
proof (induction "is" arbitrary: sa)
  case (Cons i "is")
  then have i: "i < length sa" by simp
  have "r i mod (i + 1) < i + 1" by simp
  with i have j: "r i mod (i + 1) < length sa" by linarith
  with Cons i show ?case by (simp add: Let_def mset_swap)
qed simp

lemma random_handles_mset: "mset (random_handles r kvh) = mset kvh"
  by (simp add: random_handles_def shuffle_mset)

end
