(* ===== verification/RaftConfig.thy ===== *)
theory RaftConfig
  imports RaftBase Tester
begin

text \<open>
  The tester of the Raft package, \<^verbatim>\<open>src/raft/config.go\<close>: the readers of the apply channels, which
  compare what the servers commit, and the questions the tests ask. What the Raft instances do
  is the environment: the messages on the apply channels are a list of pairs of a server and a
  message, in the order the readers take them, and \<^verbatim>\<open>GetState\<close> is a function.

  Shown here: the readers accept exactly the safe traces, those in which no two servers commit
  different commands at an index and every server commits its indexes without gaps; after a
  safe trace counting the servers that committed an index never fails; the leader that
  \<^verbatim>\<open>checkOneLeader\<close> returns is the connected one of the highest term; and a connection is enabled
  exactly when both its ends are connected.
\<close>

section \<open>State\<close>

record 'c config =
  cfg_n :: nat
  cfg_net :: Network
  cfg_connected :: "bool list"
  cfg_endnames :: "string list option list"
  cfg_logs :: "(int \<rightharpoonup> 'c option) list"
  cfg_lastApplied :: "int list"
  cfg_maxIndex :: int

datatype 'c apply_err =
    Mismatch int nat "'c option" nat "'c option"
  | OutOfOrder nat int
  | SnapshotIndexWrong nat

section \<open>Reading the apply channels\<close>

text \<open>The loop over the logs; a later mismatch overwrites the message of an earlier one.\<close>

fun find_mismatch ::
    "(int \<rightharpoonup> 'c option) list \<Rightarrow> nat \<Rightarrow> 'c ApplyMsg \<Rightarrow> nat \<Rightarrow> 'c apply_err option \<Rightarrow> 'c apply_err option" where
  "find_mismatch [] i m j err = err"
| "find_mismatch (lg # lgs) i m j err =
     find_mismatch lgs i m (Suc j)
       (case lg (CommandIndex m) of
          Some old \<Rightarrow> if old \<noteq> Command m then Some (Mismatch (CommandIndex m) i (Command m) j old) else err
        | None \<Rightarrow> err)"

definition checkLogs ::
    "'c config \<Rightarrow> nat \<Rightarrow> 'c ApplyMsg \<Rightarrow> ('c config \<times> 'c apply_err option \<times> bool) go" where
  "checkLogs cfg i m =
     go_bind (go_nth (cfg_logs cfg) (int i)) (\<lambda>lg.
       let err = find_mismatch (cfg_logs cfg) i m 0 None;
           prevok = (lg (CommandIndex m - 1) \<noteq> None);
           cfg1 = cfg\<lparr>cfg_logs := (cfg_logs cfg)[i := lg(CommandIndex m \<mapsto> Command m)]\<rparr>;
           cfg2 = (if CommandIndex m > cfg_maxIndex cfg1 then cfg1\<lparr>cfg_maxIndex := CommandIndex m\<rparr> else cfg1)
       in Inr (cfg2, err, prevok))"

text \<open>One turn of the loop of \<^verbatim>\<open>applier\<close>; an error ends the process.\<close>

definition applier_turn :: "'c config \<Rightarrow> nat \<times> 'c ApplyMsg \<Rightarrow> ('c config \<times> unit) go" where
  "applier_turn cfg = (\<lambda>(i, m).
     if \<not> CommandValid m then Inr (cfg, ())
     else go_bind (checkLogs cfg i m) (\<lambda>(cfg1, err, prevok).
            let err1 = (if CommandIndex m > 1 \<and> \<not> prevok then Some (OutOfOrder i (CommandIndex m)) else err)
            in if err1 \<noteq> None then Inl (LogFatal ''apply error'') else Inr (cfg1, ())))"

text \<open>
  \<open>decode\<close> stands for the gob decoder on a snapshot: the last included index and the log, None for
  an error.
\<close>

definition ingestSnap ::
    "(gbytes \<Rightarrow> (int \<times> 'c option list) option) \<Rightarrow> 'c config \<Rightarrow> nat \<Rightarrow> gbytes option \<Rightarrow> int \<Rightarrow>
     ('c config \<times> 'c apply_err option) go" where
  "ingestSnap decode cfg i snapshot index =
     (case snapshot of
        None \<Rightarrow> Inl (LogFatal ''nil snapshot'')
      | Some bs \<Rightarrow>
          (case decode bs of
             None \<Rightarrow> Inl (LogFatal ''snapshot decode error'')
           | Some (lastIncludedIndex, xlog) \<Rightarrow>
               if index \<noteq> -1 \<and> index \<noteq> lastIncludedIndex then Inr (cfg, Some (SnapshotIndexWrong i))
               else
                 go_bind (go_update (cfg_logs cfg) (int i)
                    (\<lambda>k. if 0 \<le> k \<and> k < int (length xlog) then Some (xlog ! nat k) else None)) (\<lambda>lgs.
                 go_bind (go_update (cfg_lastApplied cfg) (int i) lastIncludedIndex) (\<lambda>la.
                   Inr (cfg\<lparr>cfg_logs := lgs, cfg_lastApplied := la\<rparr>, None)))))"

section \<open>Connections\<close>

text \<open>Loops over \<open>j\<close> below \<^verbatim>\<open>cfg.n\<close>; an index into a nil slice of names panics.\<close>

definition connect :: "nat \<Rightarrow> 'c config \<Rightarrow> 'c config go" where
  "connect i cfg =
     go_bind (go_update (cfg_connected cfg) (int i) True) (\<lambda>con.
       let cfg1 = cfg\<lparr>cfg_connected := con\<rparr>
       in go_bind (enable_ends (\<lambda>j. con ! j) (\<lambda>j. endname_at (cfg_endnames cfg1) i j) True [0..<cfg_n cfg] (cfg_net cfg1)) (\<lambda>net1.
          go_bind (enable_ends (\<lambda>j. con ! j) (\<lambda>j. endname_at (cfg_endnames cfg1) j i) True [0..<cfg_n cfg] net1) (\<lambda>net2.
            Inr (cfg1\<lparr>cfg_net := net2\<rparr>))))"

definition disconnect :: "nat \<Rightarrow> 'c config \<Rightarrow> 'c config go" where
  "disconnect i cfg =
     go_bind (go_update (cfg_connected cfg) (int i) False) (\<lambda>con.
       let cfg1 = cfg\<lparr>cfg_connected := con\<rparr>
       in go_bind (enable_ends (\<lambda>j. cfg_endnames cfg1 ! i \<noteq> None) (\<lambda>j. endname_at (cfg_endnames cfg1) i j) False [0..<cfg_n cfg] (cfg_net cfg1)) (\<lambda>net1.
          go_bind (enable_ends (\<lambda>j. cfg_endnames cfg1 ! j \<noteq> None) (\<lambda>j. endname_at (cfg_endnames cfg1) j i) False [0..<cfg_n cfg] net1) (\<lambda>net2.
            Inr (cfg1\<lparr>cfg_net := net2\<rparr>))))"

section \<open>Questions of the tests\<close>

text \<open>\<open>gs i\<close> is the result of \<^verbatim>\<open>GetState\<close> on server \<open>i\<close>: its term and whether it takes itself for the leader.\<close>

fun collect_leaders :: "bool list \<Rightarrow> (nat \<Rightarrow> int \<times> bool) \<Rightarrow> nat list \<Rightarrow> (int \<rightharpoonup> nat list) \<Rightarrow> int \<rightharpoonup> nat list" where
  "collect_leaders con gs [] leaders = leaders"
| "collect_leaders con gs (i # is) leaders =
     collect_leaders con gs is
       (if con ! i \<and> snd (gs i)
        then leaders(fst (gs i) \<mapsto> (case leaders (fst (gs i)) of None \<Rightarrow> [] | Some l \<Rightarrow> l) @ [i])
        else leaders)"

text \<open>The loop over the map, in the order \<open>terms\<close> that the run time picks.\<close>

fun scan_terms :: "(int \<rightharpoonup> nat list) \<Rightarrow> int list \<Rightarrow> int \<Rightarrow> int go" where
  "scan_terms leaders [] lastTerm = Inr lastTerm"
| "scan_terms leaders (term # terms) lastTerm =
     (if 1 < length (the (leaders term)) then Inl (LogFatal ''more than one leader'')
      else scan_terms leaders terms (if term > lastTerm then term else lastTerm))"

text \<open>
  The ten attempts; \<open>gs\<close> and \<open>order\<close> give the states and the map order of each. \<open>left\<close> counts the
  attempts that remain.
\<close>

fun checkOneLeader_loop ::
    "nat \<Rightarrow> 'c config \<Rightarrow> (nat \<Rightarrow> nat \<Rightarrow> int \<times> bool) \<Rightarrow> (nat \<Rightarrow> int list) \<Rightarrow> nat \<Rightarrow> nat go" where
  "checkOneLeader_loop 0 cfg gs order iters = Inl (LogFatal ''expected one leader, got none'')"
| "checkOneLeader_loop (Suc left) cfg gs order iters =
     (let leaders = collect_leaders (cfg_connected cfg) (gs iters) [0..<cfg_n cfg] Map.empty
      in go_bind (scan_terms leaders (order iters) (-1)) (\<lambda>lastTerm.
           if leaders \<noteq> Map.empty
           then (case leaders lastTerm of
                   Some (l # _) \<Rightarrow> Inr l
                 | _ \<Rightarrow> Inl IndexOutOfRange)
           else checkOneLeader_loop left cfg gs order (Suc iters)))"

definition checkOneLeader :: "'c config \<Rightarrow> (nat \<Rightarrow> nat \<Rightarrow> int \<times> bool) \<Rightarrow> (nat \<Rightarrow> int list) \<Rightarrow> nat go" where
  "checkOneLeader cfg gs order = checkOneLeader_loop 10 cfg gs order 0"

fun checkTerms_loop :: "bool list \<Rightarrow> (nat \<Rightarrow> int \<times> bool) \<Rightarrow> nat list \<Rightarrow> int \<Rightarrow> int go" where
  "checkTerms_loop con gs [] term = Inr term"
| "checkTerms_loop con gs (i # is) term =
     (if con ! i
      then let xterm = fst (gs i)
           in if term = -1 then checkTerms_loop con gs is xterm
              else if term \<noteq> xterm then Inl (LogFatal ''servers disagree on term'')
              else checkTerms_loop con gs is term
      else checkTerms_loop con gs is term)"

definition checkTerms :: "'c config \<Rightarrow> (nat \<Rightarrow> int \<times> bool) \<Rightarrow> int go" where
  "checkTerms cfg gs = checkTerms_loop (cfg_connected cfg) gs [0..<cfg_n cfg] (-1)"

definition checkNoLeader :: "'c config \<Rightarrow> (nat \<Rightarrow> int \<times> bool) \<Rightarrow> unit go" where
  "checkNoLeader cfg gs =
     (if list_ex (\<lambda>i. cfg_connected cfg ! i \<and> snd (gs i)) [0..<cfg_n cfg]
      then Inl (LogFatal ''expected no leader among connected servers'') else Inr ())"

fun nCommitted_loop ::
    "(int \<rightharpoonup> 'c option) list \<Rightarrow> int \<Rightarrow> nat \<Rightarrow> 'c option \<Rightarrow> (nat \<times> 'c option) go" where
  "nCommitted_loop [] index cnt cmd = Inr (cnt, cmd)"
| "nCommitted_loop (lg # lgs) index cnt cmd =
     (case lg index of
        None \<Rightarrow> nCommitted_loop lgs index cnt cmd
      | Some cmd1 \<Rightarrow>
          if 0 < cnt \<and> cmd \<noteq> cmd1 then Inl (LogFatal ''committed values do not match'')
          else nCommitted_loop lgs index (cnt + 1) cmd1)"

definition nCommitted :: "'c config \<Rightarrow> int \<Rightarrow> (nat \<times> 'c option) go" where
  "nCommitted cfg index = nCommitted_loop (cfg_logs cfg) index 0 None"

text \<open>
  \<^verbatim>\<open>wait\<close>, with thirty attempts: \<open>cfgs k\<close> is the state at the \<open>k\<close>-th look, \<open>terms k\<close> the terms the servers
  then report; the loop gives the number of the next look. The result None is the early return when a server has moved on to a later term.
\<close>

fun wait_loop ::
    "nat \<Rightarrow> (nat \<Rightarrow> 'c config) \<Rightarrow> (nat \<Rightarrow> int list) \<Rightarrow> int \<Rightarrow> nat \<Rightarrow> int \<Rightarrow> nat \<Rightarrow> nat option go" where
  "wait_loop 0 cfgs terms index n startTerm k = Inr (Some k)"
| "wait_loop (Suc left) cfgs terms index n startTerm k =
     go_bind (nCommitted (cfgs k) index) (\<lambda>(nd, _).
       if n \<le> nd then Inr (Some (Suc k))
       else if startTerm > -1 \<and> (\<exists>t \<in> set (terms k). t > startTerm) then Inr None
       else wait_loop left cfgs terms index n startTerm (Suc k))"

definition wait ::
    "(nat \<Rightarrow> 'c config) \<Rightarrow> (nat \<Rightarrow> int list) \<Rightarrow> int \<Rightarrow> nat \<Rightarrow> int \<Rightarrow> 'c option option go" where
  "wait cfgs terms index n startTerm =
     go_bind (wait_loop 30 cfgs terms index n startTerm 0) (\<lambda>r.
       case r of
         None \<Rightarrow> Inr None
       | Some k \<Rightarrow>
           go_bind (nCommitted (cfgs k) index) (\<lambda>(nd, cmd).
             if nd < n then Inl (LogFatal ''only some decided'') else Inr (Some cmd)))"

section \<open>The readers accept exactly the safe traces\<close>

text \<open>
  A trace is a list of servers and messages. A further message is safe after a trace when no
  server committed another command at its index, and, unless it is the first index, the same
  server committed the index before.
\<close>

definition msg_safe :: "(nat \<times> 'c ApplyMsg) list \<Rightarrow> nat \<times> 'c ApplyMsg \<Rightarrow> bool" where
  "msg_safe tr = (\<lambda>(i, m). CommandValid m \<longrightarrow>
     (\<forall>(j, m1) \<in> set tr. CommandValid m1 \<and> CommandIndex m1 = CommandIndex m \<longrightarrow> Command m1 = Command m) \<and>
     (CommandIndex m > 1 \<longrightarrow>
        (\<exists>m1. (i, m1) \<in> set tr \<and> CommandValid m1 \<and> CommandIndex m1 = CommandIndex m - 1)))"

definition trace_safe :: "(nat \<times> 'c ApplyMsg) list \<Rightarrow> bool" where
  "trace_safe tr \<longleftrightarrow> (\<forall>k < length tr. msg_safe (take k tr) (tr ! k))"

lemma trace_safe_Nil [simp]: "trace_safe []"
  by (simp add: trace_safe_def)

lemma trace_safe_snoc: "trace_safe (tr @ [x]) \<longleftrightarrow> trace_safe tr \<and> msg_safe tr x"
  by (auto simp: trace_safe_def nth_append less_Suc_eq)

text \<open>The logs of the tester hold what the trace delivered.\<close>

definition logs_hold :: "'c config \<Rightarrow> (nat \<times> 'c ApplyMsg) list \<Rightarrow> bool" where
  "logs_hold cfg tr \<longleftrightarrow> length (cfg_logs cfg) = cfg_n cfg \<and>
     (\<forall>j < cfg_n cfg. \<forall>idx v. (cfg_logs cfg ! j) idx = Some v \<longleftrightarrow>
        (\<exists>m. (j, m) \<in> set tr \<and> CommandValid m \<and> CommandIndex m = idx \<and> Command m = v))"

lemma find_mismatch_None:
  "find_mismatch lgs i m j err = None \<longleftrightarrow>
     err = None \<and> (\<forall>lg \<in> set lgs. \<forall>old. lg (CommandIndex m) = Some old \<longrightarrow> old = Command m)"
  by (induction lgs i m j err rule: find_mismatch.induct) (auto split: option.splits)

lemma applier_turn_iff:
  assumes "i < length (cfg_logs cfg)" and "CommandValid m"
  shows "applier_turn cfg (i, m) = Inr (cfg', ()) \<longleftrightarrow>
     (\<forall>lg \<in> set (cfg_logs cfg). \<forall>old. lg (CommandIndex m) = Some old \<longrightarrow> old = Command m) \<and>
     (CommandIndex m > 1 \<longrightarrow> (cfg_logs cfg ! i) (CommandIndex m - 1) \<noteq> None) \<and>
     cfg' = cfg\<lparr>cfg_logs := (cfg_logs cfg)[i := (cfg_logs cfg ! i)(CommandIndex m \<mapsto> Command m)],
                cfg_maxIndex := max (cfg_maxIndex cfg) (CommandIndex m)\<rparr>"
proof -
  have "checkLogs cfg i m = Inr (cfg\<lparr>cfg_logs := (cfg_logs cfg)[i := (cfg_logs cfg ! i)(CommandIndex m \<mapsto> Command m)],
      cfg_maxIndex := max (cfg_maxIndex cfg) (CommandIndex m)\<rparr>,
      find_mismatch (cfg_logs cfg) i m 0 None, (cfg_logs cfg ! i) (CommandIndex m - 1) \<noteq> None)"
    using assms(1) by (simp add: checkLogs_def go_nth_def Let_def max_def)
  moreover have "find_mismatch (cfg_logs cfg) i m 0 None = None \<longleftrightarrow>
      (\<forall>lg \<in> set (cfg_logs cfg). \<forall>old. lg (CommandIndex m) = Some old \<longrightarrow> old = Command m)"
    by (simp add: find_mismatch_None)
  ultimately show ?thesis
    using assms(2) by (auto simp: applier_turn_def simp del: not_None_eq)
qed

lemma logs_hold_mismatch:
  assumes "logs_hold cfg tr" and "\<forall>(j, m) \<in> set tr. j < cfg_n cfg"
  shows "(\<forall>lg \<in> set (cfg_logs cfg). \<forall>old. lg idx = Some old \<longrightarrow> old = v) \<longleftrightarrow>
     (\<forall>(j, m) \<in> set tr. CommandValid m \<and> CommandIndex m = idx \<longrightarrow> Command m = v)"
proof -
  have at: "(cfg_logs cfg ! j) idx = Some u \<longleftrightarrow>
      (\<exists>m. (j, m) \<in> set tr \<and> CommandValid m \<and> CommandIndex m = idx \<and> Command m = u)"
    if "j < cfg_n cfg" for j u
    using assms(1) that by (simp add: logs_hold_def)
  have "(\<forall>lg \<in> set (cfg_logs cfg). \<forall>old. lg idx = Some old \<longrightarrow> old = v) \<longleftrightarrow>
      (\<forall>j < cfg_n cfg. \<forall>u. (cfg_logs cfg ! j) idx = Some u \<longrightarrow> u = v)"
    using assms(1) by (simp add: logs_hold_def all_set_conv_all_nth)
  also have "\<dots> \<longleftrightarrow> (\<forall>j < cfg_n cfg. \<forall>m. (j, m) \<in> set tr \<and> CommandValid m \<and> CommandIndex m = idx \<longrightarrow> Command m = v)"
    by (auto simp: at)
  also have "\<dots> \<longleftrightarrow> (\<forall>(j, m) \<in> set tr. CommandValid m \<and> CommandIndex m = idx \<longrightarrow> Command m = v)"
    using assms(2) by blast
  finally show ?thesis .
qed

lemma logs_hold_update:
  assumes "logs_hold cfg tr" and "i < cfg_n cfg" and "CommandValid m"
    and "\<forall>(j, m1) \<in> set tr. CommandValid m1 \<and> CommandIndex m1 = CommandIndex m \<longrightarrow> Command m1 = Command m"
  shows "logs_hold (cfg\<lparr>cfg_logs := (cfg_logs cfg)[i := (cfg_logs cfg ! i)(CommandIndex m \<mapsto> Command m)],
      cfg_maxIndex := k\<rparr>) (tr @ [(i, m)])"
proof -
  have "((cfg_logs cfg)[i := (cfg_logs cfg ! i)(CommandIndex m \<mapsto> Command m)] ! j) idx = Some v \<longleftrightarrow>
      (\<exists>m1. (j, m1) \<in> set (tr @ [(i, m)]) \<and> CommandValid m1 \<and> CommandIndex m1 = idx \<and> Command m1 = v)"
    if "j < cfg_n cfg" for j idx v
  proof (cases "j = i \<and> idx = CommandIndex m")
    case True
    then show ?thesis using assms by (auto simp: logs_hold_def)
  next
    case False
    then have "((cfg_logs cfg)[i := (cfg_logs cfg ! i)(CommandIndex m \<mapsto> Command m)] ! j) idx = (cfg_logs cfg ! j) idx"
      using assms(1,2) by (auto simp: logs_hold_def nth_list_update)
    with False that assms(1) show ?thesis by (auto simp: logs_hold_def)
  qed
  with assms(1) show ?thesis by (simp add: logs_hold_def)
qed

lemma applier_turn_safe:
  assumes hold: "logs_hold cfg tr" and range: "\<forall>(j, m) \<in> set tr. j < cfg_n cfg" and i: "i < cfg_n cfg"
  shows "(\<exists>cfg'. applier_turn cfg (i, m) = Inr (cfg', ())) \<longleftrightarrow> msg_safe tr (i, m)"
    and "applier_turn cfg (i, m) = Inr (cfg', ()) \<Longrightarrow>
      logs_hold cfg' (tr @ [(i, m)]) \<and> cfg_n cfg' = cfg_n cfg"
proof -
  have len: "i < length (cfg_logs cfg)" using hold i by (simp add: logs_hold_def)
  have prev: "(cfg_logs cfg ! i) idx \<noteq> None \<longleftrightarrow>
      (\<exists>m1. (i, m1) \<in> set tr \<and> CommandValid m1 \<and> CommandIndex m1 = idx)" for idx
    using hold i by (auto simp: logs_hold_def)
  show "(\<exists>cfg'. applier_turn cfg (i, m) = Inr (cfg', ())) \<longleftrightarrow> msg_safe tr (i, m)"
  proof (cases "CommandValid m")
    case True
    then show ?thesis
      by (simp add: applier_turn_iff [OF len True] logs_hold_mismatch [OF hold range] msg_safe_def prev del: not_None_eq)
  next
    case False
    then show ?thesis by (simp add: applier_turn_def msg_safe_def)
  qed
  assume turn: "applier_turn cfg (i, m) = Inr (cfg', ())"
  show "logs_hold cfg' (tr @ [(i, m)]) \<and> cfg_n cfg' = cfg_n cfg"
  proof (cases "CommandValid m")
    case True
    with turn show ?thesis
      using logs_hold_update [OF hold i True] by (simp add: applier_turn_iff [OF len True] logs_hold_mismatch [OF hold range])
  next
    case False
    with turn hold show ?thesis by (auto simp: applier_turn_def logs_hold_def)
  qed
qed

lemma appliers_accept:
  assumes "\<forall>(j, m) \<in> set tr. j < cfg_n cfg" and "cfg_logs cfg = replicate (cfg_n cfg) Map.empty"
  shows "(\<exists>r. go_run applier_turn cfg tr = Inr r) \<longleftrightarrow> trace_safe tr"
    and "go_run applier_turn cfg tr = Inr (cfg', os) \<Longrightarrow> logs_hold cfg' tr \<and> cfg_n cfg' = cfg_n cfg"
  using assms(1)
proof (induction tr arbitrary: cfg' os rule: rev_induct)
  case Nil
  case 1
  show ?case by simp
  case 2
  with assms(2) show ?case by (auto simp: logs_hold_def)
next
  case (snoc x tr)
  obtain i m where x: "x = (i, m)" by fastforce
  case 1
  then have range: "\<forall>(j, m) \<in> set tr. j < cfg_n cfg" and i: "i < cfg_n cfg" using x by auto
  show ?case
  proof (cases "trace_safe tr")
    case True
    then obtain cfg1 os1 where run: "go_run applier_turn cfg tr = Inr (cfg1, os1)"
      using snoc(1) [OF range] by auto
    from snoc(2) [OF run range] have hold: "logs_hold cfg1 tr" and n: "cfg_n cfg1 = cfg_n cfg" by auto
    with range i have "(\<exists>cfg'. applier_turn cfg1 (i, m) = Inr (cfg', ())) \<longleftrightarrow> msg_safe tr (i, m)"
      by (intro applier_turn_safe(1)) simp_all
    with run True x show ?thesis by (auto simp: go_run_snoc_Inr trace_safe_snoc)
  next
    case False
    then have "\<nexists>r. go_run applier_turn cfg tr = Inr r" using snoc(1) [OF range] by blast
    with False show ?thesis by (auto simp: go_run_snoc_Inr trace_safe_snoc)
  qed
next
  case (snoc x tr)
  obtain i m where x: "x = (i, m)" by fastforce
  case 2
  then have range: "\<forall>(j, m) \<in> set tr. j < cfg_n cfg" and i: "i < cfg_n cfg" using x by auto
  from 2 obtain cfg1 os1 where run: "go_run applier_turn cfg tr = Inr (cfg1, os1)"
    and turn: "applier_turn cfg1 (i, m) = Inr (cfg', ())"
    using x by (auto simp: go_run_snoc_Inr)
  from snoc(2) [OF run range] have hold: "logs_hold cfg1 tr" and n: "cfg_n cfg1 = cfg_n cfg" by auto
  with range i have "logs_hold cfg' (tr @ [(i, m)]) \<and> cfg_n cfg' = cfg_n cfg1"
    by (intro applier_turn_safe(2) [OF hold _ _ turn]) simp_all
  with n x show ?case by simp
qed

text \<open>
  C6: the readers of the apply channels pass a trace of committed messages, whatever the
  interleaving of the servers, exactly when it is safe: no two messages have one index and
  different commands, and every server delivers an index above one only after the index before
  it. A safe trace raises no alarm, an unsafe one ends the test.
\<close>

theorem appliers_accept_exactly_safe_traces:
  assumes "\<forall>(j, m) \<in> set tr. j < cfg_n cfg" and "cfg_logs cfg = replicate (cfg_n cfg) Map.empty"
  shows "(\<exists>r. go_run applier_turn cfg tr = Inr r) \<longleftrightarrow>
     (\<forall>k < length tr. msg_safe (take k tr) (tr ! k))"
  using appliers_accept(1) [OF assms] by (simp add: trace_safe_def)


definition example_apply :: "int \<Rightarrow> nat \<Rightarrow> nat ApplyMsg" where
  "example_apply index v = \<lparr>CommandValid = True, Command = Some v, CommandIndex = index,
     SnapshotValid = False, Snapshot = None, SnapshotTerm = 0, SnapshotIndex = 0\<rparr>"

definition example_config :: "nat config" where
  "example_config = \<lparr>cfg_n = 2, cfg_net = MakeNetwork, cfg_connected = [False, False],
     cfg_endnames = [Some [''a'', ''b''], Some [''c'', ''d'']],
     cfg_logs = replicate 2 Map.empty, cfg_lastApplied = [0, 0], cfg_maxIndex = 0\<rparr>"

definition example_trace :: "(nat \<times> nat ApplyMsg) list" where
  "example_trace = [(0, example_apply 1 7), (1, example_apply 1 7), (0, example_apply 2 8)]"

lemma appliers_accept_exactly_safe_traces_witness:
  "(\<exists>r. go_run applier_turn example_config example_trace = Inr r) \<and>
   trace_safe example_trace"
proof -
  have "\<exists>r. go_run applier_turn example_config example_trace = Inr r"
    by (simp add: example_trace_def example_config_def example_apply_def applier_turn_def checkLogs_def go_nth_def
        Let_def numeral_2_eq_2)
  moreover have "\<forall>(j, m) \<in> set example_trace. j < cfg_n example_config"
    and "cfg_logs example_config = replicate (cfg_n example_config) Map.empty"
    by (simp_all add: example_trace_def example_config_def)
  ultimately show ?thesis unfolding trace_safe_def using appliers_accept_exactly_safe_traces by blast
qed

section \<open>Counting commits\<close>

lemma trace_safe_agree:
  assumes "trace_safe tr" and "(i, m) \<in> set tr" and "(j, m1) \<in> set tr" and "CommandValid m" and "CommandValid m1"
    and "CommandIndex m = CommandIndex m1"
  shows "Command m = Command m1"
  using assms
proof (induction tr rule: rev_induct)
  case (snoc x tr)
  then show ?case by (auto simp: trace_safe_snoc msg_safe_def)
qed simp

lemma trace_safe_command:
  assumes "trace_safe tr"
  obtains v where "\<forall>(j, m) \<in> set tr. CommandValid m \<and> CommandIndex m = idx \<longrightarrow> Command m = v"
proof (cases "\<exists>i m. (i, m) \<in> set tr \<and> CommandValid m \<and> CommandIndex m = idx")
  case True
  then obtain i m where m: "(i, m) \<in> set tr" "CommandValid m" "CommandIndex m = idx" by blast
  have "Command m1 = Command m" if "(j, m1) \<in> set tr" "CommandValid m1" "CommandIndex m1 = idx" for j m1
    using trace_safe_agree [OF assms that(1) m(1) that(2) m(2)] that(3) m(3) by simp
  then have "\<forall>(j, m1) \<in> set tr. CommandValid m1 \<and> CommandIndex m1 = idx \<longrightarrow> Command m1 = Command m" by auto
  then show ?thesis by (rule that)
next
  case False
  then have "\<forall>(j, m1) \<in> set tr. CommandValid m1 \<and> CommandIndex m1 = idx \<longrightarrow> Command m1 = None" by auto
  then show ?thesis by (rule that)
qed

lemma nCommitted_loop_agree:
  assumes "\<forall>lg \<in> set lgs. \<forall>old. lg idx = Some old \<longrightarrow> old = v"
  shows "0 < cnt \<longrightarrow> cmd = v \<Longrightarrow>
     nCommitted_loop lgs idx cnt cmd =
       Inr (cnt + length (filter (\<lambda>lg. lg idx \<noteq> None) lgs),
            if \<exists>lg \<in> set lgs. lg idx \<noteq> None then v else cmd)"
  using assms
proof (induction lgs arbitrary: cnt cmd)
  case (Cons lg lgs)
  show ?case
  proof (cases "lg idx")
    case None
    with Cons show ?thesis by simp
  next
    case (Some old)
    with Cons.prems(2) have "old = v" by simp
    with Cons Some show ?thesis by auto
  qed
qed simp

text \<open>The servers to which a trace delivered a command at an index.\<close>

definition committers :: "(nat \<times> 'c ApplyMsg) list \<Rightarrow> int \<Rightarrow> nat set" where
  "committers tr idx = {j. \<exists>m. (j, m) \<in> set tr \<and> CommandValid m \<and> CommandIndex m = idx}"

lemma logs_hold_committers:
  assumes "logs_hold cfg tr" and "\<forall>(j, m) \<in> set tr. j < cfg_n cfg"
  shows "j < length (cfg_logs cfg) \<and> (cfg_logs cfg ! j) idx \<noteq> None \<longleftrightarrow> j \<in> committers tr idx"
proof (cases "j < cfg_n cfg")
  case True
  with assms(1) show ?thesis by (auto simp: logs_hold_def committers_def)
next
  case False
  with assms(2) have "(j, m) \<notin> set tr" for m by auto
  with False assms(1) show ?thesis by (simp add: logs_hold_def committers_def)
qed

lemma logs_hold_card:
  assumes "logs_hold cfg tr" and "\<forall>(j, m) \<in> set tr. j < cfg_n cfg"
  shows "length (filter (\<lambda>lg. lg idx \<noteq> None) (cfg_logs cfg)) = card (committers tr idx)"
  using logs_hold_committers [OF assms, of _ idx]
  by (simp only: length_filter_conv_card Collect_mem_eq)

lemma logs_hold_some:
  assumes "logs_hold cfg tr" and "\<forall>(j, m) \<in> set tr. j < cfg_n cfg" and "j \<in> committers tr idx"
  shows "\<exists>lg \<in> set (cfg_logs cfg). lg idx \<noteq> None"
  using logs_hold_committers [OF assms(1,2), of j idx] assms(3) nth_mem by blast

text \<open>
  After a trace that the readers accept, asking how many servers committed an index does not
  fail: it gives the number of servers to which the trace delivered a command at that index, and
  the one command that was delivered there.
\<close>

theorem nCommitted_counts_after_safe_trace:
  assumes "\<forall>(j, m) \<in> set tr. j < cfg_n cfg" and "cfg_logs cfg = replicate (cfg_n cfg) Map.empty"
    and "go_run applier_turn cfg tr = Inr (cfg', os)"
  shows "\<exists>cmd. nCommitted cfg' idx = Inr (card (committers tr idx), cmd) \<and>
     (\<forall>(j, m) \<in> set tr. CommandValid m \<and> CommandIndex m = idx \<longrightarrow> Command m = cmd)"
proof -
  have "trace_safe tr" using appliers_accept(1) [OF assms(1,2)] assms(3) by blast
  then obtain v where all: "\<forall>(j, m) \<in> set tr. CommandValid m \<and> CommandIndex m = idx \<longrightarrow> Command m = v"
    by (rule trace_safe_command)
  have hold: "logs_hold cfg' tr" and range: "\<forall>(j, m) \<in> set tr. j < cfg_n cfg'"
    using appliers_accept(2) [OF assms(1,2,3)] assms(1) by auto
  let ?cmd = "if \<exists>lg \<in> set (cfg_logs cfg'). lg idx \<noteq> None then v else None"
  have logs: "\<forall>lg \<in> set (cfg_logs cfg'). \<forall>old. lg idx = Some old \<longrightarrow> old = v"
    using logs_hold_mismatch [OF hold range] all by simp
  have "nCommitted cfg' idx = Inr (card (committers tr idx), ?cmd)"
    using nCommitted_loop_agree [OF logs, of 0 None] logs_hold_card [OF hold range, of idx]
    by (simp add: nCommitted_def del: not_None_eq)
  moreover have "\<forall>(j, m) \<in> set tr. CommandValid m \<and> CommandIndex m = idx \<longrightarrow> Command m = ?cmd"
  proof (clarify)
    fix j m
    assume jm: "(j, m) \<in> set tr" "CommandValid m" "idx = CommandIndex m"
    then have "j \<in> committers tr idx" by (auto simp: committers_def)
    with logs_hold_some [OF hold range] have "\<exists>lg \<in> set (cfg_logs cfg'). lg idx \<noteq> None" .
    with jm all show "Command m = (if \<exists>lg \<in> set (cfg_logs cfg'). lg (CommandIndex m) \<noteq> None then v else None)"
      by auto
  qed
  ultimately show ?thesis by blast
qed

lemma nCommitted_counts_after_safe_trace_witness:
  "\<exists>cfg' os cmd. go_run applier_turn example_config example_trace = Inr (cfg', os) \<and>
     nCommitted cfg' 1 = Inr (card (committers example_trace 1), cmd) \<and> cmd = Some 7"
proof -
  obtain cfg' os where run: "go_run applier_turn example_config example_trace = Inr (cfg', os)"
    by (simp add: example_trace_def example_config_def example_apply_def applier_turn_def checkLogs_def go_nth_def
        Let_def numeral_2_eq_2)
  have "\<forall>(j, m) \<in> set example_trace. j < cfg_n example_config"
    and "cfg_logs example_config = replicate (cfg_n example_config) Map.empty"
    by (simp_all add: example_trace_def example_config_def)
  from nCommitted_counts_after_safe_trace [OF this run, of 1] obtain cmd
    where "nCommitted cfg' 1 = Inr (card (committers example_trace 1), cmd)"
      and "\<forall>(j, m) \<in> set example_trace. CommandValid m \<and> CommandIndex m = 1 \<longrightarrow> Command m = cmd" by blast
  with run show ?thesis by (auto simp: example_trace_def example_apply_def)
qed


section \<open>Leaders\<close>

lemma collect_leaders_at:
  "collect_leaders con gs is leaders t =
     (let ls = filter (\<lambda>i. con ! i \<and> snd (gs i) \<and> fst (gs i) = t) is
      in if ls = [] then leaders t
         else Some ((case leaders t of None \<Rightarrow> [] | Some l \<Rightarrow> l) @ ls))"
proof (induction "is" arbitrary: leaders)
  case (Cons i "is")
  show ?case
    unfolding collect_leaders.simps Cons.IH
    by (cases "con ! i \<and> snd (gs i)"; cases "fst (gs i) = t") (auto simp: Let_def)
qed simp

text \<open>The connected servers that take themselves for leaders in term \<open>t\<close>.\<close>

definition claimants :: "'c config \<Rightarrow> (nat \<Rightarrow> int \<times> bool) \<Rightarrow> int \<Rightarrow> nat list" where
  "claimants cfg gs t =
     filter (\<lambda>i. cfg_connected cfg ! i \<and> snd (gs i) \<and> fst (gs i) = t) [0..<cfg_n cfg]"

abbreviation leader_map :: "'c config \<Rightarrow> (nat \<Rightarrow> int \<times> bool) \<Rightarrow> int \<rightharpoonup> nat list" where
  "leader_map cfg gs \<equiv> collect_leaders (cfg_connected cfg) gs [0..<cfg_n cfg] Map.empty"

lemma leader_map_at: "leader_map cfg gs t = (if claimants cfg gs t = [] then None else Some (claimants cfg gs t))"
  by (simp add: collect_leaders_at claimants_def Let_def)

lemma leader_map_dom: "dom (leader_map cfg gs) = {t. claimants cfg gs t \<noteq> []}"
  by (auto simp: leader_map_at split: if_splits)

lemma scan_terms_ok:
  "\<forall>t \<in> set ts. length (the (leaders t)) \<le> 1 \<Longrightarrow> scan_terms leaders ts b = Inr (Max (insert b (set ts)))"
proof (induction ts arbitrary: b)
  case (Cons t ts)
  have "Max (insert (if t > b then t else b) (set ts)) = Max (insert b (insert t (set ts)))"
    by (cases "set ts = {}") (auto simp: max_def)
  with Cons show ?case by simp
qed simp

lemma scan_terms_fatal:
  "\<exists>t \<in> set ts. 1 < length (the (leaders t)) \<Longrightarrow> \<exists>e. scan_terms leaders ts b = Inl e"
  by (induction ts arbitrary: b) auto

lemma checkOneLeader_skip:
  assumes "\<forall>s < k. \<forall>t. claimants cfg (gs (iters + s)) t = []"
    and "\<forall>s. set (order s) = dom (leader_map cfg (gs s))"
  shows "k < left \<Longrightarrow>
     checkOneLeader_loop left cfg gs order iters = checkOneLeader_loop (left - k) cfg gs order (iters + k)"
  using assms(1)
proof (induction k)
  case (Suc k)
  then obtain left' where left: "left - k = Suc left'" by (metis Suc_diff_Suc Suc_lessD)
  have empty: "leader_map cfg (gs (iters + k)) = Map.empty"
    using Suc.prems(2) by (auto simp: leader_map_at)
  then have "order (iters + k) = []" using assms(2) by (metis dom_empty set_empty)
  with empty left have "checkOneLeader_loop (left - k) cfg gs order (iters + k) =
      checkOneLeader_loop left' cfg gs order (iters + Suc k)" by (simp add: Let_def)
  moreover have "left' = left - Suc k" using left by simp
  ultimately show ?case using Suc by simp
qed simp

text \<open>
  C26: at the first of the ten looks at which a connected server takes itself for the leader,
  \<^verbatim>\<open>checkOneLeader\<close> ends: the test fails if two connected servers claim one term, otherwise the result
  is the claimant of the highest term. The order in which the run time walks the map of leaders
  makes no difference. Terms are not negative.
\<close>

theorem checkOneLeader_highest_term:
  assumes "k < 10" and "\<forall>s < k. \<forall>t. claimants cfg (gs s) t = []"
    and "claimants cfg (gs k) t0 \<noteq> []" and "\<forall>i. 0 \<le> fst (gs k i)"
    and "\<forall>s. set (order s) = dom (leader_map cfg (gs s))"
  shows "(if \<exists>t. 1 < length (claimants cfg (gs k) t) then \<exists>e. checkOneLeader cfg gs order = Inl e
     else \<exists>l t. checkOneLeader cfg gs order = Inr l \<and> claimants cfg (gs k) t = [l] \<and>
            (\<forall>t'. claimants cfg (gs k) t' \<noteq> [] \<longrightarrow> t' \<le> t))"
proof -
  let ?m = "leader_map cfg (gs k)" and ?T = "{t. claimants cfg (gs k) t \<noteq> []}"
  obtain left' where left: "10 - k = Suc left'" using assms(1) by (metis Suc_diff_Suc)
  have loop: "checkOneLeader cfg gs order = checkOneLeader_loop (Suc left') cfg gs order k"
    using checkOneLeader_skip [of k cfg gs 0 order 10] assms(1,2,5) left by (simp add: checkOneLeader_def)
  have terms: "set (order k) = ?T" using assms(5) leader_map_dom by metis
  have the: "the (?m t) = claimants cfg (gs k) t" if "t \<in> ?T" for t using that by (simp add: leader_map_at)
  show ?thesis
  proof (cases "\<exists>t. 1 < length (claimants cfg (gs k) t)")
    case True
    then obtain t where "1 < length (claimants cfg (gs k) t)" by blast
    then have "t \<in> ?T" by auto
    with \<open>1 < _\<close> the terms have "\<exists>t \<in> set (order k). 1 < length (the (?m t))" by metis
    from scan_terms_fatal [OF this] obtain e where "scan_terms ?m (order k) (-1) = Inl e" by blast
    with True loop show ?thesis by (simp add: Let_def)
  next
    case False
    then have "\<forall>t \<in> set (order k). length (the (?m t)) \<le> 1" using the terms by (metis linorder_not_le)
    from scan_terms_ok [OF this] terms
    have scan: "scan_terms ?m (order k) (-1) = Inr (Max (insert (-1) ?T))" by simp
    have fin: "finite ?T" using terms by (metis finite_set)
    have pos: "0 \<le> t" if "t \<in> ?T" for t
      using that assms(4) by (auto simp: claimants_def filter_empty_conv)
    have "t0 \<in> ?T" using assms(3) by simp
    then have "0 \<le> Max ?T" using pos [of t0] Max_ge [OF fin, of t0] by linarith
    with fin \<open>t0 \<in> ?T\<close> have "Max (insert (-1) ?T) = Max ?T" by (subst Max_insert) auto
    moreover define t where "t = Max ?T"
    moreover have t: "t \<in> ?T" and top: "\<forall>t' \<in> ?T. t' \<le> t"
      using fin \<open>t0 \<in> ?T\<close> Max_in [of ?T] Max_ge by (auto simp: t_def)
    moreover have "\<not> 1 < length (claimants cfg (gs k) t)" using False by blast
    then obtain l where l: "claimants cfg (gs k) t = [l]"
      using t by (cases "claimants cfg (gs k) t") auto
    then have at: "?m t = Some [l]" by (simp add: leader_map_at)
    moreover have "?m \<noteq> Map.empty" using at by (metis option.distinct(1))
    ultimately have "checkOneLeader cfg gs order = Inr l" using loop scan by (simp add: Let_def)
    with False l top show ?thesis by auto
  qed
qed

definition example_states :: "nat \<Rightarrow> nat \<Rightarrow> int \<times> bool" where
  "example_states s i = (if s = 0 then (3, False) else if i = 0 then (3, True) else (4, True))"

lemma checkOneLeader_highest_term_witness:
  "checkOneLeader (example_config\<lparr>cfg_connected := [True, True]\<rparr>) example_states
      (\<lambda>s. if s = 0 then [] else [4, 3]) = Inr 1"
proof -
  let ?cfg = "example_config\<lparr>cfg_connected := [True, True]\<rparr>"
  let ?order = "\<lambda>s :: nat. if s = 0 then [] else [4, 3 :: int]"
  have cl: "claimants ?cfg (example_states s) t =
      (if s = 0 then [] else if t = 3 then [0] else if t = 4 then [1] else [])" for s t
    by (auto simp: claimants_def example_config_def example_states_def upt_rec numeral_2_eq_2)
  have "\<forall>s. set (?order s) = dom (leader_map ?cfg (example_states s))"
    unfolding leader_map_dom cl by auto
  moreover have "\<forall>s < 1. \<forall>t. claimants ?cfg (example_states s) t = []" and "claimants ?cfg (example_states 1) 3 \<noteq> []"
    and "\<not> (\<exists>t. 1 < length (claimants ?cfg (example_states 1) t))"
    by (simp_all add: cl)
  moreover have "\<forall>i. 0 \<le> fst (example_states 1 i)" by (simp add: example_states_def)
  ultimately obtain l t where l: "checkOneLeader ?cfg example_states ?order = Inr l"
    "claimants ?cfg (example_states 1) t = [l]"
    "\<forall>t'. claimants ?cfg (example_states 1) t' \<noteq> [] \<longrightarrow> t' \<le> t"
    using checkOneLeader_highest_term [of 1 ?cfg example_states 3 ?order] by auto
  from l(3) have "4 \<le> t" by (auto simp: cl)
  with l(2) have "l = 1" by (simp add: cl split: if_splits)
  with l(1) show ?thesis by simp
qed


section \<open>Connections\<close>

definition conn_inv :: "'c config \<Rightarrow> bool" where
  "conn_inv cfg \<longleftrightarrow> length (cfg_connected cfg) = cfg_n cfg \<and> ends_wf (cfg_n cfg) (cfg_endnames cfg) \<and>
     (\<forall>i < cfg_n cfg. \<forall>j < cfg_n cfg.
        enabled_at (cfg_net cfg) (end_of (cfg_endnames cfg) i j) \<longleftrightarrow> cfg_connected cfg ! i \<and> cfg_connected cfg ! j)"

lemma connect_inv:
  assumes "conn_inv cfg" and "i < cfg_n cfg"
  shows "\<exists>cfg'. connect i cfg = Inr cfg' \<and> conn_inv cfg' \<and> cfg_n cfg' = cfg_n cfg \<and>
     cfg_connected cfg' = (cfg_connected cfg)[i := True]"
proof -
  let ?con = "(cfg_connected cfg)[i := True]"
  let ?n = "cfg_n cfg" and ?ens = "cfg_endnames cfg"
  have wf: "ends_wf ?n ?ens" and len: "length (cfg_connected cfg) = ?n"
    using assms(1) by (simp_all add: conn_inv_def)
  from len have con: "go_update (cfg_connected cfg) (int i) True = Inr ?con"
    using assms(2) by (simp add: go_update_def)
  obtain net1 net2 where ends: "enable_ends ((!) ?con) (endname_at ?ens i) True [0..<cfg_n cfg] (cfg_net cfg) = Inr net1"
    "enable_ends ((!) ?con) (\<lambda>j. endname_at ?ens j i) True [0..<cfg_n cfg] net1 = Inr net2"
    and at: "\<forall>x < cfg_n cfg. \<forall>y < cfg_n cfg. enabled_at net2 (end_of (cfg_endnames cfg) x y) =
        (if x = i \<and> y \<in> set [0..<?n] \<and> ?con ! y \<or> y = i \<and> x \<in> set [0..<?n] \<and> ?con ! x then True else enabled_at (cfg_net cfg) (end_of (cfg_endnames cfg) x y))"
    using enable_both_ways [OF wf assms(2), of "[0..<?n]" "(!) ?con" True "cfg_net cfg" "(!) ?con"] by fastforce
  let ?cfg' = "cfg\<lparr>cfg_connected := ?con, cfg_net := net2\<rparr>"
  have "connect i cfg = Inr ?cfg'"
    using con ends by (simp add: connect_def Let_def)
  moreover have "conn_inv ?cfg'"
    using assms wf at by (auto simp: conn_inv_def ends_wf_def nth_list_update end_of_def)
  ultimately show ?thesis by simp
qed

lemma disconnect_inv:
  assumes "conn_inv cfg" and "i < cfg_n cfg"
  shows "\<exists>cfg'. disconnect i cfg = Inr cfg' \<and> conn_inv cfg' \<and> cfg_n cfg' = cfg_n cfg \<and>
     cfg_connected cfg' = (cfg_connected cfg)[i := False]"
proof -
  let ?con = "(cfg_connected cfg)[i := False]"
  let ?n = "cfg_n cfg" and ?ens = "cfg_endnames cfg"
  have wf: "ends_wf ?n ?ens" and len: "length (cfg_connected cfg) = ?n"
    using assms(1) by (simp_all add: conn_inv_def)
  from len have con: "go_update (cfg_connected cfg) (int i) False = Inr ?con"
    using assms(2) by (simp add: go_update_def)
  have named: "cfg_endnames cfg ! j \<noteq> None" if "j < cfg_n cfg" for j
    using wf that by (auto simp: ends_wf_def)
  obtain net1 net2 where
    ends: "enable_ends (\<lambda>j. cfg_endnames cfg ! i \<noteq> None) (endname_at ?ens i) False [0..<cfg_n cfg] (cfg_net cfg) = Inr net1"
    "enable_ends (\<lambda>j. cfg_endnames cfg ! j \<noteq> None) (\<lambda>j. endname_at ?ens j i) False [0..<cfg_n cfg] net1 = Inr net2"
    and at: "\<forall>x < cfg_n cfg. \<forall>y < cfg_n cfg. enabled_at net2 (end_of (cfg_endnames cfg) x y) =
        (if x = i \<and> y \<in> set [0..<?n] \<and> ?ens ! i \<noteq> None \<or> y = i \<and> x \<in> set [0..<?n] \<and> ?ens ! x \<noteq> None then False
         else enabled_at (cfg_net cfg) (end_of (cfg_endnames cfg) x y))"
    using enable_both_ways [OF wf assms(2), of "[0..<?n]" "\<lambda>j. cfg_endnames cfg ! i \<noteq> None" False "cfg_net cfg"
        "\<lambda>j. cfg_endnames cfg ! j \<noteq> None"] by fastforce
  let ?cfg' = "cfg\<lparr>cfg_connected := ?con, cfg_net := net2\<rparr>"
  have "disconnect i cfg = Inr ?cfg'"
    using con ends by (simp add: disconnect_def Let_def)
  moreover have "conn_inv ?cfg'"
    using assms wf at named by (auto simp: conn_inv_def ends_wf_def nth_list_update end_of_def)
  ultimately show ?thesis by simp
qed

datatype conn_op = Attach nat | Detach nat

fun conn_exec :: "'c config \<Rightarrow> conn_op \<Rightarrow> ('c config \<times> unit) go" where
  "conn_exec cfg (Attach i) = go_bind (connect i cfg) (\<lambda>cfg'. Inr (cfg', ()))"
| "conn_exec cfg (Detach i) = go_bind (disconnect i cfg) (\<lambda>cfg'. Inr (cfg', ()))"

fun conn_vector :: "bool list \<Rightarrow> conn_op \<Rightarrow> bool list" where
  "conn_vector con (Attach i) = con[i := True]"
| "conn_vector con (Detach i) = con[i := False]"

fun conn_in_range :: "nat \<Rightarrow> conn_op \<Rightarrow> bool" where
  "conn_in_range n (Attach i) \<longleftrightarrow> i < n"
| "conn_in_range n (Detach i) \<longleftrightarrow> i < n"

interpretation conn: go_machine_total conn_exec "\<lambda>cfg. conn_inv cfg \<and> cfg_n cfg = n" "\<lambda>_. conn_in_range n" for n
proof unfold_locales
  fix s s' :: "'a config" and x out
  assume inv: "conn_inv s \<and> cfg_n s = n" and pre: "conn_in_range n x"
  show "conn_inv s' \<and> cfg_n s' = n" if "conn_exec s x = Inr (s', out)"
    using that inv pre connect_inv [of s] disconnect_inv [of s] by (cases x) fastforce+
  show "\<exists>s' out. conn_exec s x = Inr (s', out)"
    using inv pre connect_inv [of s] disconnect_inv [of s] by (cases x) fastforce+
qed

lemma conn_exec_vector:
  "conn_exec cfg x = Inr (cfg', out) \<Longrightarrow> cfg_connected cfg' = conn_vector (cfg_connected cfg) x"
  by (cases x)
    (auto simp: connect_def disconnect_def Let_def go_update_def go_bind_Inr split: if_splits)

lemma conn_run_vector:
  "go_run conn_exec cfg ops = Inr (cfg', os) \<Longrightarrow>
     cfg_connected cfg' = foldl conn_vector (cfg_connected cfg) ops"
  by (induction ops arbitrary: cfg os) (auto simp: go_bind_Inr dest!: conn_exec_vector)

text \<open>
  C25: after any sequence of attaching and detaching servers, starting from a state that meets
  the condition (such as all detached and all ends disabled), the end from one server to another
  is enabled exactly when the last operation on each of the two attached it, and no step panics. All servers have been started
  with ends of distinct names.
\<close>

theorem ends_enabled_iff_both_connected:
  assumes "conn_inv cfg" and "\<forall>x \<in> set ops. conn_in_range (cfg_n cfg) x"
  shows "\<exists>cfg' os. go_run conn_exec cfg ops = Inr (cfg', os) \<and>
     (let con = foldl conn_vector (cfg_connected cfg) ops
      in \<forall>i < cfg_n cfg. \<forall>j < cfg_n cfg. enabled_at (cfg_net cfg') (end_of (cfg_endnames cfg') i j) \<longleftrightarrow> con ! i \<and> con ! j)"
proof -
  have "go_allowed conn_exec (\<lambda>_. conn_in_range (cfg_n cfg)) cfg ops"
    by (rule go_allowed_static) (use assms(2) in auto)
  with conn.run_returns [of cfg "cfg_n cfg" ops] assms(1) obtain cfg' os
    where "go_run conn_exec cfg ops = Inr (cfg', os)" and "conn_inv cfg'" and "cfg_n cfg' = cfg_n cfg" by auto
  then show ?thesis using conn_run_vector [of cfg ops cfg' os] by (auto simp: conn_inv_def Let_def)
qed

lemma ends_enabled_iff_both_connected_witness:
  "\<exists>cfg' os. go_run conn_exec example_config [Attach 0, Attach 1, Detach 0] = Inr (cfg', os) \<and>
     \<not> enabled_at (cfg_net cfg') (end_of (cfg_endnames cfg') 0 1) \<and> enabled_at (cfg_net cfg') (end_of (cfg_endnames cfg') 1 1)"
proof -
  have "conn_inv example_config"
    by (auto simp: conn_inv_def ends_wf_def example_config_def end_of_def enabled_at_def MakeNetwork_def
        less_2_cases_iff inj_on_def)
  moreover have "\<forall>x \<in> set [Attach 0, Attach 1, Detach 0]. conn_in_range (cfg_n example_config) x"
    and n: "cfg_n example_config = 2"
    and con: "foldl conn_vector (cfg_connected example_config) [Attach 0, Attach 1, Detach 0] = [False, True]"
    by (simp_all add: example_config_def)
  ultimately obtain cfg' os where "go_run conn_exec example_config [Attach 0, Attach 1, Detach 0] = Inr (cfg', os)"
    and "\<forall>i < 2. \<forall>j < 2. enabled_at (cfg_net cfg') (end_of (cfg_endnames cfg') i j) \<longleftrightarrow> [False, True] ! i \<and> [False, True] ! j"
    using ends_enabled_iff_both_connected [of example_config "[Attach 0, Attach 1, Detach 0]"]
    unfolding n con Let_def by blast
  then show ?thesis by (intro exI [of _ cfg'] exI [of _ os]) simp
qed

end
