(* ===== verification/Restart.thy ===== *)
theory Restart
  imports RaftBase
begin

text \<open>
  The handling of persisters that the three testers share (\<^verbatim>\<open>crash1\<close> and \<^verbatim>\<open>start1\<close> of
  \<^verbatim>\<open>src/raft/config.go\<close>, \<^verbatim>\<open>ShutdownServer\<close> and \<^verbatim>\<open>StartServer\<close> of the testers of the shard controller and
  of the key/value server). A crashed server instance cannot be stopped: its goroutines may go on
  and save into the persister they were given. So the tester replaces the persister it keeps for
  the slot when it shuts the server down, and again when it starts a new instance.

  A tester is seen as a machine on \<open>disks\<close>: the persisters, the one kept for every slot, the one
  every instance was given, and the instance that is live in a slot. The locale \<open>restartable\<close> is the
  interface: each step of a tester is a sequence of operations on its disks. Shown for all testers
  at once: a restarted instance finds what the slot's persister held at the time of the shutdown,
  whatever the old instances and all others do between.
\<close>

section \<open>Replacing a persister\<close>

text \<open>\<^verbatim>\<open>if saved[i] != nil { saved[i] = saved[i].Copy() }\<close>\<close>

definition copy_saved :: "pstate \<Rightarrow> nat option \<Rightarrow> (pstate \<times> nat option) go" where
  "copy_saved pt x =
     (case x of
        None \<Rightarrow> Inr (pt, None)
      | Some a \<Rightarrow> go_bind (pexec pt (CallCopy a)) (\<lambda>(pt1, _). Inr (pt1, Some (length (pt_ps pt)))))"

text \<open>The same, with \<^verbatim>\<open>else { saved[i] = MakePersister() }\<close>.\<close>

definition copy_or_make :: "pstate \<Rightarrow> nat option \<Rightarrow> (pstate \<times> nat) go" where
  "copy_or_make pt x =
     go_bind (pexec pt (case x of None \<Rightarrow> CallMake | Some a \<Rightarrow> CallCopy a))
       (\<lambda>(pt1, _). Inr (pt1, length (pt_ps pt)))"

text \<open>The end of \<^verbatim>\<open>crash1\<close>: read both parts, and save them into a new persister.\<close>

definition rewrite_saved :: "pstate \<Rightarrow> nat option \<Rightarrow> (pstate \<times> nat option) go" where
  "rewrite_saved pt x =
     (case x of
        None \<Rightarrow> Inr (pt, None)
      | Some a \<Rightarrow>
          go_bind (pexec pt (CallReadRaftState a)) (\<lambda>(pt1, _).
          go_bind (pexec pt1 (CallReadSnapshot a)) (\<lambda>(pt2, _).
          go_bind (pexec pt2 CallMake) (\<lambda>(pt3, _).
          go_bind (pexec pt3 (CallSave (length (pt_ps pt2)) (Some (length (pt_heap pt))) (Some (length (pt_heap pt1)))))
            (\<lambda>(pt4, _). Inr (pt4, Some (length (pt_ps pt2))))))))"

text \<open>The loop of \<^verbatim>\<open>LogSize\<close>; a server that was never started has no persister to ask.\<close>

fun max_size :: "pstate \<Rightarrow> nat option list \<Rightarrow> nat \<Rightarrow> nat go" where
  "max_size pt [] logsize = Inr logsize"
| "max_size pt (None # xs) logsize = Inl NilDereference"
| "max_size pt (Some a # xs) logsize =
     (let n = RaftStateSize (pt_heap pt) (pt_ps pt ! a)
      in max_size pt xs (if n > logsize then n else logsize))"

section \<open>Disks\<close>

record 'k disks =
  dk_pt :: pstate
  dk_saved :: "'k \<Rightarrow> nat option"
  dk_inst :: "nat list"
  dk_live :: "'k \<Rightarrow> nat option"

datatype 'k disk_op =
    Refresh 'k
  | Rewrite 'k
  | Fresh 'k
  | Peek 'k
  | Inst nat pcall

fun disk_exec :: "'k disks \<Rightarrow> 'k disk_op \<Rightarrow> ('k disks \<times> unit) go" where
  "disk_exec d (Refresh k) =
     go_bind (copy_saved (dk_pt d) (dk_saved d k)) (\<lambda>(pt, x).
       Inr (d\<lparr>dk_pt := pt, dk_saved := (dk_saved d)(k := x), dk_live := (dk_live d)(k := None)\<rparr>, ()))"
| "disk_exec d (Rewrite k) =
     go_bind (rewrite_saved (dk_pt d) (dk_saved d k)) (\<lambda>(pt, x).
       Inr (d\<lparr>dk_pt := pt, dk_saved := (dk_saved d)(k := x), dk_live := (dk_live d)(k := None)\<rparr>, ()))"
| "disk_exec d (Fresh k) =
     go_bind (copy_or_make (dk_pt d) (dk_saved d k)) (\<lambda>(pt, a).
       Inr (d\<lparr>dk_pt := pt, dk_saved := (dk_saved d)(k := Some a), dk_inst := dk_inst d @ [a],
              dk_live := (dk_live d)(k := Some (length (dk_inst d)))\<rparr>, ()))"
| "disk_exec d (Peek k) =
     (case dk_saved d k of
        None \<Rightarrow> Inr (d, ())
      | Some a \<Rightarrow> go_bind (pexec (dk_pt d) (CallReadSnapshot a)) (\<lambda>(pt, _). Inr (d\<lparr>dk_pt := pt\<rparr>, ())))"
| "disk_exec d (Inst j call) =
     go_bind (pexec (dk_pt d) call) (\<lambda>(pt, _). Inr (d\<lparr>dk_pt := pt\<rparr>, ()))"

text \<open>An instance calls the persister it was given, and writes into its own arrays.\<close>

fun inst_call :: "nat \<Rightarrow> pcall \<Rightarrow> bool" where
  "inst_call a (CallSave b r s) \<longleftrightarrow> b = a"
| "inst_call a (CallReadRaftState b) \<longleftrightarrow> b = a"
| "inst_call a (CallReadSnapshot b) \<longleftrightarrow> b = a"
| "inst_call a (CallRaftStateSize b) \<longleftrightarrow> b = a"
| "inst_call a (CallSnapshotSize b) \<longleftrightarrow> b = a"
| "inst_call a (ClientAlloc bs) \<longleftrightarrow> True"
| "inst_call a (ClientWrite x k v) \<longleftrightarrow> True"
| "inst_call a _ \<longleftrightarrow> False"

fun disk_pre :: "'k disks \<Rightarrow> 'k disk_op \<Rightarrow> bool" where
  "disk_pre d (Inst j call) \<longleftrightarrow>
     j < length (dk_inst d) \<and> inst_call (dk_inst d ! j) call \<and> client_owns (dk_pt d) call"
| "disk_pre d _ \<longleftrightarrow> True"

definition held :: "pstate \<Rightarrow> nat \<Rightarrow> gbytes \<times> gbytes" where
  "held pt a = contents (pt_heap pt) (pt_ps pt ! a)"

definition persisted :: "'k disks \<Rightarrow> 'k \<Rightarrow> (gbytes \<times> gbytes) option" where
  "persisted d k = map_option (held (dk_pt d)) (dk_saved d k)"

section \<open>Persisters keep apart\<close>

definition psound :: "pstate \<Rightarrow> bool" where
  "psound pt \<longleftrightarrow> (\<exists>h. phist pt h)"

lemma psound_pinit: "psound pinit"
  unfolding psound_def
  by (rule exI [of _ "[]"]) (simp add: phist_def psep_def pinit_def pspec_outputs_ok_def)

text \<open>\<open>keeps A pt pt'\<close>: no persister of \<open>pt\<close>, up to those in \<open>A\<close>, holds anything else in \<open>pt'\<close>.\<close>

definition keeps :: "nat set \<Rightarrow> pstate \<Rightarrow> pstate \<Rightarrow> bool" where
  "keeps A pt pt' \<longleftrightarrow>
     psound pt' \<and> length (pt_ps pt) \<le> length (pt_ps pt') \<and>
     (\<forall>a < length (pt_ps pt). a \<notin> A \<longrightarrow> held pt' a = held pt a)"

lemma keeps_trans: "keeps A pt pt1 \<Longrightarrow> keeps A pt1 pt2 \<Longrightarrow> keeps A pt pt2"
  by (auto simp: keeps_def)

fun saves_into :: "pcall \<Rightarrow> nat set" where
  "saves_into (CallSave a r s) = {a}"
| "saves_into _ = {}"

lemma held_pspec: "phist pt h \<Longrightarrow> a < length (pt_ps pt) \<Longrightarrow> held pt a = pspec h ! a"
  by (simp add: held_def phist_at)

lemma phist_length: "phist pt h \<Longrightarrow> length (pspec h) = length (pt_ps pt)"
  by (metis length_map phist_def)

lemma pexec_keeps:
  assumes "psound pt" and "client_owns pt call" and "pexec pt call = Inr (pt', out)"
  shows "keeps (saves_into call) pt pt'"
proof -
  from assms(1) obtain h where h: "phist pt h" by (auto simp: psound_def)
  from phist_exec [OF h assms(2,3)] have h': "phist pt' (h @ [out])" .
  have step: "length (pspec h) \<le> length (pspec_step (pspec h) out) \<and>
      (\<forall>a < length (pspec h). a \<notin> saves_into call \<longrightarrow> pspec_step (pspec h) out ! a = pspec h ! a)"
    using assms(3) by (cases call) (auto simp: with_ps_def nth_append Let_def split: if_splits prod.splits)
  show ?thesis
    using step h' phist_length [OF h] phist_length [OF h'] held_pspec [OF h] held_pspec [OF h']
    by (auto simp: keeps_def psound_def)
qed

lemma pexec_Make:
  assumes "psound pt"
  shows "\<exists>pt' out. pexec pt CallMake = Inr (pt', out) \<and> keeps {} pt pt' \<and>
     length (pt_ps pt') = Suc (length (pt_ps pt)) \<and> held pt' (length (pt_ps pt)) = ([], [])"
  using pexec_keeps [OF assms, of CallMake]
  by (auto simp: held_def contents_def MakePersister_def deref_def)

lemma pexec_Copy:
  assumes "psound pt" and "a < length (pt_ps pt)"
  shows "\<exists>pt' out. pexec pt (CallCopy a) = Inr (pt', out) \<and> keeps {} pt pt' \<and>
     length (pt_ps pt') = Suc (length (pt_ps pt)) \<and> held pt' (length (pt_ps pt)) = held pt a"
  using pexec_keeps [OF assms(1), of "CallCopy a"] assms(2)
  by (auto simp: with_ps_def held_def contents_def Copy_def)

text \<open>
  What the three replacements have in common: a new persister, with the contents of the old one.
\<close>

definition replaces :: "pstate \<Rightarrow> (gbytes \<times> gbytes) \<Rightarrow> pstate \<Rightarrow> nat \<Rightarrow> bool" where
  "replaces pt c pt' b \<longleftrightarrow>
     keeps {} pt pt' \<and> length (pt_ps pt) \<le> b \<and> b < length (pt_ps pt') \<and> held pt' b = c"

lemma copy_saved_replaces:
  "psound pt \<Longrightarrow> a < length (pt_ps pt) \<Longrightarrow>
     \<exists>pt' b. copy_saved pt (Some a) = Inr (pt', Some b) \<and> replaces pt (held pt a) pt' b"
  using pexec_Copy [of pt a] by (auto simp: copy_saved_def replaces_def)

lemma copy_or_make_replaces:
  assumes "psound pt" and "\<forall>a \<in> set_option x. a < length (pt_ps pt)"
  shows "\<exists>pt' b. copy_or_make pt x = Inr (pt', b) \<and>
     replaces pt (case x of None \<Rightarrow> ([], []) | Some a \<Rightarrow> held pt a) pt' b"
  using pexec_Make [OF assms(1)] pexec_Copy [OF assms(1), of "the x"] assms(2)
  by (cases x) (auto simp: copy_or_make_def replaces_def simp del: pexec.simps)


lemma pexec_ReadRaftState:
  assumes "psound pt" and "a < length (pt_ps pt)"
  shows "\<exists>pt' out. pexec pt (CallReadRaftState a) = Inr (pt', out) \<and> keeps {} pt pt' \<and> pt_ps pt' = pt_ps pt \<and>
     pt_heap pt' = pt_heap pt @ [fst (held pt a)] \<and> pt_owned pt' = insert (length (pt_heap pt)) (pt_owned pt)"
  using pexec_keeps [OF assms(1), of "CallReadRaftState a"] assms(2)
  by (auto simp: with_ps_def held_def contents_def ReadRaftState_def clone_def)

lemma pexec_ReadSnapshot:
  assumes "psound pt" and "a < length (pt_ps pt)"
  shows "\<exists>pt' out. pexec pt (CallReadSnapshot a) = Inr (pt', out) \<and> keeps {} pt pt' \<and> pt_ps pt' = pt_ps pt \<and>
     pt_heap pt' = pt_heap pt @ [snd (held pt a)] \<and> pt_owned pt' = insert (length (pt_heap pt)) (pt_owned pt)"
  using pexec_keeps [OF assms(1), of "CallReadSnapshot a"] assms(2)
  by (auto simp: with_ps_def held_def contents_def ReadSnapshot_def clone_def)

lemma pexec_Save:
  assumes "psound pt" and "b < length (pt_ps pt)" and "set_option r \<union> set_option s \<subseteq> pt_owned pt"
  shows "\<exists>pt' out. pexec pt (CallSave b r s) = Inr (pt', out) \<and> keeps {b} pt pt' \<and>
     length (pt_ps pt') = length (pt_ps pt) \<and> held pt' b = (deref (pt_heap pt) r, deref (pt_heap pt) s)"
proof -
  obtain pt' where exec: "pexec pt (CallSave b r s) = Inr (pt', OSaved b (deref (pt_heap pt) r) (deref (pt_heap pt) s))"
    and len: "length (pt_ps pt') = length (pt_ps pt)"
    using assms(2) by (auto simp: with_ps_def Save_def clone_def)
  from assms(1) obtain h where h: "phist pt h" by (auto simp: psound_def)
  have "phist pt' (h @ [OSaved b (deref (pt_heap pt) r) (deref (pt_heap pt) s)])"
    by (rule phist_exec [OF h _ exec]) (use assms(3) in simp)
  then have "held pt' b = (deref (pt_heap pt) r, deref (pt_heap pt) s)"
    using assms(2) len by (simp add: held_pspec phist_length [OF h])
  moreover have "keeps {b} pt pt'"
    using pexec_keeps [OF assms(1) _ exec] assms(3) by simp
  ultimately show ?thesis using exec len by blast
qed

lemma rewrite_saved_replaces:
  assumes "psound pt" and a: "a < length (pt_ps pt)"
  shows "\<exists>pt' b. rewrite_saved pt (Some a) = Inr (pt', Some b) \<and> replaces pt (held pt a) pt' b"
proof -
  obtain pt1 o1 where e1: "pexec pt (CallReadRaftState a) = Inr (pt1, o1)" and k1: "keeps {} pt pt1"
    and p1: "pt_ps pt1 = pt_ps pt" "pt_heap pt1 = pt_heap pt @ [fst (held pt a)]"
      "pt_owned pt1 = insert (length (pt_heap pt)) (pt_owned pt)"
    using pexec_ReadRaftState [OF assms] by blast
  have s1: "psound pt1" and h1: "held pt1 a = held pt a" using k1 a by (auto simp: keeps_def)
  obtain pt2 o2 where e2: "pexec pt1 (CallReadSnapshot a) = Inr (pt2, o2)" and k2: "keeps {} pt1 pt2"
    and p2: "pt_ps pt2 = pt_ps pt1" "pt_heap pt2 = pt_heap pt1 @ [snd (held pt1 a)]"
      "pt_owned pt2 = insert (length (pt_heap pt1)) (pt_owned pt1)"
    using pexec_ReadSnapshot [OF s1, of a] a p1(1) by auto
  have s2: "psound pt2" using k2 by (simp add: keeps_def)
  define pt3 where "pt3 = pt2\<lparr>pt_ps := pt_ps pt2 @ [MakePersister]\<rparr>"
  have e3: "pexec pt2 CallMake = Inr (pt3, OMade)" by (simp add: pt3_def)
  have k3: "keeps {} pt2 pt3" using pexec_keeps [OF s2 _ e3] by simp
  then have s3: "psound pt3" by (simp add: keeps_def)
  let ?r = "Some (length (pt_heap pt))" and ?s = "Some (length (pt_heap pt1))" and ?b = "length (pt_ps pt2)"
  have own: "set_option ?r \<union> set_option ?s \<subseteq> pt_owned pt3" by (auto simp: pt3_def p1 p2)
  have b3: "?b < length (pt_ps pt3)" by (simp add: pt3_def)
  obtain pt4 o4 where e4: "pexec pt3 (CallSave ?b ?r ?s) = Inr (pt4, o4)" and k4: "keeps {?b} pt3 pt4"
    and l4: "length (pt_ps pt4) = length (pt_ps pt3)"
    and h4: "held pt4 ?b = (deref (pt_heap pt3) ?r, deref (pt_heap pt3) ?s)"
    using pexec_Save [OF s3 b3 own] by blast
  have h4': "held pt4 ?b = held pt a"
    using h4 h1 by (simp add: pt3_def p1 p2 deref_def nth_append)
  have k03: "keeps {} pt pt3" using k1 k2 k3 keeps_trans by blast
  have "keeps {} pt pt4"
    using k03 k4 p1(1) p2(1) by (auto simp: keeps_def pt3_def)
  moreover have "?b < length (pt_ps pt4)" using b3 l4 by simp
  ultimately have "replaces pt (held pt a) pt4 ?b"
    using h4' by (simp add: replaces_def p1(1) p2(1))
  moreover have "rewrite_saved pt (Some a) = Inr (pt4, Some ?b)"
    by (simp add: rewrite_saved_def e1 e2 e3 e4 del: pexec.simps)
  ultimately show ?thesis by blast
qed

section \<open>The invariant of the disks\<close>

definition disk_ok :: "'k disks \<Rightarrow> bool" where
  "disk_ok d \<longleftrightarrow>
     psound (dk_pt d) \<and> set (dk_inst d) \<subseteq> {..<length (pt_ps (dk_pt d))} \<and> distinct (dk_inst d) \<and>
     (\<forall>k a. dk_saved d k = Some a \<longrightarrow> a < length (pt_ps (dk_pt d))) \<and>
     (\<forall>k k' a. dk_saved d k = Some a \<longrightarrow> dk_saved d k' = Some a \<longrightarrow> k = k') \<and>
     (\<forall>k j. dk_live d k = Some j \<longrightarrow> j < length (dk_inst d) \<and> dk_saved d k = Some (dk_inst d ! j)) \<and>
     (\<forall>k a. dk_live d k = None \<longrightarrow> dk_saved d k = Some a \<longrightarrow> a \<notin> set (dk_inst d))"

lemma disk_okD:
  assumes "disk_ok d"
  shows "psound (dk_pt d)" and "a \<in> set (dk_inst d) \<Longrightarrow> a < length (pt_ps (dk_pt d))"
    and "distinct (dk_inst d)" and "dk_saved d k = Some a \<Longrightarrow> a < length (pt_ps (dk_pt d))"
    and "dk_saved d k = Some a \<Longrightarrow> dk_saved d k' = Some a \<Longrightarrow> k = k'"
    and "dk_live d k = Some j \<Longrightarrow> j < length (dk_inst d)"
    and "dk_live d k = Some j \<Longrightarrow> dk_saved d k = Some (dk_inst d ! j)"
    and "dk_live d k = None \<Longrightarrow> dk_saved d k = Some a \<Longrightarrow> a \<notin> set (dk_inst d)"
  using assms by (auto simp: disk_ok_def)

lemma disk_ok_replaced:
  assumes ok: "disk_ok d" and "replaces (dk_pt d) c pt b"
  shows "disk_ok (d\<lparr>dk_pt := pt, dk_saved := (dk_saved d)(k := Some b), dk_live := (dk_live d)(k := None)\<rparr>)"
proof -
  have pt: "length (pt_ps (dk_pt d)) \<le> b" "b < length (pt_ps pt)" "psound pt"
    using assms(2) by (auto simp: replaces_def keeps_def)
  have old: "a < length (pt_ps pt)" "a \<noteq> b" if "a < length (pt_ps (dk_pt d))" for a
    using that pt by simp_all
  have inst: "a < length (pt_ps pt)" if "a \<in> set (dk_inst d)" for a
    using old disk_okD(2) [OF ok that] by auto
  have saved: "a < length (pt_ps pt)" if "dk_saved d k' = Some a" for k' a
    using old disk_okD(4) [OF ok that] by auto
  have new: "b \<notin> set (dk_inst d)" "dk_saved d k' \<noteq> Some b" for k'
    using pt(1) disk_okD(2) [OF ok, of b] disk_okD(4) [OF ok, of k' b] by auto
  show ?thesis
    unfolding disk_ok_def
    by (intro conjI allI impI)
      (use pt inst saved new disk_okD [OF ok] in \<open>auto split: if_splits\<close>)
qed

lemma disk_ok_handed:
  assumes ok: "disk_ok d" and "dk_live d k = None" and b: "dk_saved d k = Some b"
  shows "disk_ok (d\<lparr>dk_inst := dk_inst d @ [b], dk_live := (dk_live d)(k := Some (length (dk_inst d)))\<rparr>)"
proof -
  have "b \<notin> set (dk_inst d)" and "b < length (pt_ps (dk_pt d))"
    using assms by (auto dest: disk_okD)
  moreover have "a \<noteq> b" if "k' \<noteq> k" "dk_saved d k' = Some a" for k' a
    using disk_okD(5) [OF ok b] that by auto
  moreover have "j < Suc (length (dk_inst d))" "(dk_inst d @ [b]) ! j = dk_inst d ! j"
    if "dk_live d k' = Some j" for k' j
    using disk_okD(6) [OF ok that] by (simp_all add: nth_append)
  ultimately show ?thesis
    unfolding disk_ok_def
    by (intro conjI allI impI) (use assms(2,3) disk_okD [OF ok] in \<open>auto split: if_splits\<close>)
qed

lemma disk_ok_keeps:
  assumes ok: "disk_ok d" and "keeps A (dk_pt d) pt"
  shows "disk_ok (d\<lparr>dk_pt := pt\<rparr>)"
proof -
  have pt: "length (pt_ps (dk_pt d)) \<le> length (pt_ps pt)" "psound pt"
    using assms(2) by (auto simp: keeps_def)
  then have "a < length (pt_ps pt)" if "a < length (pt_ps (dk_pt d))" for a
    using that by simp
  then show ?thesis
    unfolding disk_ok_def
    by (intro conjI allI impI) (use pt(2) disk_okD [OF ok] in auto)
qed


lemma disk_ok_dropped:
  assumes ok: "disk_ok d" and "dk_saved d k = None"
  shows "disk_ok (d\<lparr>dk_saved := (dk_saved d)(k := None), dk_live := (dk_live d)(k := None)\<rparr>)"
  unfolding disk_ok_def
  by (intro conjI allI impI) (use disk_okD [OF ok] in \<open>auto split: if_splits\<close>)

lemma replaces_held:
  "replaces pt c pt' b \<Longrightarrow> a < length (pt_ps pt) \<Longrightarrow> held pt' a = held pt a"
  "replaces pt c pt' b \<Longrightarrow> held pt' b = c"
  by (auto simp: replaces_def keeps_def)

text \<open>Replacing the persister of a slot that no instance may write any more.\<close>

lemma disk_exec_replace:
  assumes ok: "disk_ok d" and op: "op = Refresh k \<or> op = Rewrite k" and exec: "disk_exec d op = Inr (d', u)"
  shows "disk_ok d' \<and> dk_live d' = (dk_live d)(k := None) \<and> persisted d' = persisted d \<and> dk_inst d' = dk_inst d"
proof (cases "dk_saved d k")
  case None
  with op exec have "d' = d\<lparr>dk_saved := (dk_saved d)(k := None), dk_live := (dk_live d)(k := None)\<rparr>"
    by (auto simp: copy_saved_def rewrite_saved_def)
  with None disk_ok_dropped [OF ok] show ?thesis by (auto simp: persisted_def)
next
  case (Some a)
  note a = disk_okD(4) [OF ok Some]
  obtain pt b where rep: "replaces (dk_pt d) (held (dk_pt d) a) pt b"
    and d': "d' = d\<lparr>dk_pt := pt, dk_saved := (dk_saved d)(k := Some b), dk_live := (dk_live d)(k := None)\<rparr>"
    using op exec Some copy_saved_replaces [OF disk_okD(1) [OF ok] a] rewrite_saved_replaces [OF disk_okD(1) [OF ok] a]
    by auto
  have "persisted d' k' = persisted d k'" for k'
    using Some replaces_held [OF rep] disk_okD(4) [OF ok, of k']
    by (cases "dk_saved d k'") (auto simp: d' persisted_def)
  with disk_ok_replaced [OF ok rep] show ?thesis by (auto simp: d')
qed

lemma disk_exec_Fresh:
  assumes ok: "disk_ok d" and exec: "disk_exec d (Fresh k) = Inr (d', u)"
  shows "disk_ok d' \<and> dk_live d' = (dk_live d)(k := Some (length (dk_inst d))) \<and>
     persisted d' = (persisted d)(k := Some (case persisted d k of None \<Rightarrow> ([], []) | Some c \<Rightarrow> c))"
proof -
  let ?c = "case dk_saved d k of None \<Rightarrow> ([], []) | Some a \<Rightarrow> held (dk_pt d) a"
  have "\<forall>a \<in> set_option (dk_saved d k). a < length (pt_ps (dk_pt d))"
    using disk_okD(4) [OF ok, of k] by (cases "dk_saved d k") auto
  from copy_or_make_replaces [OF disk_okD(1) [OF ok] this] exec obtain pt b
    where rep: "replaces (dk_pt d) ?c pt b"
      and d': "d' = d\<lparr>dk_pt := pt, dk_saved := (dk_saved d)(k := Some b), dk_inst := dk_inst d @ [b],
                     dk_live := (dk_live d)(k := Some (length (dk_inst d)))\<rparr>"
    by auto
  let ?d1 = "d\<lparr>dk_pt := pt, dk_saved := (dk_saved d)(k := Some b), dk_live := (dk_live d)(k := None)\<rparr>"
  have "disk_ok d'"
    using disk_ok_handed [OF disk_ok_replaced [OF ok rep, of k], of k b] by (simp add: d')
  moreover have "persisted d' k' = persisted d k'" if "k' \<noteq> k" for k'
    using that replaces_held(1) [OF rep] disk_okD(4) [OF ok, of k']
    by (cases "dk_saved d k'") (auto simp: d' persisted_def)
  moreover have "persisted d' k = Some ?c"
    using replaces_held(2) [OF rep] by (simp add: d' persisted_def)
  ultimately show ?thesis by (auto simp: d' persisted_def split: option.splits)
qed

lemma disk_exec_Inst:
  assumes ok: "disk_ok d" and pre: "disk_pre d (Inst j call)" and exec: "disk_exec d (Inst j call) = Inr (d', u)"
  shows "disk_ok d' \<and> dk_live d' = dk_live d \<and> (\<forall>k. dk_live d k \<noteq> Some j \<longrightarrow> persisted d' k = persisted d k)"
proof -
  obtain pt out where run: "pexec (dk_pt d) call = Inr (pt, out)" and d': "d' = d\<lparr>dk_pt := pt\<rparr>"
    using exec by (auto simp: go_bind_Inr)
  have keeps: "keeps (saves_into call) (dk_pt d) pt"
    using pexec_keeps [OF disk_okD(1) [OF ok] _ run] pre by simp
  have "saves_into call \<subseteq> {dk_inst d ! j}" using pre by (cases call) auto
  moreover have "a \<noteq> dk_inst d ! j" if "dk_saved d k = Some a" and "dk_live d k \<noteq> Some j" for k a
  proof (cases "dk_live d k")
    case None
    with disk_okD(8) [OF ok None that(1)] pre show ?thesis by auto
  next
    case (Some j')
    with that(2) have "j' \<noteq> j" by simp
    with Some that disk_okD(3) [OF ok] disk_okD(6,7) [OF ok, of k] pre show ?thesis by (auto simp: nth_eq_iff_index_eq)
  qed
  ultimately have "persisted d' k = persisted d k" if "dk_live d k \<noteq> Some j" for k
    using that keeps disk_okD(4) [OF ok, of k]
    by (cases "dk_saved d k") (auto simp: d' persisted_def keeps_def)
  with disk_ok_keeps [OF ok keeps] show ?thesis by (auto simp: d')
qed

lemma disk_exec_Peek:
  assumes ok: "disk_ok d" and exec: "disk_exec d (Peek k) = Inr (d', u)"
  shows "disk_ok d' \<and> dk_live d' = dk_live d \<and> dk_inst d' = dk_inst d \<and> persisted d' = persisted d"
proof (cases "dk_saved d k")
  case (Some a)
  with exec obtain pt out where run: "pexec (dk_pt d) (CallReadSnapshot a) = Inr (pt, out)" and d': "d' = d\<lparr>dk_pt := pt\<rparr>"
    by (auto simp: go_bind_Inr simp del: pexec.simps)
  have keeps: "keeps {} (dk_pt d) pt" using pexec_keeps [OF disk_okD(1) [OF ok] _ run] by simp
  then have "persisted d' k' = persisted d k'" for k'
    using disk_okD(4) [OF ok, of k'] by (cases "dk_saved d k'") (auto simp: d' persisted_def keeps_def)
  with disk_ok_keeps [OF ok keeps] show ?thesis by (auto simp: d')
qed (use ok exec in simp)

lemma disk_exec_ok:
  "disk_ok d \<Longrightarrow> disk_pre d op \<Longrightarrow> disk_exec d op = Inr (d', u) \<Longrightarrow> disk_ok d'"
  using disk_exec_replace [of d op] disk_exec_Fresh [of d] disk_exec_Inst [of d] disk_exec_Peek [of d]
  by (cases op) blast+

lemma disk_exec_frame:
  assumes "disk_ok d" and "disk_pre d op" and "disk_exec d op = Inr (d', u)" and "dk_live d k = None" and "op \<noteq> Fresh k"
  shows "dk_live d' k = None \<and> persisted d' k = persisted d k"
proof (cases op)
  case (Inst j call)
  with disk_exec_Inst [OF assms(1)] assms(2-4) show ?thesis by (metis option.distinct(1))
next
  case (Fresh k')
  with disk_exec_Fresh [OF assms(1)] assms(3-5) show ?thesis by auto
next
  case (Peek k')
  with disk_exec_Peek [OF assms(1)] assms(3,4) show ?thesis by auto
qed (use disk_exec_replace [OF assms(1) _ assms(3)] assms(4) in auto)

interpretation disk: go_machine disk_exec disk_ok disk_pre
  by unfold_locales (rule disk_exec_ok)

lemma disk_run_frame:
  "disk_ok d \<Longrightarrow> go_allowed disk_exec disk_pre d ops \<Longrightarrow> go_run disk_exec d ops = Inr (d', us) \<Longrightarrow>
     dk_live d k = None \<Longrightarrow> Fresh k \<notin> set ops \<Longrightarrow> dk_live d' k = None \<and> persisted d' k = persisted d k"
proof (induction ops arbitrary: d us)
  case (Cons op ops)
  from Cons.prems obtain d1 u us' where step: "disk_exec d op = Inr (d1, u)"
    and run: "go_run disk_exec d1 ops = Inr (d', us')" and pre: "disk_pre d op"
    by (auto simp: go_bind_Inr)
  with Cons.prems disk_exec_ok [OF _ pre step] disk_exec_frame [OF _ pre step] Cons.IH [OF _ _ run]
  show ?case by auto
qed simp

lemma disk_run_peeks:
  "disk_ok d \<Longrightarrow> go_run disk_exec d ops = Inr (d', us) \<Longrightarrow> set ops \<subseteq> range Peek \<Longrightarrow>
     dk_live d' = dk_live d \<and> dk_inst d' = dk_inst d \<and> persisted d' = persisted d"
proof (induction ops arbitrary: d us)
  case (Cons op ops)
  from Cons.prems obtain d1 u us' k where step: "disk_exec d (Peek k) = Inr (d1, u)"
    and run: "go_run disk_exec d1 ops = Inr (d', us')" and op: "op = Peek k"
    by (auto simp: go_bind_Inr simp del: disk_exec.simps)
  from disk_exec_Peek [OF Cons.prems(1) step] Cons.IH [OF _ run] Cons.prems(3) show ?case by auto
qed simp

lemma disk_restart:
  assumes ok: "disk_ok d" and al: "go_allowed disk_exec disk_pre d (Refresh k # ops @ Fresh k # peeks)"
    and run: "go_run disk_exec d (Refresh k # ops @ Fresh k # peeks) = Inr (d', us)"
    and none: "Fresh k \<notin> set ops" and peeks: "set peeks \<subseteq> range Peek"
  shows "persisted d' k = Some (case persisted d k of None \<Rightarrow> ([], []) | Some c \<Rightarrow> c) \<and>
     dk_live d' k = Some (length (dk_inst d') - 1)"
proof -
  from run obtain d1 u1 d2 us2 d3 u3 us4 where s1: "disk_exec d (Refresh k) = Inr (d1, u1)"
    and s2: "go_run disk_exec d1 ops = Inr (d2, us2)" and s3: "disk_exec d2 (Fresh k) = Inr (d3, u3)"
    and s4: "go_run disk_exec d3 peeks = Inr (d', us4)"
    by (auto simp: go_bind_Inr go_run_append simp del: disk_exec.simps)
  have d1: "disk_ok d1" "dk_live d1 k = None" "persisted d1 = persisted d"
    using disk_exec_replace [OF ok _ s1, of k] by auto
  have al': "go_allowed disk_exec disk_pre d1 ops"
    using al s1 by (simp add: go_allowed_append del: disk_exec.simps)
  from disk_run_frame [OF d1(1) al' s2 d1(2) none] have d2: "persisted d2 k = persisted d k" by (simp add: d1)
  have "disk_ok d2" using disk.run_invar [OF d1(1) al' s2] .
  from disk_exec_Fresh [OF this s3] d2 have ok3: "disk_ok d3"
    and "persisted d3 k = Some (case persisted d k of None \<Rightarrow> ([], []) | Some c \<Rightarrow> c)"
    and "dk_live d3 k = Some (length (dk_inst d2))" by auto
  moreover have "length (dk_inst d3) = Suc (length (dk_inst d2))"
    using s3 by (auto simp: go_bind_Inr)
  moreover note disk_run_peeks [OF ok3 s4 peeks]
  ultimately show ?thesis by simp
qed

section \<open>Slots in lists\<close>

text \<open>The testers keep persisters and instances in slices, by slot.\<close>

definition at_slot :: "nat option list \<Rightarrow> nat \<Rightarrow> nat option" where
  "at_slot xs i = (if i < length xs then xs ! i else None)"

lemma at_slot_update: "i < length xs \<Longrightarrow> at_slot (xs[i := v]) = (at_slot xs)(i := v)"
  by (auto simp: at_slot_def fun_eq_iff)

lemma go_nth_at: "go_nth xs (int i) = Inr x \<longleftrightarrow> i < length xs \<and> x = xs ! i"
  by (auto simp: go_nth_def)

lemma go_update_at: "go_update xs (int i) v = Inr ys \<longleftrightarrow> i < length xs \<and> ys = xs[i := v]"
  by (auto simp: go_update_def)

lemma map_update_same: "map f (xs[k := y]) = map f xs" if "f y = f (xs ! k)"
  using that by (metis list_update_id map_update)

section \<open>The interface of a tester\<close>

text \<open>
  \<open>effect x\<close> are the sequences of disk operations that the step \<open>x\<close> may come to. A step crashes the
  server of a slot when it begins with a refresh of the slot and hands out no persister of it, and
  starts it when it ends with handing one out.
\<close>

definition crashes :: "'k \<Rightarrow> 'k disk_op list \<Rightarrow> bool" where
  "crashes k ops \<longleftrightarrow> (\<exists>cs. ops = Refresh k # cs \<and> Fresh k \<notin> set cs)"

definition starts :: "'k \<Rightarrow> 'k disk_op list \<Rightarrow> bool" where
  "starts k ops \<longleftrightarrow> (\<exists>fs gs. ops = fs @ Fresh k # gs \<and> Fresh k \<notin> set fs \<and> set gs \<subseteq> range Peek)"

lemma crashes_Refresh [simp]: "crashes k (Refresh k # cs) \<longleftrightarrow> Fresh k \<notin> set cs"
  by (auto simp: crashes_def)

lemma starts_Fresh [simp]: "set gs \<subseteq> range Peek \<Longrightarrow> starts k (Fresh k # gs)"
  unfolding starts_def by (intro exI [of _ "[]"] exI [of _ gs]) simp

lemma starts_Cons [simp]: "op \<noteq> Fresh k \<Longrightarrow> starts k ops \<Longrightarrow> starts k (op # ops)"
  unfolding starts_def by (metis append_Cons set_ConsD)

locale restartable = go_machine exec invar pre
  for exec :: "'s \<Rightarrow> 'x \<Rightarrow> ('s \<times> 'o) go" and invar :: "'s \<Rightarrow> bool" and pre :: "'s \<Rightarrow> 'x \<Rightarrow> bool" +
  fixes disk :: "'s \<Rightarrow> 'k disks"
    and effect :: "'x \<Rightarrow> 'k disk_op list set"
  assumes effect_run: "invar s \<Longrightarrow> pre s x \<Longrightarrow> exec s x = Inr (s', out) \<Longrightarrow>
      \<exists>ops us. ops \<in> effect x \<and> go_allowed disk_exec disk_pre (disk s) ops \<and> go_run disk_exec (disk s) ops = Inr (disk s', us)"
begin

lemma run_effects:
  "invar s \<Longrightarrow> go_allowed exec pre s xs \<Longrightarrow> go_run exec s xs = Inr (s', os) \<Longrightarrow>
     \<exists>opss us. list_all2 (\<lambda>x ops. ops \<in> effect x) xs opss \<and> go_allowed disk_exec disk_pre (disk s) (concat opss) \<and>
       go_run disk_exec (disk s) (concat opss) = Inr (disk s', us)"
proof (induction xs arbitrary: s os)
  case (Cons x xs)
  from Cons.prems obtain s1 out os' where step: "exec s x = Inr (s1, out)"
    and run: "go_run exec s1 xs = Inr (s', os')" and pre: "pre s x" and al: "go_allowed exec pre s1 xs"
    by (auto simp: go_bind_Inr)
  have inv: "invar s1" using exec_invar [OF Cons.prems(1) pre step] .
  from effect_run [OF Cons.prems(1) pre step] obtain ops us1 where "ops \<in> effect x"
    "go_allowed disk_exec disk_pre (disk s) ops" "go_run disk_exec (disk s) ops = Inr (disk s1, us1)" by blast
  moreover from Cons.IH [OF inv al run] obtain opss us2 where "list_all2 (\<lambda>x ops. ops \<in> effect x) xs opss"
    "go_allowed disk_exec disk_pre (disk s1) (concat opss)" "go_run disk_exec (disk s1) (concat opss) = Inr (disk s', us2)"
    by blast
  ultimately show ?case
    by (intro exI [of _ "ops # opss"] exI [of _ "us1 @ us2"]) (simp add: go_allowed_append go_run_append)
qed auto

lemma run_disk_ok:
  "invar s \<Longrightarrow> disk_ok (disk s) \<Longrightarrow> go_allowed exec pre s xs \<Longrightarrow> go_run exec s xs = Inr (s', os) \<Longrightarrow> disk_ok (disk s')"
  using run_effects disk.run_invar by blast

lemma restart:
  assumes inv: "invar s" and ok: "disk_ok (disk s)"
    and al: "go_allowed exec pre s (crash # ys @ [start])" and run: "go_run exec s (crash # ys @ [start]) = Inr (s', os)"
    and crash: "\<forall>ops \<in> effect crash. crashes k ops" and start: "\<forall>ops \<in> effect start. starts k ops"
    and none: "\<forall>y \<in> set ys. \<forall>ops \<in> effect y. Fresh k \<notin> set ops"
  shows "persisted (disk s') k = Some (case persisted (disk s) k of None \<Rightarrow> ([], []) | Some c \<Rightarrow> c) \<and>
     dk_live (disk s') k = Some (length (dk_inst (disk s')) - 1)"
proof -
  obtain opss us where all: "list_all2 (\<lambda>x ops. ops \<in> effect x) (crash # ys @ [start]) opss"
    and al': "go_allowed disk_exec disk_pre (disk s) (concat opss)"
    and run': "go_run disk_exec (disk s) (concat opss) = Inr (disk s', us)"
    using run_effects [OF inv al run] by blast
  from all obtain c mid st where opss: "opss = c # mid @ [st]" and ef: "c \<in> effect crash" "st \<in> effect start"
    and mid: "list_all2 (\<lambda>x ops. ops \<in> effect x) ys mid"
    by (auto simp: list_all2_Cons1 list_all2_append1)
  from bspec [OF crash ef(1)] bspec [OF start ef(2)] obtain cs fs gs where c: "c = Refresh k # cs" "Fresh k \<notin> set cs"
    and st: "st = fs @ Fresh k # gs" "Fresh k \<notin> set fs" "set gs \<subseteq> range Peek"
    by (auto simp: crashes_def starts_def)
  have "Fresh k \<notin> set ops" if "ops \<in> set mid" for ops
  proof -
    from that obtain m where "m < length mid" "ops = mid ! m" by (auto simp: in_set_conv_nth)
    with mid have "ys ! m \<in> set ys" "ops \<in> effect (ys ! m)" by (auto simp: list_all2_conv_all_nth)
    with none show ?thesis by blast
  qed
  with c st have "Fresh k \<notin> set (cs @ concat mid @ fs)" by auto
  moreover have "concat opss = Refresh k # (cs @ concat mid @ fs) @ Fresh k # gs" by (simp add: opss c st)
  ultimately show ?thesis using disk_restart [OF ok _ _ _ st(3)] al' run' by metis
qed

end

end
