(* ===== verification/RaftTester.thy ===== *)
theory RaftTester
  imports RaftConfig Restart "HOL-Library.Countable"
begin

text \<open>
  More of the tester of the Raft package, \<^verbatim>\<open>src/raft/config.go\<close>: the reader of the apply channels that
  takes snapshots, crashing and starting servers, and the agreement on one command.

  The Raft instances live on a heap, as do the persisters; \<open>mk\<close> stands for \<^verbatim>\<open>Make\<close>, whose body is not
  part of the sources. \<open>encode\<close> and \<open>decode\<close> stand for the gob coders on snapshots. What Raft commits is
  the environment, as is the time: a loop that runs for some seconds runs over a list.

  Shown here: the reader raises no alarm when the servers deliver one sequence of commands in
  order, restart from snapshots the reader took, and install them, and every snapshot it takes
  holds that sequence; an index that \<^verbatim>\<open>one\<close> returns is committed with the command at as many servers as
  asked for; a restarted server finds what was persisted when it crashed.
\<close>

section \<open>Snapshots\<close>

definition SnapShotInterval :: int where
  "SnapShotInterval = 10"

text \<open>The log of a server as a list from index 0 on; an absent index reads as nil.\<close>

definition xlog_of :: "(int \<rightharpoonup> 'c option) \<Rightarrow> int \<Rightarrow> 'c option list" where
  "xlog_of lg index = map (\<lambda>j. case lg j of None \<Rightarrow> None | Some v \<Rightarrow> v) [0..index]"

text \<open>
  One turn of the loop of \<^verbatim>\<open>applierSnap\<close>. The output is the call of \<^verbatim>\<open>rf.Snapshot\<close>, if the turn makes one.
\<close>

definition applierSnap_turn ::
    "(int \<times> 'c option list \<Rightarrow> gbytes) \<Rightarrow> (gbytes \<Rightarrow> (int \<times> 'c option list) option) \<Rightarrow>
     'c config \<Rightarrow> nat \<times> 'c ApplyMsg \<Rightarrow> ('c config \<times> (int \<times> gbytes) option) go" where
  "applierSnap_turn encode decode cfg = (\<lambda>(i, m).
     if SnapshotValid m
     then go_bind (ingestSnap decode cfg i (Snapshot m) (SnapshotIndex m)) (\<lambda>(cfg1, err).
            if err \<noteq> None then Inl (LogFatal ''apply error'') else Inr (cfg1, None))
     else if CommandValid m
     then go_bind (go_nth (cfg_lastApplied cfg) (int i)) (\<lambda>la.
            go_bind (if CommandIndex m \<noteq> la + 1 then Inr (cfg, Some (OutOfOrder i (CommandIndex m)))
                     else go_bind (checkLogs cfg i m) (\<lambda>(cfg1, err, prevok).
                            Inr (cfg1, if CommandIndex m > 1 \<and> \<not> prevok
                                       then Some (OutOfOrder i (CommandIndex m)) else err))) (\<lambda>(cfg1, err).
            go_bind (go_update (cfg_lastApplied cfg1) (int i) (CommandIndex m)) (\<lambda>las.
              let cfg2 = cfg1\<lparr>cfg_lastApplied := las\<rparr>
              in go_bind (go_nth (cfg_logs cfg2) (int i)) (\<lambda>lg.
                   let snap = (if (CommandIndex m + 1) mod SnapShotInterval = 0
                               then Some (CommandIndex m, encode (CommandIndex m, xlog_of lg (CommandIndex m)))
                               else None)
                   in if err \<noteq> None then Inl (LogFatal ''apply error'') else Inr (cfg2, snap)))))
     else Inr (cfg, None))"

text \<open>The part of \<^verbatim>\<open>start1\<close> that resets what the readers know of the server, given the persisted snapshot.\<close>

definition reset_reader ::
    "(gbytes \<Rightarrow> (int \<times> 'c option list) option) \<Rightarrow> nat \<Rightarrow> gbytes \<Rightarrow> 'c config \<Rightarrow> 'c config go" where
  "reset_reader decode i snapshot cfg =
     go_bind (go_update (cfg_lastApplied cfg) (int i) 0) (\<lambda>la.
       let cfg1 = cfg\<lparr>cfg_lastApplied := la\<rparr>
       in if 0 < length snapshot
          then go_bind (ingestSnap decode cfg1 i (Some snapshot) (-1)) (\<lambda>(cfg2, err).
                 if err \<noteq> None then Inl (LogFatal ''snapshot doesn't match'') else Inr cfg2)
          else Inr cfg1)"

datatype 'c snap_act =
    Deliver nat "'c ApplyMsg"
  | Restarted nat gbytes

definition snap_exec ::
    "(int \<times> 'c option list \<Rightarrow> gbytes) \<Rightarrow> (gbytes \<Rightarrow> (int \<times> 'c option list) option) \<Rightarrow>
     'c config \<Rightarrow> 'c snap_act \<Rightarrow> ('c config \<times> (int \<times> gbytes) option) go" where
  "snap_exec encode decode cfg act =
     (case act of
        Deliver i m \<Rightarrow> applierSnap_turn encode decode cfg (i, m)
      | Restarted i bs \<Rightarrow> go_bind (reset_reader decode i bs cfg) (\<lambda>cfg1. Inr (cfg1, None)))"

section \<open>No false alarms\<close>

text \<open>\<open>G\<close> is the sequence of commands that Raft commits; a snapshot at \<open>k\<close> holds it up to \<open>k\<close>.\<close>

definition snap_of :: "(int \<Rightarrow> 'c option) \<Rightarrow> int \<Rightarrow> int \<times> 'c option list" where
  "snap_of G k = (k, map (\<lambda>j. if j = 0 then None else G j) [0..k])"

definition follows :: "(int \<times> 'c option list \<Rightarrow> gbytes) \<Rightarrow> (int \<Rightarrow> 'c option) \<Rightarrow> 'c config \<Rightarrow> 'c snap_act \<Rightarrow> bool" where
  "follows encode G cfg act \<longleftrightarrow>
     (case act of
        Deliver i m \<Rightarrow> i < cfg_n cfg \<and>
          (if SnapshotValid m
           then 0 \<le> SnapshotIndex m \<and> Snapshot m = Some (encode (snap_of G (SnapshotIndex m)))
           else CommandValid m \<longrightarrow>
             CommandIndex m = cfg_lastApplied cfg ! i + 1 \<and> Command m = G (CommandIndex m))
      | Restarted i bs \<Rightarrow> i < cfg_n cfg \<and> (bs = [] \<or> (\<exists>k \<ge> 0. bs = encode (snap_of G k))))"

definition log_follows :: "(int \<Rightarrow> 'c option) \<Rightarrow> int \<Rightarrow> (int \<rightharpoonup> 'c option) \<Rightarrow> bool" where
  "log_follows G la lg \<longleftrightarrow> 0 \<le> la \<and>
     (\<forall>k v. lg k = Some v \<longrightarrow> v = (if k = 0 then None else G k)) \<and> (\<forall>k. 1 \<le> k \<and> k \<le> la \<longrightarrow> lg k \<noteq> None)"

definition snap_inv :: "nat \<Rightarrow> (int \<Rightarrow> 'c option) \<Rightarrow> 'c config \<Rightarrow> bool" where
  "snap_inv n G cfg \<longleftrightarrow>
     cfg_n cfg = n \<and> length (cfg_logs cfg) = n \<and> length (cfg_lastApplied cfg) = n \<and>
     (\<forall>i < n. log_follows G (cfg_lastApplied cfg ! i) (cfg_logs cfg ! i))"

lemma log_followsD:
  assumes "log_follows G la lg"
  shows "0 \<le> la" and "lg k = Some v \<Longrightarrow> v = (if k = 0 then None else G k)" and "1 \<le> k \<Longrightarrow> k \<le> la \<Longrightarrow> lg k \<noteq> None"
  using assms unfolding log_follows_def by blast+

lemma log_follows_0: "log_follows G la lg \<Longrightarrow> log_follows G 0 lg"
  unfolding log_follows_def by auto

lemma xlog_of_follows:
  assumes "log_follows G la lg" and "k \<le> la"
  shows "(k, xlog_of lg k) = snap_of G k"
proof -
  have "(case lg j of None \<Rightarrow> None | Some v \<Rightarrow> v) = (if j = 0 then None else G j)" if "0 \<le> j" "j \<le> k" for j
  proof (cases "lg j")
    case None
    with log_followsD(3) [OF assms(1), of j] assms(2) that have "j = 0" by linarith
    with None show ?thesis by simp
  next
    case (Some v)
    with log_followsD(2) [OF assms(1) Some] show ?thesis by simp
  qed
  then show ?thesis by (simp add: snap_of_def xlog_of_def)
qed

lemma log_follows_snap:
  assumes "0 \<le> k"
  shows "log_follows G k (\<lambda>j. if 0 \<le> j \<and> j < int (length (snd (snap_of G k))) then Some (snd (snap_of G k) ! nat j) else None)"
  using assms by (auto simp: log_follows_def snap_of_def split: if_splits)

lemma ingestSnap_follows:
  assumes inv: "snap_inv n G cfg" and i: "i < n" and k: "0 \<le> k" and index: "index = -1 \<or> index = k"
    and dec: "decode bs = Some (snap_of G k)"
  shows "\<exists>cfg'. ingestSnap decode cfg i (Some bs) index = Inr (cfg', None) \<and> snap_inv n G cfg'"
proof -
  obtain xlog where snap: "snap_of G k = (k, xlog)" by (simp add: snap_of_def)
  have "log_follows G k (\<lambda>j. if 0 \<le> j \<and> j < int (length xlog) then Some (xlog ! nat j) else None)"
    using log_follows_snap [OF k, of G] unfolding snap snd_conv .
  with inv i index dec show ?thesis
    by (auto simp: ingestSnap_def snap go_update_def snap_inv_def nth_list_update)
qed

lemma checkLogs_follows:
  assumes inv: "snap_inv n G cfg" and i: "i < n" and la: "CommandIndex m = cfg_lastApplied cfg ! i + 1"
    and cmd: "Command m = G (CommandIndex m)"
  shows "\<exists>cfg' prevok. checkLogs cfg i m = Inr (cfg', None, prevok) \<and> (CommandIndex m > 1 \<longrightarrow> prevok) \<and>
     cfg_n cfg' = n \<and> cfg_lastApplied cfg' = cfg_lastApplied cfg \<and>
     cfg_logs cfg' = (cfg_logs cfg)[i := (cfg_logs cfg ! i)(CommandIndex m \<mapsto> G (CommandIndex m))]"
proof -
  have lg: "log_follows G (cfg_lastApplied cfg ! j) (cfg_logs cfg ! j)" if "j < n" for j
    using inv that by (simp add: snap_inv_def)
  then have pos: "1 \<le> CommandIndex m" using la i by (simp add: log_follows_def)
  have "\<forall>l \<in> set (cfg_logs cfg). \<forall>old. l (CommandIndex m) = Some old \<longrightarrow> old = Command m"
    using lg pos cmd inv by (fastforce simp: in_set_conv_nth log_follows_def snap_inv_def)
  then have "find_mismatch (cfg_logs cfg) i m 0 None = None" by (simp add: find_mismatch_None)
  moreover have "(cfg_logs cfg ! i) (CommandIndex m - 1) \<noteq> None" if "CommandIndex m > 1"
    using lg [OF i] la that by (simp add: log_follows_def)
  ultimately show ?thesis
    using inv i cmd by (auto simp: checkLogs_def go_nth_def snap_inv_def Let_def)
qed

lemma log_follows_next:
  "log_follows G la lg \<Longrightarrow> log_follows G (la + 1) (lg(la + 1 \<mapsto> G (la + 1)))"
  by (fastforce simp: log_follows_def split: if_splits)

text \<open>A call of \<^verbatim>\<open>rf.Snapshot\<close> passes the committed sequence up to its index.\<close>

definition snap_good :: "(int \<times> 'c option list \<Rightarrow> gbytes) \<Rightarrow> (int \<Rightarrow> 'c option) \<Rightarrow> (int \<times> gbytes) option \<Rightarrow> bool" where
  "snap_good encode G out \<longleftrightarrow> (case out of None \<Rightarrow> True | Some (k, bs) \<Rightarrow> bs = encode (snap_of G k))"

lemma Deliver_command_follows:
  assumes inv: "snap_inv n G cfg" and i: "i < n" and la: "CommandIndex m = cfg_lastApplied cfg ! i + 1"
    and cmd: "Command m = G (CommandIndex m)" and valid: "\<not> SnapshotValid m" "CommandValid m"
  shows "\<exists>cfg' out. applierSnap_turn encode decode cfg (i, m) = Inr (cfg', out) \<and> snap_inv n G cfg' \<and> snap_good encode G out"
proof -
  let ?idx = "CommandIndex m"
  let ?lg = "(cfg_logs cfg ! i)(?idx \<mapsto> G ?idx)"
  obtain cfg1 prevok where check: "checkLogs cfg i m = Inr (cfg1, None, prevok)" and prev: "?idx > 1 \<longrightarrow> prevok"
    and cfg1: "cfg_n cfg1 = n" "cfg_lastApplied cfg1 = cfg_lastApplied cfg" "cfg_logs cfg1 = (cfg_logs cfg)[i := ?lg]"
    using checkLogs_follows [OF inv i la cmd] by blast
  let ?cfg2 = "cfg1\<lparr>cfg_lastApplied := (cfg_lastApplied cfg)[i := ?idx]\<rparr>"
  have lens: "length (cfg_logs cfg) = n" "length (cfg_lastApplied cfg) = n" using inv by (simp_all add: snap_inv_def)
  have lg: "log_follows G ?idx ?lg"
    using inv i log_follows_next [of G "cfg_lastApplied cfg ! i" "cfg_logs cfg ! i"] by (simp add: la snap_inv_def)
  then have "snap_inv n G ?cfg2" using inv cfg1 i by (auto simp: snap_inv_def nth_list_update)
  moreover have "applierSnap_turn encode decode cfg (i, m) =
      Inr (?cfg2, if (?idx + 1) mod SnapShotInterval = 0 then Some (?idx, encode (snap_of G ?idx)) else None)"
    using check prev valid la lens i cfg1 xlog_of_follows [OF lg order.refl]
    by (auto simp: applierSnap_turn_def go_nth_def go_update_def Let_def)
  moreover have "snap_good encode G (if (?idx + 1) mod SnapShotInterval = 0 then Some (?idx, encode (snap_of G ?idx)) else None)"
    by (simp add: snap_good_def)
  ultimately show ?thesis by blast
qed

lemma snap_exec_follows:
  assumes dec: "\<And>x. decode (encode x) = Some x" and inv: "snap_inv n G cfg" and act: "follows encode G cfg act"
  shows "\<exists>cfg' out. snap_exec encode decode cfg act = Inr (cfg', out) \<and> snap_inv n G cfg' \<and> snap_good encode G out"
proof -
  have n: "cfg_n cfg = n" using inv by (simp add: snap_inv_def)
  show ?thesis
  proof (cases act)
    case (Deliver i m)
    then have i: "i < n" using act n by (simp add: follows_def)
    consider (snap) "SnapshotValid m" | (cmd) "\<not> SnapshotValid m" "CommandValid m"
      | (other) "\<not> SnapshotValid m" "\<not> CommandValid m" by blast
    then show ?thesis
    proof cases
      case snap
      with act Deliver have "0 \<le> SnapshotIndex m" "Snapshot m = Some (encode (snap_of G (SnapshotIndex m)))"
        by (simp_all add: follows_def)
      with ingestSnap_follows [OF inv i, of "SnapshotIndex m" "SnapshotIndex m" decode] dec snap Deliver show ?thesis
        by (fastforce simp: snap_exec_def applierSnap_turn_def snap_good_def)
    next
      case cmd
      with act Deliver Deliver_command_follows [OF inv i] show ?thesis by (simp add: follows_def snap_exec_def)
    qed (use Deliver inv in \<open>simp add: snap_exec_def applierSnap_turn_def snap_good_def\<close>)
  next
    case (Restarted i bs)
    then have i: "i < n" using act n by (simp add: follows_def)
    let ?cfg1 = "cfg\<lparr>cfg_lastApplied := (cfg_lastApplied cfg)[i := 0]\<rparr>"
    have "log_follows G ((cfg_lastApplied cfg)[i := 0] ! j) (cfg_logs cfg ! j)" if "j < n" for j
      using inv that i log_follows_0 by (cases "j = i") (auto simp: snap_inv_def)
    then have inv1: "snap_inv n G ?cfg1" using inv by (simp add: snap_inv_def)
    have upd: "go_update (cfg_lastApplied cfg) (int i) 0 = Inr ((cfg_lastApplied cfg)[i := 0])"
      using inv i by (simp add: go_update_def snap_inv_def)
    show ?thesis
    proof (cases "bs = []")
      case True
      with Restarted inv1 upd show ?thesis by (simp add: snap_exec_def reset_reader_def snap_good_def)
    next
      case False
      with act Restarted obtain k where "0 \<le> k" "bs = encode (snap_of G k)" by (auto simp: follows_def)
      with ingestSnap_follows [OF inv1 i, of k "-1" decode bs] dec False Restarted upd show ?thesis
        by (fastforce simp: snap_exec_def reset_reader_def snap_good_def)
    qed
  qed
qed


text \<open>The coders undo each other, as gob does on the integers and command lists it is given here.\<close>

definition codec_ok :: "(int \<times> 'c option list \<Rightarrow> gbytes) \<Rightarrow> (gbytes \<Rightarrow> (int \<times> 'c option list) option) \<Rightarrow> bool" where
  "codec_ok encode decode \<longleftrightarrow> (\<forall>x. decode (encode x) = Some x)"

interpretation snap: go_machine_total "snap_exec encode decode" "\<lambda>cfg. snap_inv n G cfg \<and> codec_ok encode decode"
  "follows encode G" for encode decode n G
proof unfold_locales
  fix s s' x out
  assume inv: "snap_inv n G s \<and> codec_ok encode decode" and pre: "follows encode G s x"
  then have ex: "\<exists>s' out. snap_exec encode decode s x = Inr (s', out) \<and> snap_inv n G s' \<and> snap_good encode G out"
    by (intro snap_exec_follows) (auto simp: codec_ok_def)
  then show "\<exists>s' out. snap_exec encode decode s x = Inr (s', out)" by blast
  show "snap_inv n G s' \<and> codec_ok encode decode" if "snap_exec encode decode s x = Inr (s', out)"
    using that ex inv by auto
qed

interpretation snaph: go_history "snap_exec encode decode"
  "\<lambda>cfg os. snap_inv n G cfg \<and> codec_ok encode decode \<and> list_all (snap_good encode G) os" "follows encode G"
  for encode decode n G
proof unfold_locales
  fix s h x s' out
  assume inv: "snap_inv n G s \<and> codec_ok encode decode \<and> list_all (snap_good encode G) h" and pre: "follows encode G s x"
    and exec: "snap_exec encode decode s x = Inr (s', out)"
  then have "\<exists>s' out. snap_exec encode decode s x = Inr (s', out) \<and> snap_inv n G s' \<and> snap_good encode G out"
    by (intro snap_exec_follows) (auto simp: codec_ok_def)
  with inv exec show "snap_inv n G s' \<and> codec_ok encode decode \<and> list_all (snap_good encode G) (h @ [out])" by auto
qed

text \<open>
  C17: the readers with snapshots raise no alarm on a correct Raft. When every server delivers the
  commands of one sequence in order, or installs, or restarts from, a snapshot of that sequence,
  no reader fails; the logs of the tester then hold that sequence up to the last applied index of each
  server, and each snapshot the readers hand to Raft holds the sequence up to its index.
\<close>

theorem snapshot_readers_accept_committed:
  assumes "codec_ok encode decode" and "cfg_logs cfg = replicate (cfg_n cfg) Map.empty"
    and "cfg_lastApplied cfg = replicate (cfg_n cfg) 0" and "go_allowed (snap_exec encode decode) (follows encode G) cfg acts"
  shows "\<exists>cfg' os. go_run (snap_exec encode decode) cfg acts = Inr (cfg', os) \<and>
     (\<forall>i < cfg_n cfg. \<forall>k. 1 \<le> k \<and> k \<le> cfg_lastApplied cfg' ! i \<longrightarrow> (cfg_logs cfg' ! i) k = Some (G k)) \<and>
     (\<forall>k bs. Some (k, bs) \<in> set os \<longrightarrow> bs = encode (snap_of G k))"
proof -
  let ?n = "cfg_n cfg"
  have inv: "snap_inv ?n G cfg" using assms(2,3) by (simp add: snap_inv_def log_follows_def)
  obtain cfg' os where run: "go_run (snap_exec encode decode) cfg acts = Inr (cfg', os)"
    using snap.run_returns [of ?n G cfg encode decode acts] inv assms(1,4) by blast
  have hist: "snap_inv ?n G cfg' \<and> codec_ok encode decode \<and> list_all (snap_good encode G) os"
    by (rule snaph.run_hist [OF _ assms(4) run]) (use inv assms(1) in simp)
  have lg: "log_follows G (cfg_lastApplied cfg' ! i) (cfg_logs cfg' ! i)" if "i < ?n" for i
    using hist that by (simp add: snap_inv_def)
  have good: "snap_good encode G out" if "out \<in> set os" for out
    using hist that by (simp add: list_all_iff)
  have "(cfg_logs cfg' ! i) k = Some (G k)" if "i < ?n" "1 \<le> k" "k \<le> cfg_lastApplied cfg' ! i" for i k
    using log_followsD(2,3) [OF lg [OF that(1)], of k] that(2,3) by auto
  moreover have "bs = encode (snap_of G k)" if "Some (k, bs) \<in> set os" for k bs
    using good [OF that] by (simp add: snap_good_def)
  ultimately show ?thesis using run by blast
qed


definition example_encode :: "int \<times> nat option list \<Rightarrow> gbytes" where
  "example_encode x = replicate (Suc (to_nat x)) 0"

definition example_decode :: "gbytes \<Rightarrow> (int \<times> nat option list) option" where
  "example_decode bs = Some (from_nat (length bs - 1))"

lemma example_codec: "codec_ok example_encode example_decode"
  by (simp add: codec_ok_def example_encode_def example_decode_def)

definition example_G :: "int \<Rightarrow> nat option" where
  "example_G k = Some (nat k + 6)"

text \<open>Server 0 applies two commands, server 1 restarts from a snapshot at 1 and applies the second.\<close>

definition example_snaps :: "nat snap_act list" where
  "example_snaps = [Deliver 0 (example_apply 1 7), Deliver 0 (example_apply 2 8),
     Restarted 1 (example_encode (1, [None, Some 7])), Deliver 1 (example_apply 2 8)]"

lemma snapshot_readers_accept_committed_witness:
  "\<exists>cfg' os. go_run (snap_exec example_encode example_decode) example_config example_snaps = Inr (cfg', os) \<and>
     cfg_lastApplied cfg' ! 1 = 2 \<and> (cfg_logs cfg' ! 1) 1 = Some (Some 7)"
proof -
  have dec: "example_decode (example_encode x) = Some x" for x
    using example_codec unfolding codec_ok_def by blast
  have "snap_of example_G 1 = (1, [None, Some 7])"
    by (simp add: snap_of_def example_G_def upto_rec1)
  then have snap: "\<exists>k \<ge> 0. example_encode (1, [None, Some 7]) = example_encode (snap_of example_G k)"
    by (intro exI [of _ 1]) simp
  have ne: "example_encode x \<noteq> []" for x by (simp add: example_encode_def)
  note defs = example_snaps_def snap_exec_def applierSnap_turn_def reset_reader_def example_config_def example_apply_def
    go_nth_def go_update_def checkLogs_def ingestSnap_def follows_def dec ne Let_def SnapShotInterval_def
  have logs2: "replicate 2 (Map.empty :: int \<rightharpoonup> nat option) = [Map.empty, Map.empty]" by (simp add: numeral_2_eq_2)
  let ?run = "go_run (snap_exec example_encode example_decode) example_config example_snaps"
  have al: "go_allowed (snap_exec example_encode example_decode) (follows example_encode example_G) example_config example_snaps"
    using snap by (simp add: defs logs2 example_G_def)
  have init: "cfg_logs example_config = replicate (cfg_n example_config) Map.empty"
    "cfg_lastApplied example_config = replicate (cfg_n example_config) 0"
    by (simp_all add: example_config_def numeral_2_eq_2)
  obtain cfg' os where run: "?run = Inr (cfg', os)"
    and logs: "\<forall>i < cfg_n example_config. \<forall>k. 1 \<le> k \<and> k \<le> cfg_lastApplied cfg' ! i \<longrightarrow>
        (cfg_logs cfg' ! i) k = Some (example_G k)"
    using snapshot_readers_accept_committed [OF example_codec init al] by blast
  have la: "cfg_lastApplied cfg' ! 1 = 2" using run by (auto simp: defs logs2)
  have "(cfg_logs cfg' ! 1) 1 = Some (example_G 1)" using logs la by (simp add: example_config_def)
  with run la show ?thesis by (auto simp: example_G_def)
qed


section \<open>Crashing and starting servers\<close>

record 'c rinst =
  ri_rf :: "'c Raft"
  ri_ps :: nat

record 'c rtester =
  rt_cfg :: "'c config"
  rt_saved :: "nat option list"
  rt_rafts :: "nat option list"
  rt_pt :: pstate
  rt_insts :: "'c rinst list"
  rt_finished :: bool

type_synonym 'c raft_maker = "ClientEnd list \<Rightarrow> int \<Rightarrow> nat \<Rightarrow> 'c Raft"

definition kill_instance :: "nat \<Rightarrow> 'c rinst list \<Rightarrow> 'c rinst list" where
  "kill_instance k insts = insts[k := (insts ! k)\<lparr>ri_rf := Raft_Kill (ri_rf (insts ! k))\<rparr>]"

definition crash1 :: "nat \<Rightarrow> 'c rtester \<Rightarrow> 'c rtester go" where
  "crash1 i t =
     go_bind (disconnect i (rt_cfg t)) (\<lambda>cfg1.
       let cfg2 = cfg1\<lparr>cfg_net := DeleteServer (NInt (int i)) (cfg_net cfg1)\<rparr>
       in go_bind (go_nth (rt_saved t) (int i)) (\<lambda>x.
          go_bind (copy_saved (rt_pt t) x) (\<lambda>(pt1, x1).
          go_bind (go_nth (rt_rafts t) (int i)) (\<lambda>rf.
            let insts = (case rf of None \<Rightarrow> rt_insts t | Some k \<Rightarrow> kill_instance k (rt_insts t))
            in go_bind (rewrite_saved pt1 x1) (\<lambda>(pt2, x2).
                 Inr (t\<lparr>rt_cfg := cfg2, rt_pt := pt2, rt_saved := (rt_saved t)[i := x2],
                        rt_rafts := (rt_rafts t)[i := None], rt_insts := insts\<rparr>))))))"

text \<open>The persister a new instance gets, and the snapshot that is read from it; there is none to read at the first start.\<close>

definition fresh_persister :: "pstate \<Rightarrow> nat option \<Rightarrow> (pstate \<times> nat \<times> gbytes) go" where
  "fresh_persister pt x =
     go_bind (copy_or_make pt x) (\<lambda>(pt1, a).
       if x = None then Inr (pt1, a, [])
       else go_bind (pexec pt1 (CallReadSnapshot a)) (\<lambda>(pt2, out).
              Inr (pt2, a, case out of OReadSnapshot _ bs \<Rightarrow> bs | _ \<Rightarrow> [])))"

definition start1 ::
    "'c raft_maker \<Rightarrow> (gbytes \<Rightarrow> (int \<times> 'c option list) option) \<Rightarrow> (nat \<Rightarrow> string) \<Rightarrow> nat \<Rightarrow> 'c rtester \<Rightarrow> 'c rtester go" where
  "start1 mk decode rnd i t =
     go_bind (crash1 i t) (\<lambda>t1.
       let n = cfg_n (rt_cfg t1)
       in go_bind (go_update (cfg_endnames (rt_cfg t1)) (int i) (Some (map rnd [0..<n]))) (\<lambda>ens.
          go_bind (make_ends rnd (\<lambda>j. NInt (int j)) False [0..<n] (cfg_net (rt_cfg t1))) (\<lambda>(net, ends).
          go_bind (go_nth (rt_saved t1) (int i)) (\<lambda>x.
          go_bind (fresh_persister (rt_pt t1) x) (\<lambda>(pt, a, snapshot).
          go_bind (reset_reader decode i snapshot ((rt_cfg t1)\<lparr>cfg_endnames := ens, cfg_net := net\<rparr>)) (\<lambda>cfg2.
            let k = length (rt_insts t1); inst = \<lparr>ri_rf = mk ends (int i) a, ri_ps = a\<rparr>
            in Inr (t1\<lparr>rt_cfg := cfg2\<lparr>cfg_net := AddServer (NInt (int i)) k (cfg_net cfg2)\<rparr>,
                       rt_pt := pt, rt_saved := (rt_saved t1)[i := Some a],
                       rt_rafts := (rt_rafts t1)[i := Some k], rt_insts := rt_insts t1 @ [inst]\<rparr>)))))))"

fun start_rafts ::
    "'c raft_maker \<Rightarrow> (gbytes \<Rightarrow> (int \<times> 'c option list) option) \<Rightarrow> (nat \<Rightarrow> nat \<Rightarrow> string) \<Rightarrow> nat list \<Rightarrow>
     'c rtester \<Rightarrow> 'c rtester go" where
  "start_rafts mk decode rnd [] t = Inr t"
| "start_rafts mk decode rnd (i # is) t = go_bind (start1 mk decode (rnd i) i t) (start_rafts mk decode rnd is)"

fun connect_rafts :: "nat list \<Rightarrow> 'c config \<Rightarrow> 'c config go" where
  "connect_rafts [] cfg = Inr cfg"
| "connect_rafts (i # is) cfg = go_bind (connect i cfg) (connect_rafts is)"

definition bare_tester :: "nat \<Rightarrow> bool \<Rightarrow> 'c rtester" where
  "bare_tester n unreliable =
     \<lparr>rt_cfg = \<lparr>cfg_n = n, cfg_net = LongDelays True (Reliable (\<not> unreliable) MakeNetwork),
                cfg_connected = replicate n False, cfg_endnames = replicate n None,
                cfg_logs = replicate n Map.empty, cfg_lastApplied = replicate n 0, cfg_maxIndex = 0\<rparr>,
      rt_saved = replicate n None, rt_rafts = replicate n None, rt_pt = pinit, rt_insts = [],
      rt_finished = False\<rparr>"

definition raft_make_config ::
    "'c raft_maker \<Rightarrow> (gbytes \<Rightarrow> (int \<times> 'c option list) option) \<Rightarrow> (nat \<Rightarrow> nat \<Rightarrow> string) \<Rightarrow> nat \<Rightarrow> bool \<Rightarrow> 'c rtester go" where
  "raft_make_config mk decode rnd n unreliable =
     go_bind (start_rafts mk decode rnd [0..<n] (bare_tester n unreliable)) (\<lambda>t.
     go_bind (connect_rafts [0..<n] (rt_cfg t)) (\<lambda>cfg. Inr (t\<lparr>rt_cfg := cfg\<rparr>)))"

fun kill_rafts :: "nat option list \<Rightarrow> 'c rinst list \<Rightarrow> 'c rinst list" where
  "kill_rafts [] insts = insts"
| "kill_rafts (None # rfs) insts = kill_rafts rfs insts"
| "kill_rafts (Some k # rfs) insts = kill_rafts rfs (kill_instance k insts)"

definition checkFinished :: "'c rtester \<Rightarrow> bool" where
  "checkFinished t = rt_finished t"

text \<open>The tester it leaves, and what the check of the time says.\<close>

definition raft_cleanup :: "bool \<Rightarrow> int \<Rightarrow> 'c rtester \<Rightarrow> ('c rtester \<times> unit go) go" where
  "raft_cleanup failed elapsed t =
     go_bind (Cleanup (cfg_net (rt_cfg t))) (\<lambda>net.
       Inr (t\<lparr>rt_cfg := (rt_cfg t)\<lparr>cfg_net := net\<rparr>, rt_insts := kill_rafts (rt_rafts t) (rt_insts t), rt_finished := True\<rparr>,
            checkTimeout failed elapsed))"

section \<open>Restarting\<close>

datatype rt_act =
    RStart nat "nat \<Rightarrow> string"
  | RCrash nat
  | RConnect nat
  | RDisconnect nat
  | RInst nat pcall

fun rt_exec ::
    "'c raft_maker \<Rightarrow> (gbytes \<Rightarrow> (int \<times> 'c option list) option) \<Rightarrow> 'c rtester \<Rightarrow> rt_act \<Rightarrow> ('c rtester \<times> unit) go" where
  "rt_exec mk decode t (RStart i rnd) = go_bind (start1 mk decode rnd i t) (\<lambda>t'. Inr (t', ()))"
| "rt_exec mk decode t (RCrash i) = go_bind (crash1 i t) (\<lambda>t'. Inr (t', ()))"
| "rt_exec mk decode t (RConnect i) = go_bind (connect i (rt_cfg t)) (\<lambda>cfg. Inr (t\<lparr>rt_cfg := cfg\<rparr>, ()))"
| "rt_exec mk decode t (RDisconnect i) = go_bind (disconnect i (rt_cfg t)) (\<lambda>cfg. Inr (t\<lparr>rt_cfg := cfg\<rparr>, ()))"
| "rt_exec mk decode t (RInst k call) = go_bind (pexec (rt_pt t) call) (\<lambda>(pt, _). Inr (t\<lparr>rt_pt := pt\<rparr>, ()))"

definition rt_disk :: "'c rtester \<Rightarrow> nat disks" where
  "rt_disk t = \<lparr>dk_pt = rt_pt t, dk_saved = at_slot (rt_saved t), dk_inst = map ri_ps (rt_insts t),
     dk_live = at_slot (rt_rafts t)\<rparr>"

fun rt_pre :: "'c rtester \<Rightarrow> rt_act \<Rightarrow> bool" where
  "rt_pre t (RInst k call) \<longleftrightarrow> disk_pre (rt_disk t) (Inst k call)"
| "rt_pre t _ \<longleftrightarrow> True"

fun rt_effect :: "rt_act \<Rightarrow> nat disk_op list set" where
  "rt_effect (RStart i rnd) = {[Refresh i, Rewrite i, Fresh i], [Refresh i, Rewrite i, Fresh i, Peek i]}"
| "rt_effect (RCrash i) = {[Refresh i, Rewrite i]}"
| "rt_effect (RInst k call) = {[Inst k call]}"
| "rt_effect _ = {[]}"

definition rt_inv :: "nat \<Rightarrow> 'c rtester \<Rightarrow> bool" where
  "rt_inv n t \<longleftrightarrow> length (rt_saved t) = n \<and> length (rt_rafts t) = n"


lemma kill_instance_ps: "map ri_ps (kill_instance k insts) = map ri_ps insts"
  by (simp add: kill_instance_def map_update_same)

lemma crash1_disk:
  assumes "crash1 i t = Inr t'" and "rt_inv n t"
  shows "\<exists>us. go_run disk_exec (rt_disk t) [Refresh i, Rewrite i] = Inr (rt_disk t', us)" and "rt_inv n t'" and "i < n"
proof -
  from assms(1) obtain cfg x pt1 x1 rf pt2 x2 where "disconnect i (rt_cfg t) = Inr cfg"
    and x: "i < length (rt_saved t)" "x = rt_saved t ! i" and rf: "i < length (rt_rafts t)" "rf = rt_rafts t ! i"
    and copy: "copy_saved (rt_pt t) x = Inr (pt1, x1)" and rewrite: "rewrite_saved pt1 x1 = Inr (pt2, x2)"
    and t': "t' = t\<lparr>rt_cfg := cfg\<lparr>cfg_net := DeleteServer (NInt (int i)) (cfg_net cfg)\<rparr>, rt_pt := pt2,
        rt_saved := (rt_saved t)[i := x2], rt_rafts := (rt_rafts t)[i := None],
        rt_insts := (case rf of None \<Rightarrow> rt_insts t | Some k \<Rightarrow> kill_instance k (rt_insts t))\<rparr>"
    by (auto simp: crash1_def go_bind_Inr go_nth_at Let_def)
  have slot: "at_slot (rt_saved t) i = x" using x by (simp add: at_slot_def)
  have "map ri_ps (rt_insts t') = map ri_ps (rt_insts t)"
    by (simp add: t' kill_instance_ps split: option.splits)
  then show "\<exists>us. go_run disk_exec (rt_disk t) [Refresh i, Rewrite i] = Inr (rt_disk t', us)"
    using copy rewrite slot x(1) rf(1) by (simp add: rt_disk_def t' at_slot_update)
  show "rt_inv n t'" and "i < n" using assms(2) x(1) by (auto simp: rt_inv_def t')
qed

lemma start1_disk:
  assumes "start1 mk decode rnd i t = Inr t'" and "rt_inv n t"
  shows "\<exists>ops us. ops \<in> rt_effect (RStart i rnd) \<and> go_run disk_exec (rt_disk t) ops = Inr (rt_disk t', us)" and "rt_inv n t'"
proof -
  from assms(1) obtain t1 x pt a snapshot cfg rf where crash: "crash1 i t = Inr t1"
    and x: "i < length (rt_saved t1)" "x = rt_saved t1 ! i" and fresh: "fresh_persister (rt_pt t1) x = Inr (pt, a, snapshot)"
    and t': "t' = t1\<lparr>rt_cfg := cfg, rt_pt := pt, rt_saved := (rt_saved t1)[i := Some a],
        rt_rafts := (rt_rafts t1)[i := Some (length (rt_insts t1))], rt_insts := rt_insts t1 @ [\<lparr>ri_rf = rf, ri_ps = a\<rparr>]\<rparr>"
    by (auto simp: start1_def go_bind_Inr go_nth_at go_update_at Let_def)
  from crash1_disk [OF crash assms(2)] obtain us
    where run1: "go_run disk_exec (rt_disk t) [Refresh i, Rewrite i] = Inr (rt_disk t1, us)"
      and inv1: "rt_inv n t1" and i: "i < n" by blast
  have slot: "dk_saved (rt_disk t1) i = x" using x by (simp add: at_slot_def rt_disk_def)
  have lens: "i < length (rt_saved t1)" "i < length (rt_rafts t1)" using inv1 i by (simp_all add: rt_inv_def)
  obtain pt1 where make: "copy_or_make (rt_pt t1) x = Inr (pt1, a)"
    and peek: "if x = None then pt = pt1 else \<exists>out. pexec pt1 (CallReadSnapshot a) = Inr (pt, out)"
    using fresh by (auto simp: fresh_persister_def go_bind_Inr simp del: pexec.simps split: if_splits)
  have "\<exists>ops us. (ops = [Fresh i] \<or> ops = [Fresh i, Peek i]) \<and> go_run disk_exec (rt_disk t1) ops = Inr (rt_disk t', us)"
  proof (cases "x = None")
    case True
    with make peek slot lens show ?thesis
      by (intro exI [of _ "[Fresh i]"]) (simp add: rt_disk_def t' at_slot_update)
  next
    case False
    with peek obtain out where "pexec pt1 (CallReadSnapshot a) = Inr (pt, out)" by auto
    with make slot lens show ?thesis
      by (intro exI [of _ "[Fresh i, Peek i]"]) (simp add: rt_disk_def t' at_slot_update del: pexec.simps)
  qed
  then obtain ops us2 where ops: "ops = [Fresh i] \<or> ops = [Fresh i, Peek i]"
    and run2: "go_run disk_exec (rt_disk t1) ops = Inr (rt_disk t', us2)" by blast
  have "go_run disk_exec (rt_disk t) ([Refresh i, Rewrite i] @ ops) = Inr (rt_disk t', us @ us2)"
    unfolding go_run_append run1 by (simp add: run2)
  with ops show "\<exists>ops us. ops \<in> rt_effect (RStart i rnd) \<and> go_run disk_exec (rt_disk t) ops = Inr (rt_disk t', us)"
    by (intro exI [of _ "[Refresh i, Rewrite i] @ ops"] exI [of _ "us @ us2"]) auto
  show "rt_inv n t'" using inv1 by (simp add: rt_inv_def t')
qed

lemma rt_effect_allowed:
  assumes "ops \<in> rt_effect act" and "rt_pre t act"
  shows "go_allowed disk_exec disk_pre (rt_disk t) ops"
proof (cases "\<exists>k call. act = RInst k call")
  case True
  with assms show ?thesis by (auto split: sum.splits)
next
  case False
  with assms(1) have "\<forall>op \<in> set ops. \<forall>j call. op \<noteq> Inst j call" by (cases act) auto
  then have "\<forall>d. \<forall>op \<in> set ops. disk_pre d op" by (metis disk_op.exhaust disk_pre.simps(2-5))
  then show ?thesis
  proof (induction ops arbitrary: t)
    case (Cons op ops)
    have "go_allowed disk_exec disk_pre d ops" if "\<forall>d. \<forall>op \<in> set ops. disk_pre d op" for d
      using that by (induction ops arbitrary: d) (auto split: sum.splits)
    with Cons.prems show ?case by (auto split: sum.splits)
  qed simp
qed

lemma rt_exec_disk:
  assumes exec: "rt_exec mk decode t act = Inr (t', u)" and inv: "rt_inv n t"
  shows "(\<exists>ops us. ops \<in> rt_effect act \<and> go_run disk_exec (rt_disk t) ops = Inr (rt_disk t', us)) \<and> rt_inv n t'"
proof (cases act)
  case (RStart i rnd)
  with exec have "start1 mk decode rnd i t = Inr t'" by (auto simp: go_bind_Inr)
  from start1_disk [OF this inv] RStart show ?thesis by simp
next
  case (RCrash i)
  with exec have "crash1 i t = Inr t'" by (auto simp: go_bind_Inr)
  from crash1_disk [OF this inv] RCrash show ?thesis by simp
next
  case (RInst k call)
  with exec inv show ?thesis by (auto simp: go_bind_Inr rt_disk_def rt_inv_def)
qed (use exec inv in \<open>auto simp: go_bind_Inr rt_disk_def rt_inv_def\<close>)

interpretation rt: restartable "rt_exec mk decode" "rt_inv n" rt_pre rt_disk rt_effect for mk decode n
  by unfold_locales (use rt_exec_disk rt_effect_allowed in blast)+

lemma bare_tester_ok: "disk_ok (rt_disk (bare_tester n unreliable))" and bare_tester_inv: "rt_inv n (bare_tester n unreliable)"
  by (auto simp: disk_ok_def rt_disk_def bare_tester_def at_slot_def psound_pinit rt_inv_def)

lemma live_raft_holds:
  assumes "disk_ok (rt_disk t)" and "dk_live (rt_disk t) i = Some j"
  shows "persisted (rt_disk t) i = Some (held (rt_pt t) (ri_ps (rt_insts t ! j)))" and "rt_rafts t ! i = Some j"
proof -
  have "j < length (rt_insts t)" and "at_slot (rt_saved t) i = Some (ri_ps (rt_insts t ! j))"
    using disk_okD(6,7) [OF assms] by (simp_all add: rt_disk_def)
  then show "persisted (rt_disk t) i = Some (held (rt_pt t) (ri_ps (rt_insts t ! j)))"
    by (simp add: persisted_def rt_disk_def)
  show "rt_rafts t ! i = Some j"
    using assms(2) by (auto simp: rt_disk_def at_slot_def split: if_splits)
qed

text \<open>
  C18: a Raft server that crashes and starts again finds in its persister what the instance that
  crashed held at the time of the crash, for every sequence of crashes, starts, connections and
  disconnections, while all instances, crashed ones included, go on to save into their persisters.
\<close>

theorem raft_restart_from_last_persisted:
  assumes "go_allowed (rt_exec mk decode) rt_pre (bare_tester n unreliable) xs"
    and "go_run (rt_exec mk decode) (bare_tester n unreliable) xs = Inr (t, os1)"
    and "i < n" and "rt_rafts t ! i = Some j"
    and "go_allowed (rt_exec mk decode) rt_pre t (RCrash i # ys @ [RStart i rnd])"
    and "go_run (rt_exec mk decode) t (RCrash i # ys @ [RStart i rnd]) = Inr (t', os2)"
    and "\<forall>r. RStart i r \<notin> set ys"
  shows "\<exists>k. rt_rafts t' ! i = Some k \<and>
     held (rt_pt t') (ri_ps (rt_insts t' ! k)) = held (rt_pt t) (ri_ps (rt_insts t ! j))"
proof -
  have ok: "disk_ok (rt_disk t)" using rt.run_disk_ok [OF bare_tester_inv bare_tester_ok assms(1,2)] .
  have inv: "rt_inv n t" using rt.run_invar [OF bare_tester_inv assms(1,2)] .
  have ok': "disk_ok (rt_disk t')" using rt.run_disk_ok [OF inv ok assms(5,6)] .
  have live: "dk_live (rt_disk t) i = Some j"
    using assms(3,4) inv by (simp add: rt_disk_def at_slot_def rt_inv_def)
  have none: "\<forall>y \<in> set ys. \<forall>ops \<in> rt_effect y. Fresh i \<notin> set ops"
  proof (intro ballI notI)
    fix y ops assume "y \<in> set ys" "ops \<in> rt_effect y" "Fresh i \<in> set ops"
    with assms(7) show False by (cases y) auto
  qed
  have "persisted (rt_disk t') i = Some (held (rt_pt t) (ri_ps (rt_insts t ! j))) \<and>
      dk_live (rt_disk t') i = Some (length (dk_inst (rt_disk t')) - 1)"
    using rt.restart [OF inv ok assms(5,6) _ _ none] live_raft_holds(1) [OF ok live] by simp
  with live_raft_holds [OF ok'] show ?thesis by (metis option.inject)
qed


definition example_rf :: "nat Raft" where
  "example_rf =
     \<lparr>rf_me = 0, rf_dead = 0, currentTerm = 0, votedFor = -1, logs = [], commitIndex = 0, lastApplied = 0,
      nextIndex = [], matchIndex = [], rf_state = Follower, voteCount = 0, winElectCh = 0, stepDownCh = 0,
      grantVoteCh = 0, heartbeatCh = 0, snapLastIndex = 0, snapLastTerm = 0\<rparr>"

definition example_maker :: "nat raft_maker" where
  "example_maker es me a = example_rf"

definition example_first :: "rt_act list" where
  "example_first = [RStart 0 (\<lambda>_. ''a''), RInst 0 (ClientAlloc [7]), RInst 0 (CallSave 0 (Some 0) None)]"

definition example_again :: "rt_act list" where
  "example_again =
     RCrash 0 # [RInst 0 (ClientAlloc [8]), RInst 0 (CallSave 0 (Some 7) None)] @ [RStart 0 (\<lambda>_. ''b'')]"

lemma raft_restart_from_last_persisted_witness:
  "\<exists>t os1 t' os2 k. go_run (rt_exec example_maker example_decode) (bare_tester 1 False) example_first = Inr (t, os1) \<and>
     go_run (rt_exec example_maker example_decode) t example_again = Inr (t', os2) \<and> rt_rafts t' ! 0 = Some k \<and>
     held (rt_pt t') (ri_ps (rt_insts t' ! k)) = ([7], [])"
proof -
  note defs = example_first_def example_again_def example_maker_def bare_tester_def start1_def crash1_def disconnect_def
    kill_instance_def fresh_persister_def reset_reader_def rewrite_saved_def
    go_update_def go_nth_def copy_or_make_def copy_saved_def MakeEnd_def MakeNetwork_def Reliable_def LongDelays_def
    Connect_def Enable_def AddServer_def DeleteServer_def endname_at_def Let_def pinit_def with_ps_def
    Save_def clone_def Copy_def MakePersister_def deref_def rt_disk_def ReadSnapshot_def ReadRaftState_def
  let ?exec = "rt_exec example_maker example_decode"
  define t where "t = fst (projr (go_run ?exec (bare_tester 1 False) example_first))"
  obtain os1 where boot: "go_run ?exec (bare_tester 1 False) example_first = Inr (t, os1)"
    unfolding t_def by (simp add: defs)
  have al1: "go_allowed ?exec rt_pre (bare_tester 1 False) example_first" by (simp add: defs)
  have facts: "rt_rafts t ! 0 = Some 0" "held (rt_pt t) (ri_ps (rt_insts t ! 0)) = ([7], [])"
    unfolding t_def by (simp_all add: defs held_def contents_def)
  have al2: "go_allowed ?exec rt_pre t example_again" unfolding t_def by (simp add: defs)
  obtain t' os2 where reboot: "go_run ?exec t example_again = Inr (t', os2)"
    unfolding t_def by (simp add: defs)
  have "\<exists>k. rt_rafts t' ! 0 = Some k \<and>
      held (rt_pt t') (ri_ps (rt_insts t' ! k)) = held (rt_pt t) (ri_ps (rt_insts t ! 0))"
    by (rule raft_restart_from_last_persisted [OF al1 boot _ facts(1) al2 [unfolded example_again_def]
        reboot [unfolded example_again_def]]) simp_all
  with boot reboot facts(2) show ?thesis by auto
qed


section \<open>Agreement on one command\<close>

text \<open>
  A round of the outer loop of \<^verbatim>\<open>one\<close>: which servers are connected and running when they are tried,
  what their \<^verbatim>\<open>Start\<close> returns (the index and whether the server leads), and the states in which the
  inner loop looks for the command. The rounds end after ten seconds or when the test is finished.
\<close>

record 'c round =
  rd_up :: "nat \<Rightarrow> bool"
  rd_start :: "nat \<Rightarrow> int \<times> bool"
  rd_polls :: "'c config list"

fun try_servers :: "nat \<Rightarrow> 'c round \<Rightarrow> nat \<Rightarrow> nat \<Rightarrow> nat \<times> int" where
  "try_servers n r 0 sts = (sts, -1)"
| "try_servers n r (Suc left) sts =
     (let sts' = (sts + 1) mod n
      in if rd_up r sts' \<and> snd (rd_start r sts') then (sts', fst (rd_start r sts'))
         else try_servers n r left sts')"

fun poll_committed :: "'c \<Rightarrow> nat \<Rightarrow> int \<Rightarrow> 'c config list \<Rightarrow> bool go" where
  "poll_committed cmd expectedServers index [] = Inr False"
| "poll_committed cmd expectedServers index (c # cs) =
     go_bind (nCommitted c index) (\<lambda>(nd, cmd1).
       if 0 < nd \<and> expectedServers \<le> nd \<and> cmd1 = Some cmd then Inr True
       else poll_committed cmd expectedServers index cs)"

fun one_rounds :: "nat \<Rightarrow> 'c \<Rightarrow> nat \<Rightarrow> bool \<Rightarrow> bool \<Rightarrow> 'c round list \<Rightarrow> nat \<Rightarrow> int go" where
  "one_rounds n cmd expectedServers retry finished [] sts =
     (if \<not> finished then Inl (LogFatal ''failed to reach agreement'') else Inr (-1))"
| "one_rounds n cmd expectedServers retry finished (r # rs) sts =
     (let (sts', index) = try_servers n r n sts
      in if index \<noteq> -1
         then go_bind (poll_committed cmd expectedServers index (rd_polls r)) (\<lambda>ok.
                if ok then Inr index
                else if \<not> retry then Inl (LogFatal ''failed to reach agreement'')
                else one_rounds n cmd expectedServers retry finished rs sts')
         else one_rounds n cmd expectedServers retry finished rs sts')"

definition one :: "nat \<Rightarrow> 'c \<Rightarrow> nat \<Rightarrow> bool \<Rightarrow> bool \<Rightarrow> 'c round list \<Rightarrow> int go" where
  "one n cmd expectedServers retry finished rounds =
     one_rounds n cmd expectedServers retry finished rounds 0"

definition accepts :: "'c round \<Rightarrow> nat \<Rightarrow> bool" where
  "accepts r s \<longleftrightarrow> rd_up r s \<and> snd (rd_start r s)"

definition committed_at :: "'c \<Rightarrow> nat \<Rightarrow> int \<Rightarrow> 'c config \<Rightarrow> bool" where
  "committed_at cmd k index c \<longleftrightarrow>
     (\<forall>lg \<in> set (cfg_logs c). lg index = None \<or> lg index = Some (Some cmd)) \<and>
     max 1 k \<le> length (filter (\<lambda>lg. lg index = Some (Some cmd)) (cfg_logs c))"

lemma try_servers_accepts:
  "try_servers n r left sts = (sts', index) \<Longrightarrow> index \<noteq> -1 \<Longrightarrow> 0 < n \<Longrightarrow>
     \<exists>s < n. accepts r s \<and> fst (rd_start r s) = index"
proof (induction n r left sts rule: try_servers.induct)
  case (2 n r left sts)
  let ?s = "(sts + 1) mod n"
  show ?case
  proof (cases "accepts r ?s")
    case True
    with 2(2) have "fst (rd_start r ?s) = index" by (auto simp: accepts_def Let_def)
    moreover have "?s < n" using 2(4) by simp
    ultimately show ?thesis using True by blast
  next
    case False
    with 2 show ?thesis by (auto simp: accepts_def Let_def split: if_splits)
  qed
qed simp

lemma try_servers_misses:
  "try_servers n r left sts = (sts', -1) \<Longrightarrow> \<forall>s. accepts r s \<longrightarrow> fst (rd_start r s) \<noteq> -1 \<Longrightarrow> k < left \<Longrightarrow>
     \<not> accepts r ((sts + 1 + k) mod n)"
proof (induction n r left sts arbitrary: k rule: try_servers.induct)
  case (2 n r left sts)
  let ?s = "(sts + 1) mod n"
  have no: "\<not> accepts r ?s" using 2(2,3) by (auto simp: Let_def accepts_def split: if_splits)
  with 2(2) have rest: "try_servers n r left ?s = (sts', -1)" by (simp add: Let_def accepts_def split: if_splits)
  show ?case
  proof (cases k)
    case 0
    with no show ?thesis by simp
  next
    case (Suc k')
    have "\<not> accepts r ((?s + 1 + k') mod n)"
      using 2(1) [OF refl _ rest 2(3), of k'] no 2(4) Suc by (simp add: accepts_def)
    moreover have "(?s + 1 + k') mod n = (sts + 1 + k) mod n"
      using Suc by (metis (no_types, lifting) add.assoc add.commute mod_add_left_eq plus_1_eq_Suc)
    ultimately show ?thesis by simp
  qed
qed simp

lemma rotation_reaches:
  assumes "s < n"
  shows "\<exists>k < n. (sts + 1 + k) mod n = (s :: nat)"
proof -
  let ?d = "(sts + 1) mod n" and ?k = "(s + (n - (sts + 1) mod n)) mod n"
  have "?d < n" using assms by simp
  have "(sts + 1 + ?k) mod n = (?d + (s + (n - ?d))) mod n" by (metis mod_add_left_eq mod_add_right_eq)
  also have "\<dots> = (s + n) mod n" using \<open>?d < n\<close> by (simp add: add.commute add.left_commute)
  also have "\<dots> = s" using assms by simp
  finally show ?thesis using assms by (intro exI [of _ ?k]) simp
qed

lemma nCommitted_loop_sound:
  "nCommitted_loop lgs index cnt cmd = Inr (nd, c) \<Longrightarrow>
     nd = cnt + length (filter (\<lambda>lg. lg index \<noteq> None) lgs) \<and>
     (\<forall>lg \<in> set lgs. lg index = None \<or> lg index = Some c) \<and> (0 < cnt \<longrightarrow> cmd = c)"
  by (induction lgs index cnt cmd rule: nCommitted_loop.induct) (auto split: option.splits if_splits)

lemma nCommitted_committed_at:
  "nCommitted c index = Inr (nd, Some cmd) \<Longrightarrow> 0 < nd \<Longrightarrow> k \<le> nd \<Longrightarrow> committed_at cmd k index c"
proof -
  assume "nCommitted c index = Inr (nd, Some cmd)" and nd: "0 < nd" "k \<le> nd"
  then have len: "nd = length (filter (\<lambda>lg. lg index \<noteq> None) (cfg_logs c))"
    and all: "\<forall>lg \<in> set (cfg_logs c). lg index = None \<or> lg index = Some (Some cmd)"
    unfolding nCommitted_def by (auto dest!: nCommitted_loop_sound)
  from all have "filter (\<lambda>lg. lg index \<noteq> None) (cfg_logs c) = filter (\<lambda>lg. lg index = Some (Some cmd)) (cfg_logs c)"
    by (intro filter_cong) auto
  with len all nd show ?thesis by (simp add: committed_at_def Suc_le_eq)
qed

lemma poll_committed_True:
  "poll_committed cmd k index cs = Inr True \<Longrightarrow> \<exists>c \<in> set cs. committed_at cmd k index c"
proof (induction cs)
  case (Cons c cs)
  from Cons.prems obtain nd cmd1 where n: "nCommitted c index = Inr (nd, cmd1)" by (auto simp: go_bind_Inr)
  show ?case
  proof (cases "0 < nd \<and> k \<le> nd \<and> cmd1 = Some cmd")
    case True
    with n nCommitted_committed_at [of c index nd cmd k] show ?thesis by auto
  next
    case False
    with Cons n show ?thesis by auto
  qed
qed simp

lemma one_rounds_committed:
  "one_rounds n cmd k retry finished rounds sts = Inr index \<Longrightarrow> index \<noteq> -1 \<Longrightarrow>
     \<exists>r \<in> set rounds. (\<exists>s < n. accepts r s \<and> fst (rd_start r s) = index) \<and>
       (\<exists>c \<in> set (rd_polls r). committed_at cmd k index c)"
proof (induction rounds arbitrary: sts)
  case (Cons r rs)
  obtain sts' i where try_r: "try_servers n r n sts = (sts', i)" by fastforce
  show ?case
  proof (cases "i \<noteq> -1 \<and> poll_committed cmd k i (rd_polls r) = Inr True")
    case True
    with Cons.prems try_r have "i = index" by simp
    moreover have "0 < n" using True try_r by (cases n) auto
    ultimately show ?thesis using True try_servers_accepts [OF try_r] poll_committed_True [of cmd k i] by auto
  next
    case False
    with Cons.prems try_r have "one_rounds n cmd k retry finished rs sts' = Inr index"
      by (auto simp: go_bind_Inr split: if_splits)
    with Cons show ?thesis by auto
  qed
qed (simp split: if_splits)


text \<open>
  C24: an index that \<^verbatim>\<open>one\<close> returns was given by a connected server that claimed to lead, and in one of
  the states that \<^verbatim>\<open>one\<close> looked at afterwards at least the expected number of servers, and at least one,
  had committed the submitted command at that index, and none another command.
\<close>

theorem one_returns_committed:
  assumes "one n cmd k retry finished rounds = Inr index" and "index \<noteq> -1"
  shows "\<exists>r \<in> set rounds. (\<exists>s < n. rd_up r s \<and> rd_start r s = (index, True)) \<and>
     (\<exists>c \<in> set (rd_polls r).
        (\<forall>lg \<in> set (cfg_logs c). lg index = None \<or> lg index = Some (Some cmd)) \<and>
        max 1 k \<le> length (filter (\<lambda>lg. lg index = Some (Some cmd)) (cfg_logs c)))"
proof -
  from one_rounds_committed [OF assms(1) [unfolded one_def] assms(2)] obtain r s c
    where "r \<in> set rounds" "s < n" "accepts r s" "fst (rd_start r s) = index" "c \<in> set (rd_polls r)"
      "committed_at cmd k index c" by blast
  moreover from this have "rd_start r s = (index, True)" by (metis accepts_def prod.collapse)
  ultimately show ?thesis unfolding accepts_def committed_at_def by blast
qed

definition example_round :: "nat round" where
  "example_round = \<lparr>rd_up = (\<lambda>_. True), rd_start = (\<lambda>s. (1, s = 1)),
     rd_polls = [example_config, example_config\<lparr>cfg_logs := [[1 \<mapsto> Some 7], [1 \<mapsto> Some 7]]\<rparr>]\<rparr>"

lemma one_returns_committed_witness:
  "one 2 7 2 False False [example_round] = Inr 1 \<and>
     list_ex (\<lambda>c. 2 \<le> length (filter (\<lambda>lg. lg 1 = Some (Some 7)) (cfg_logs c))) (rd_polls example_round)"
proof -
  have run: "one 2 7 2 False False [example_round] = Inr 1"
    by (simp add: one_def example_round_def numeral_2_eq_2 nCommitted_def example_config_def Let_def)
  from one_returns_committed [OF this] obtain c where "c \<in> set (rd_polls example_round)"
    and "max 1 2 \<le> length (filter (\<lambda>lg. lg 1 = Some (Some 7)) (cfg_logs c))" by auto
  then have "list_ex (\<lambda>c. 2 \<le> length (filter (\<lambda>lg. lg 1 = Some (Some 7)) (cfg_logs c))) (rd_polls example_round)"
    unfolding list_ex_iff by (metis max.bounded_iff)
  with run show ?thesis by blast
qed

text \<open>A round that works: every server that accepts gives an index at which the command then is committed.\<close>

definition round_agrees :: "nat \<Rightarrow> 'c \<Rightarrow> nat \<Rightarrow> 'c round \<Rightarrow> bool" where
  "round_agrees n cmd k r \<longleftrightarrow> (\<exists>s < n. accepts r s) \<and>
     (\<forall>s. accepts r s \<longrightarrow> fst (rd_start r s) \<noteq> -1 \<and> (\<exists>c \<in> set (rd_polls r). committed_at cmd k (fst (rd_start r s)) c))"

text \<open>No state that is looked at shows two commands at one index.\<close>

definition polls_agree :: "'c round \<Rightarrow> bool" where
  "polls_agree r \<longleftrightarrow> (\<forall>c \<in> set (rd_polls r). \<forall>index. \<exists>x. nCommitted c index = Inr x)"

lemma committed_at_nCommitted:
  assumes "committed_at cmd k index c"
  shows "\<exists>nd. nCommitted c index = Inr (nd, Some cmd) \<and> 0 < nd \<and> k \<le> nd"
proof -
  let ?lgs = "cfg_logs c"
  have all: "\<forall>lg \<in> set ?lgs. \<forall>old. lg index = Some old \<longrightarrow> old = Some cmd"
    and len: "max 1 k \<le> length (filter (\<lambda>lg. lg index = Some (Some cmd)) ?lgs)"
    using assms by (auto simp: committed_at_def)
  from all have "filter (\<lambda>lg. lg index \<noteq> None) ?lgs = filter (\<lambda>lg. lg index = Some (Some cmd)) ?lgs"
    by (intro filter_cong) auto
  moreover have "\<exists>lg \<in> set ?lgs. lg index \<noteq> None"
  proof -
    have "filter (\<lambda>lg. lg index = Some (Some cmd)) ?lgs \<noteq> []" using len by auto
    then show ?thesis by (auto simp: filter_empty_conv)
  qed
  ultimately show ?thesis
    using nCommitted_loop_agree [OF all, of 0 None] len by (auto simp: nCommitted_def)
qed

lemma poll_committed_agrees:
  assumes "\<forall>c \<in> set cs. \<exists>x. nCommitted c index = Inr x"
  shows "\<exists>b. poll_committed cmd k index cs = Inr b \<and> ((\<exists>c \<in> set cs. committed_at cmd k index c) \<longrightarrow> b)"
  using assms
proof (induction cs)
  case (Cons c cs)
  then obtain nd cmd1 where n: "nCommitted c index = Inr (nd, cmd1)" by auto
  show ?case
  proof (cases "0 < nd \<and> k \<le> nd \<and> cmd1 = Some cmd")
    case True
    with n show ?thesis by (intro exI [of _ True]) simp
  next
    case False
    with n committed_at_nCommitted [of cmd k index c] have "\<not> committed_at cmd k index c" by auto
    with Cons n False show ?thesis by auto
  qed
qed auto

lemma one_rounds_agrees:
  "\<forall>r \<in> set rounds. polls_agree r \<Longrightarrow> \<exists>r \<in> set rounds. round_agrees n cmd k r \<Longrightarrow>
     \<exists>index. one_rounds n cmd k True finished rounds sts = Inr index \<and> index \<noteq> -1"
proof (induction rounds arbitrary: sts)
  case (Cons r rs)
  obtain sts' i where try_r: "try_servers n r n sts = (sts', i)" by fastforce
  obtain b where poll: "poll_committed cmd k i (rd_polls r) = Inr b"
    and good: "(\<exists>c \<in> set (rd_polls r). committed_at cmd k i c) \<longrightarrow> b"
    using poll_committed_agrees [of "rd_polls r" i cmd k] Cons.prems(1) by (auto simp: polls_agree_def)
  show ?case
  proof (cases "i \<noteq> -1 \<and> b")
    case True
    with try_r poll show ?thesis by simp
  next
    case False
    have "\<not> round_agrees n cmd k r"
    proof
      assume agrees: "round_agrees n cmd k r"
      then obtain s where s: "s < n" "accepts r s" by (auto simp: round_agrees_def)
      obtain m where "m < n" "(sts + 1 + m) mod n = s" using rotation_reaches [OF s(1)] by blast
      then have "i \<noteq> -1"
        using try_servers_misses [of n r n sts sts' m] try_r agrees s(2) by (auto simp: round_agrees_def)
      moreover from this obtain s' where "accepts r s'" "fst (rd_start r s') = i"
        using try_servers_accepts [OF try_r] s(1) by auto
      ultimately show False using False agrees good by (auto simp: round_agrees_def)
    qed
    with Cons.prems Cons.IH [of sts'] obtain index
      where "one_rounds n cmd k True finished rs sts' = Inr index" "index \<noteq> -1" by auto
    with False try_r poll show ?thesis by auto
  qed
qed simp

text \<open>
  With retries, \<^verbatim>\<open>one\<close> reaches agreement as soon as there is one round, among those that start in
  time, in which a connected server claims to lead and the command is then committed at the index
  given; it does not matter which server leads, as every round tries them all, nor what failed in the
  rounds before.
\<close>

theorem one_reaches_agreement:
  assumes "\<forall>r \<in> set rounds. polls_agree r" and "\<exists>r \<in> set rounds. round_agrees n cmd k r"
  shows "\<exists>index. one n cmd k True finished rounds = Inr index \<and> index \<noteq> -1"
  using one_rounds_agrees [OF assms] by (simp add: one_def)

lemma one_reaches_agreement_witness:
  "\<exists>index. one 2 7 2 True False [example_round\<lparr>rd_up := \<lambda>_. False\<rparr>, example_round] = Inr index \<and> index \<noteq> -1"
proof (rule one_reaches_agreement)
  show "\<forall>r \<in> set [example_round\<lparr>rd_up := \<lambda>_. False\<rparr>, example_round]. polls_agree r"
    by (auto simp: polls_agree_def example_round_def nCommitted_def example_config_def numeral_2_eq_2)
  have "round_agrees 2 7 2 example_round"
    by (auto simp: round_agrees_def accepts_def example_round_def committed_at_def)
  then show "\<exists>r \<in> set [example_round\<lparr>rd_up := \<lambda>_. False\<rparr>, example_round]. round_agrees 2 7 2 r" by simp
qed

end
