(* ===== verification/RaftStats.thy ===== *)
theory RaftStats
  imports RaftTester
begin

text \<open>
  The statistics of the Raft tester, \<^verbatim>\<open>src/raft/config.go\<close>: \<^verbatim>\<open>begin\<close> notes the counters, \<^verbatim>\<open>end\<close> prints by how
  much they have grown. \<open>failed\<close> stands for \<^verbatim>\<open>cfg.t.Failed()\<close>; the time that is printed is left out.

  Shown here: what \<^verbatim>\<open>end\<close> prints is what happened, as long as the 32-bit counter of the network does not
  overflow.
\<close>

section \<open>Counters\<close>

definition rpcCount :: "('a, 's, 'r) Server list \<Rightarrow> 'c config \<Rightarrow> nat \<Rightarrow> int go" where
  "rpcCount heap cfg server = Network_GetCount heap (NInt (int server)) (cfg_net cfg)"

definition rpcTotal :: "'c config \<Rightarrow> int" where
  "rpcTotal cfg = GetTotalCount (cfg_net cfg)"

definition setunreliable :: "bool \<Rightarrow> 'c config \<Rightarrow> 'c config" where
  "setunreliable unrel cfg = cfg\<lparr>cfg_net := Reliable (\<not> unrel) (cfg_net cfg)\<rparr>"

definition bytesTotal :: "'c config \<Rightarrow> 64 word" where
  "bytesTotal cfg = GetTotalBytes (cfg_net cfg)"

definition setlongreordering :: "bool \<Rightarrow> 'c config \<Rightarrow> 'c config" where
  "setlongreordering longrel cfg = cfg\<lparr>cfg_net := LongReordering longrel (cfg_net cfg)\<rparr>"

record test_stats =
  rpcs0 :: int
  bytes0 :: "64 word"
  cmds0 :: int
  maxIndex0 :: int

definition begin_test :: "'c config \<Rightarrow> test_stats" where
  "begin_test cfg = \<lparr>rpcs0 = rpcTotal cfg, bytes0 = bytesTotal cfg, cmds0 = 0, maxIndex0 = cfg_maxIndex cfg\<rparr>"

record report =
  rep_npeers :: nat
  rep_nrpc :: int
  rep_nbytes :: "64 word"
  rep_ncmds :: int

definition end_test :: "bool \<Rightarrow> int \<Rightarrow> test_stats \<Rightarrow> 'c config \<Rightarrow> report option go" where
  "end_test failed elapsed st cfg =
     go_bind (checkTimeout failed elapsed) (\<lambda>_. Inr
     (if failed then None
      else Some \<lparr>rep_npeers = cfg_n cfg, rep_nrpc = rpcTotal cfg - rpcs0 st,
                 rep_nbytes = bytesTotal cfg - bytes0 st, rep_ncmds = cfg_maxIndex cfg - maxIndex0 st\<rparr>))"

definition raft_LogSize :: "'c rtester \<Rightarrow> nat go" where
  "raft_LogSize t = max_size (rt_pt t) (take (cfg_n (rt_cfg t)) (rt_saved t)) 0"

section \<open>A test\<close>

text \<open>
  While a test runs, the network works on requests and the readers take messages from the apply channels, in
  any order. The network of the configuration is the one of \<open>lab\<close>.
\<close>

datatype 'c test_act = TNet lab_act | TApply nat "'c ApplyMsg"

datatype 'c test_out = ONet lab_out | OApply "'c ApplyMsg"

fun test_exec ::
    "(string \<Rightarrow> gbytes \<Rightarrow> 'a) \<Rightarrow> ('r \<Rightarrow> gbytes) \<Rightarrow> ('a, 's, 'r) lab \<times> 'c config \<Rightarrow> 'c test_act \<Rightarrow>
     ((('a, 's, 'r) lab \<times> 'c config) \<times> 'c test_out) go" where
  "test_exec decode encode (L, cfg) (TNet act) =
     go_bind (lab_exec decode encode L act) (\<lambda>(L', out). Inr ((L', cfg\<lparr>cfg_net := l_net L'\<rparr>), ONet out))"
| "test_exec decode encode (L, cfg) (TApply i m) =
     go_bind (applier_turn cfg (i, m)) (\<lambda>(cfg', _). Inr ((L, cfg'), OApply m))"


fun nets :: "'c test_out list \<Rightarrow> lab_out list" where
  "nets [] = []"
| "nets (ONet out # os) = out # nets os"
| "nets (OApply m # os) = nets os"

fun applied :: "'c test_out list \<Rightarrow> int list" where
  "applied [] = []"
| "applied (ONet out # os) = applied os"
| "applied (OApply m # os) = (if CommandValid m then CommandIndex m # applied os else applied os)"

lemma nets_append [simp]: "nets (os @ os') = nets os @ nets os'"
  by (induction os rule: nets.induct) auto

lemma applied_append [simp]: "applied (os @ os') = applied os @ applied os'"
  by (induction os rule: applied.induct) auto

definition report_ok ::
    "'c config \<Rightarrow> 32 word \<Rightarrow> 64 word \<Rightarrow> ('a, 's, 'r) lab \<times> 'c config \<Rightarrow> 'c test_out list \<Rightarrow> bool" where
  "report_ok cfg0 c b = (\<lambda>(L, cfg) os.
     cfg_net cfg = l_net L \<and> stats_ok c b L (nets os) \<and> cfg_n cfg = cfg_n cfg0 \<and>
     cfg_maxIndex cfg = Max (insert (cfg_maxIndex cfg0) (set (applied os))))"

lemma applier_turn_fields:
  assumes "applier_turn cfg (i, m) = Inr (cfg', u)"
  shows "cfg_net cfg' = cfg_net cfg" and "cfg_n cfg' = cfg_n cfg"
    and "cfg_maxIndex cfg' = (if CommandValid m then max (cfg_maxIndex cfg) (CommandIndex m) else cfg_maxIndex cfg)"
proof -
  have "cfg_net cfg' = cfg_net cfg \<and> cfg_n cfg' = cfg_n cfg \<and>
      cfg_maxIndex cfg' = (if CommandValid m then max (cfg_maxIndex cfg) (CommandIndex m) else cfg_maxIndex cfg)"
  proof (cases "CommandValid m")
    case True
    with assms have "i < length (cfg_logs cfg)"
      by (auto simp: applier_turn_def checkLogs_def go_bind_Inr go_nth_at)
    with True applier_turn_iff [of i cfg m cfg'] assms show ?thesis by auto
  qed (use assms in \<open>simp add: applier_turn_def\<close>)
  then show "cfg_net cfg' = cfg_net cfg" and "cfg_n cfg' = cfg_n cfg"
    and "cfg_maxIndex cfg' = (if CommandValid m then max (cfg_maxIndex cfg) (CommandIndex m) else cfg_maxIndex cfg)"
    by blast+
qed

lemma test_exec_report:
  assumes "report_ok cfg0 c b s h" and "test_exec decode encode s act = Inr (s', out)"
  shows "report_ok cfg0 c b s' (h @ [out])"
proof -
  obtain L cfg where s: "s = (L, cfg)" by fastforce
  show ?thesis
  proof (cases act)
    case (TNet a)
    with assms(2) s obtain L' o' where "lab_exec decode encode L a = Inr (L', o')"
      and "s' = (L', cfg\<lparr>cfg_net := l_net L'\<rparr>)" "out = ONet o'" by (auto simp: go_bind_Inr)
    with assms(1) s stats_ok_exec [of c b L "nets h" decode encode a L' o'] show ?thesis
      by (auto simp: report_ok_def)
  next
    case (TApply i m)
    with assms(2) s obtain cfg' u where turn: "applier_turn cfg (i, m) = Inr (cfg', u)"
      and "s' = (L, cfg')" "out = OApply m" by (auto simp: go_bind_Inr)
    with assms(1) s applier_turn_fields [OF turn] show ?thesis
      by (auto simp: report_ok_def max.commute insert_commute)
  qed
qed

interpretation testh: go_history "test_exec decode encode" "report_ok cfg0 c b" "\<lambda>_ _. True" for decode encode cfg0 c b
  by unfold_locales (rule test_exec_report)

section \<open>The counter of 32 bits\<close>

lemma sint_grown: "sint (c + of_nat k :: 32 word) = signed_take_bit 31 (sint c + int k)"
proof -
  have "c + of_nat k = word_of_int (sint c + int k)" by simp
  then show ?thesis by (simp only: signed_of_int) simp
qed

lemma grown_mod:
  fixes c :: "32 word"
  shows "(sint (c + of_nat k) - sint c) mod 2 ^ 32 = int k mod 2 ^ 32"
proof -
  have "sint (c + of_nat k) mod 2 ^ 32 = (sint c + int k) mod 2 ^ 32"
    unfolding sint_grown take_bit_eq_mod [symmetric] by (simp add: take_bit_signed_take_bit)
  then have "(sint (c + of_nat k) - sint c) mod 2 ^ 32 = (sint c + int k - sint c) mod 2 ^ 32"
    by (rule mod_diff_cong) simp
  then show ?thesis by simp
qed

lemma grown_exact:
  fixes c :: "32 word"
  assumes "sint c + int k < 2 ^ 31"
  shows "sint (c + of_nat k) - sint c = int k"
proof -
  have "- (2 ^ 31) \<le> sint c" using sint_ge [of c] by simp
  with assms have "signed_take_bit 31 (sint c + int k) = sint c + int k"
    by (intro signed_take_bit_int_eq_self) simp_all
  then show ?thesis by (simp add: sint_grown)
qed

lemma grown_wrapped:
  fixes c :: "32 word"
  assumes "2 ^ 31 \<le> sint c + int k" and "sint c + int k < 2 ^ 31 + 2 ^ 32"
  shows "sint (c + of_nat k) - sint c = int k - 2 ^ 32"
proof -
  have "signed_take_bit 31 (sint c + int k) = signed_take_bit 31 (sint c + int k - 2 ^ 32)"
    by (rule signed_take_bit_eq_iff_take_bit_eq [THEN iffD2]) (simp add: take_bit_eq_mod)
  also have "\<dots> = sint c + int k - 2 ^ 32"
    using assms by (intro signed_take_bit_int_eq_self) simp_all
  finally show ?thesis by (simp add: sint_grown)
qed

text \<open>
  C32: The report of a test. Between \<^verbatim>\<open>begin\<close> and \<^verbatim>\<open>end\<close> the network may take and process requests and the readers take
  messages, in any order. A test that did not fail and ends within the limit of two minutes reports the number of servers, the bytes of all arguments taken
  and replies sent modulo \<open>2 ^ 64\<close>, by how much the highest index that a reader saw has risen, and a number of requests
  that agrees with the requests the network took modulo \<open>2 ^ 32\<close>. It is that number when the counter of the network
  stays below \<open>2 ^ 31\<close>, and too small by \<open>2 ^ 32\<close> when the counter overflows during the test.
\<close>

theorem test_report_exact:
  assumes "cfg_net cfg = l_net L" and "go_run (test_exec decode encode) (L, cfg) acts = Inr ((L', cfg'), outs)"
    and "elapsed \<le> 120 * 10 ^ 9"
  shows "\<exists>rep. end_test False elapsed (begin_test cfg) cfg' = Inr (Some rep) \<and> rep_npeers rep = cfg_n cfg \<and>
     rep_nbytes rep = word_of_nat (traffic (nets outs)) \<and>
     rep_ncmds rep = Max (insert (cfg_maxIndex cfg) (set (applied outs))) - cfg_maxIndex cfg \<and>
     rep_nrpc rep mod 2 ^ 32 = int (accepted_count (nets outs)) mod 2 ^ 32 \<and>
     (rpcTotal cfg + int (accepted_count (nets outs)) < 2 ^ 31 \<longrightarrow> rep_nrpc rep = int (accepted_count (nets outs))) \<and>
     (2 ^ 31 \<le> rpcTotal cfg + int (accepted_count (nets outs)) \<and> rpcTotal cfg + int (accepted_count (nets outs)) < 2 ^ 31 + 2 ^ 32 \<longrightarrow>
        rep_nrpc rep = int (accepted_count (nets outs)) - 2 ^ 32)"
proof -
  define c b where "c = net_count (l_net L)" and "b = net_bytes (l_net L)"
  have "report_ok cfg c b (L, cfg) []" using assms(1) by (simp add: report_ok_def stats_ok_def c_def b_def)
  from testh.run_hist [OF this _ assms(2)] have ok: "report_ok cfg c b (L', cfg') outs" by simp
  have total: "rpcTotal cfg = sint c" "rpcTotal cfg' = sint (c + of_nat (accepted_count (nets outs)))"
    using ok assms(1) by (simp_all add: report_ok_def stats_ok_def rpcTotal_def GetTotalCount_def c_def)
  have "bytesTotal cfg' - bytesTotal cfg = word_of_nat (traffic (nets outs))"
    using ok assms(1) by (simp add: report_ok_def stats_ok_def bytesTotal_def GetTotalBytes_def b_def)
  with ok show ?thesis
    using grown_mod [of c "accepted_count (nets outs)"] grown_exact [of c "accepted_count (nets outs)"]
      grown_wrapped [of c "accepted_count (nets outs)"]
    using assms(3) unfolding end_test_def begin_test_def total by (simp add: report_ok_def checkTimeout_def)
qed

definition example_test :: "nat test_act list" where
  "example_test = [TNet (Accept example_req), TApply 0 (example_apply 1 7)]"

lemma test_report_exact_witness:
  "\<exists>L' cfg' outs rep. go_run (test_exec (\<lambda>_. length) (\<lambda>r. replicate r 0)) (example_lab, example_config\<lparr>cfg_net := l_net example_lab\<rparr>) example_test =
       Inr ((L', cfg'), outs) \<and>
     end_test False 9 (begin_test (example_config\<lparr>cfg_net := l_net example_lab\<rparr>)) cfg' = Inr (Some rep) \<and>
     rep_nrpc rep = 1 \<and> rep_ncmds rep = 1"
proof -
  let ?cfg = "example_config\<lparr>cfg_net := l_net example_lab\<rparr>"
  obtain L' cfg' outs where run: "go_run (test_exec (\<lambda>_. length) (\<lambda>r. replicate r 0)) (example_lab, ?cfg) example_test = Inr ((L', cfg'), outs)"
    and outs: "accepted_count (nets outs) = 1" "applied outs = [1]"
    by (simp add: example_test_def lab_eval example_lab_defs example_config_def example_apply_def applier_turn_def checkLogs_def go_nth_def
        Let_def numeral_2_eq_2)
  have "rpcTotal ?cfg = 0" "cfg_maxIndex ?cfg = 0"
    by (simp_all add: rpcTotal_def GetTotalCount_def example_lab_defs example_config_def)
  with test_report_exact [OF _ run, of 9] outs run show ?thesis by auto
qed

end
