(* ===== verification/ShardCtrler.thy ===== *)
theory ShardCtrler
  imports RaftBase
begin

text \<open>
  The shard controller's server, \<^verbatim>\<open>src/shardctrler/server.go\<close>: its data (\<^verbatim>\<open>common.go\<close>), the loop that
  applies what Raft commits, and \<^verbatim>\<open>sendToRaftAndWait\<close>, by which an RPC handler submits an operation
  and waits for it. The functions whose bodies the sources leave out are parameters: the four
  \<^verbatim>\<open>handle\<close> functions, from the list of configurations and the operation to both updated, and
  \<^verbatim>\<open>isOpMatched\<close>. \<^verbatim>\<open>raft.Start\<close> is the environment: its result comes with the request.

  The loop and the waiting requests run concurrently; a schedule is a list of their sections. A
  channel of the map \<^verbatim>\<open>indexChan\<close> is its buffer, of capacity one. A send into a full buffer blocks
  the loop with the mutex held, which the model records.

  Shown here: every operation is applied at most once per client and time stamp, and the state is
  the fold of the handlers over the operations that are newer than all before of their client;
  the loop never blocks when Raft delivers each index once; a request gets the operation applied
  at its index; an operation that is skipped comes back with its reply unfilled; the loop does not
  end on \<^verbatim>\<open>Kill\<close>.
\<close>

section \<open>Data\<close>

definition NShards :: nat where
  "NShards = 10"

record Config =
  Num :: int
  Shards :: "int list"
  Groups :: "int \<rightharpoonup> string list"

record Op =
  op_Command :: string
  ArgsJoin :: "int \<rightharpoonup> string list"
  ArgsLeave :: "int list"
  ArgsMoveShard :: int
  ArgsMoveGid :: int
  ArgsQuery :: int
  ReplyQuery :: Config
  op_ClientId :: int
  op_TimeStamp :: int

type_synonym handler = "Config list \<Rightarrow> Op \<Rightarrow> Config list \<times> Op"

record hidden_handlers =
  handleJoin :: handler
  handleLeave :: handler
  handleMove :: handler
  handleQuery :: handler

record ShardCtrler =
  sc_me :: int
  sc_dead :: "32 word"
  sc_configs :: "Config list"
  sc_cache :: "int \<rightharpoonup> int"
  indexChan :: "int \<rightharpoonup> Op list"

definition initial_config :: Config where
  "initial_config = \<lparr>Num = 0, Shards = replicate NShards 0, Groups = Map.empty\<rparr>"

definition StartServer :: "int \<Rightarrow> ShardCtrler" where
  "StartServer me =
     \<lparr>sc_me = me, sc_dead = 0, sc_configs = [initial_config], sc_cache = Map.empty, indexChan = Map.empty\<rparr>"

text \<open>\<^verbatim>\<open>Kill\<close> kills the Raft instance and leaves the controller as it is.\<close>

definition Kill :: "ShardCtrler \<times> 'c Raft \<Rightarrow> ShardCtrler \<times> 'c Raft" where
  "Kill = (\<lambda>(sc, rf). (sc, Raft_Kill rf))"

definition killed :: "ShardCtrler \<Rightarrow> bool" where
  "killed sc = (sc_dead sc = 1)"

section \<open>The apply loop\<close>

definition run_handler :: "hidden_handlers \<Rightarrow> handler" where
  "run_handler hs cs op =
     (if op_Command op = ''Join'' then handleJoin hs cs op
      else if op_Command op = ''Leave'' then handleLeave hs cs op
      else if op_Command op = ''Move'' then handleMove hs cs op
      else if op_Command op = ''Query'' then handleQuery hs cs op
      else (cs, op))"

text \<open>Duplicate detection and execution: the operation comes back as the handler left it.\<close>

definition apply_op :: "hidden_handlers \<Rightarrow> ShardCtrler \<Rightarrow> Op \<Rightarrow> ShardCtrler \<times> Op" where
  "apply_op hs sc op =
     (let lastTime = sc_cache sc (op_ClientId op)
      in if lastTime = None \<or> the lastTime < op_TimeStamp op
         then let sc1 = sc\<lparr>sc_cache := (sc_cache sc)(op_ClientId op \<mapsto> op_TimeStamp op)\<rparr>;
                  (cs, op1) = run_handler hs (sc_configs sc1) op
              in (sc1\<lparr>sc_configs := cs\<rparr>, op1)
         else (sc, op))"

definition chan_of :: "ShardCtrler \<Rightarrow> int \<Rightarrow> Op list" where
  "chan_of sc index = (case indexChan sc index of None \<Rightarrow> [] | Some b \<Rightarrow> b)"

definition make_chan :: "int \<Rightarrow> ShardCtrler \<Rightarrow> ShardCtrler" where
  "make_chan index sc = sc\<lparr>indexChan := (indexChan sc)(index \<mapsto> chan_of sc index)\<rparr>"

text \<open>A send into a channel of capacity one; None when it blocks.\<close>

definition chan_send :: "int \<Rightarrow> Op \<Rightarrow> ShardCtrler \<Rightarrow> ShardCtrler option" where
  "chan_send index op sc =
     (if chan_of sc index = [] then Some (sc\<lparr>indexChan := (indexChan sc)(index \<mapsto> [op])\<rparr>) else None)"

datatype loop_result =
    Ignored
  | Logged
  | Delivered int Op
  | Stuck int Op
  | Exited

text \<open>One turn of the loop of \<^verbatim>\<open>runShardCtrler\<close> for one message.\<close>

definition runShardCtrler_turn ::
    "hidden_handlers \<Rightarrow> ShardCtrler \<Rightarrow> Op ApplyMsg \<Rightarrow> ShardCtrler \<times> loop_result" where
  "runShardCtrler_turn hs sc msg =
     (if killed sc then (sc, Exited)
      else case Command msg of
        None \<Rightarrow> (sc, Ignored)
      | Some op \<Rightarrow>
          if CommandValid msg
          then let index = CommandIndex msg;
                   (sc1, op1) = apply_op hs sc op;
                   sc2 = make_chan index sc1
               in (case chan_send index op1 sc2 of
                     None \<Rightarrow> (sc2, Stuck index op1)
                   | Some sc3 \<Rightarrow> (sc3, Delivered index op1))
          else (sc, Logged))"

section \<open>Requests\<close>

text \<open>
  A request that \<^verbatim>\<open>Start\<close> accepted waits on the channel of its index; one that it refused returns at
  once. \<open>started\<close> is what \<^verbatim>\<open>Start\<close> returned: None when this server is not the leader.
\<close>

datatype waiter =
    Waiting int Op
  | Returned bool Op

definition sendToRaftAndWait_begin :: "int option \<Rightarrow> Op \<Rightarrow> ShardCtrler \<Rightarrow> ShardCtrler \<times> waiter" where
  "sendToRaftAndWait_begin started op sc =
     (case started of
        None \<Rightarrow> (sc, Returned False op)
      | Some index \<Rightarrow> (make_chan index sc, Waiting index op))"

definition sendToRaftAndWait_receive ::
    "(Op \<Rightarrow> Op \<Rightarrow> bool) \<Rightarrow> int \<Rightarrow> Op \<Rightarrow> ShardCtrler \<Rightarrow> (ShardCtrler \<times> waiter) option" where
  "sendToRaftAndWait_receive isOpMatched index op sc =
     (case chan_of sc index of
        [] \<Rightarrow> None
      | from_raft_op # rest \<Rightarrow>
          Some (sc\<lparr>indexChan := (indexChan sc)(index \<mapsto> rest)\<rparr>,
                Returned (isOpMatched op from_raft_op) from_raft_op))"

definition sendToRaftAndWait_timeout :: "Op \<Rightarrow> waiter" where
  "sendToRaftAndWait_timeout op = Returned False op"

section \<open>Schedules\<close>

text \<open>
  \<open>ct_stuck\<close> is the send the loop is blocked in, if any. While it is blocked the loop holds the mutex:
  it takes no message, and no new request gets past the lock. A request that is already waiting
  needs no lock to receive; when it takes the operation in the full buffer the blocked send
  completes.
\<close>

record ctl =
  ct_sc :: ShardCtrler
  ct_waiters :: "waiter list"
  ct_stuck :: "(int \<times> Op) option"

datatype ctl_act =
    Apply "Op ApplyMsg"
  | Request "int option" Op
  | Recv nat
  | Timeout nat

datatype ctl_out =
    CSilent
  | CTurn "Op ApplyMsg" loop_result
  | CReceived nat int bool Op
  | CTimedOut nat Op

definition complete_send :: "int \<Rightarrow> ctl \<Rightarrow> ctl" where
  "complete_send index c =
     (case ct_stuck c of
        Some (i, op) \<Rightarrow>
          if i = index
          then c\<lparr>ct_sc := (ct_sc c)\<lparr>indexChan := (indexChan (ct_sc c))(i \<mapsto> chan_of (ct_sc c) i @ [op])\<rparr>,
                 ct_stuck := None\<rparr>
          else c
      | None \<Rightarrow> c)"

definition ctl_apply :: "hidden_handlers \<Rightarrow> ctl \<Rightarrow> Op ApplyMsg \<Rightarrow> ctl \<times> ctl_out" where
  "ctl_apply hs c msg =
     (if ct_stuck c \<noteq> None then (c, CSilent)
      else let (sc, res) = runShardCtrler_turn hs (ct_sc c) msg
           in (c\<lparr>ct_sc := sc, ct_stuck := (case res of Stuck i op \<Rightarrow> Some (i, op) | _ \<Rightarrow> None)\<rparr>, CTurn msg res))"

definition ctl_request :: "ctl \<Rightarrow> int option \<Rightarrow> Op \<Rightarrow> ctl \<times> ctl_out" where
  "ctl_request c started op =
     (if ct_stuck c \<noteq> None \<and> started \<noteq> None then (c, CSilent)
      else let (sc, w) = sendToRaftAndWait_begin started op (ct_sc c)
           in (c\<lparr>ct_sc := sc, ct_waiters := ct_waiters c @ [w]\<rparr>, CSilent))"

definition ctl_receive :: "(Op \<Rightarrow> Op \<Rightarrow> bool) \<Rightarrow> ctl \<Rightarrow> nat \<Rightarrow> int \<Rightarrow> Op \<Rightarrow> ctl \<times> ctl_out" where
  "ctl_receive isOpMatched c t index op =
     (case sendToRaftAndWait_receive isOpMatched index op (ct_sc c) of
        Some (sc, Returned b r) \<Rightarrow>
          (complete_send index (c\<lparr>ct_sc := sc, ct_waiters := (ct_waiters c)[t := Returned b r]\<rparr>),
           CReceived t index b r)
      | _ \<Rightarrow> (c, CSilent))"

definition ctl_exec ::
    "hidden_handlers \<Rightarrow> (Op \<Rightarrow> Op \<Rightarrow> bool) \<Rightarrow> ctl \<Rightarrow> ctl_act \<Rightarrow> (ctl \<times> ctl_out) go" where
  "ctl_exec hs isOpMatched c act =
     Inr (case act of
        Apply msg \<Rightarrow> ctl_apply hs c msg
      | Request started op \<Rightarrow> ctl_request c started op
      | Recv t \<Rightarrow>
          if t < length (ct_waiters c)
          then (case ct_waiters c ! t of
                  Waiting index op \<Rightarrow> ctl_receive isOpMatched c t index op
                | Returned _ _ \<Rightarrow> (c, CSilent))
          else (c, CSilent)
      | Timeout t \<Rightarrow>
          if t < length (ct_waiters c)
          then (case ct_waiters c ! t of
                  Waiting index op \<Rightarrow>
                    (c\<lparr>ct_waiters := (ct_waiters c)[t := sendToRaftAndWait_timeout op]\<rparr>, CTimedOut t op)
                | Returned _ _ \<Rightarrow> (c, CSilent))
          else (c, CSilent))"

definition ctl_init :: "int \<Rightarrow> ctl" where
  "ctl_init me = \<lparr>ct_sc = StartServer me, ct_waiters = [], ct_stuck = None\<rparr>"

section \<open>Duplicate detection\<close>

text \<open>
  The specification of what is applied: the operations that are newer than every earlier operation
  of their client.
\<close>

definition newer_than :: "Op list \<Rightarrow> Op \<Rightarrow> bool" where
  "newer_than ops op \<longleftrightarrow> (\<forall>o1 \<in> set ops. op_ClientId o1 = op_ClientId op \<longrightarrow> op_TimeStamp o1 < op_TimeStamp op)"

definition fresh_ops :: "Op list \<Rightarrow> Op list" where
  "fresh_ops ops = map (\<lambda>k. ops ! k) (filter (\<lambda>k. newer_than (take k ops) (ops ! k)) [0..<length ops])"

definition op_key :: "Op \<Rightarrow> int \<times> int" where
  "op_key op = (op_ClientId op, op_TimeStamp op)"

lemma fresh_ops_Nil [simp]: "fresh_ops [] = []"
  by (simp add: fresh_ops_def)

lemma fresh_ops_snoc:
  "fresh_ops (ops @ [op]) = fresh_ops ops @ (if newer_than ops op then [op] else [])"
proof -
  have "filter (\<lambda>k. newer_than (take k (ops @ [op])) ((ops @ [op]) ! k)) [0..<length ops] =
      filter (\<lambda>k. newer_than (take k ops) (ops ! k)) [0..<length ops]"
    by (intro filter_cong) (auto simp: nth_append)
  moreover have "map (\<lambda>k. (ops @ [op]) ! k) (filter P [0..<length ops]) =
      map (\<lambda>k. ops ! k) (filter P [0..<length ops])" for P
    by (auto simp: nth_append)
  ultimately show ?thesis by (simp add: fresh_ops_def)
qed

lemma fresh_ops_subset: "set (fresh_ops ops) \<subseteq> set ops"
  by (auto simp: fresh_ops_def)

lemma fresh_ops_distinct: "distinct (map op_key (fresh_ops ops))"
proof (induction ops rule: rev_induct)
  case (snoc op ops)
  have "op_key op \<notin> op_key ` set ops" if "newer_than ops op"
    using that by (fastforce simp: newer_than_def op_key_def)
  with snoc fresh_ops_subset [of ops] show ?case by (auto simp: fresh_ops_snoc)
qed simp

text \<open>The operations the loop took up, in order.\<close>

fun turn_ops :: "ctl_out list \<Rightarrow> Op list" where
  "turn_ops [] = []"
| "turn_ops (CTurn msg res # os) =
     (if CommandValid msg then (case Command msg of None \<Rightarrow> [] | Some op \<Rightarrow> [op]) else []) @ turn_ops os"
| "turn_ops (_ # os) = turn_ops os"

lemma turn_ops_append [simp]: "turn_ops (os @ os') = turn_ops os @ turn_ops os'"
  by (induction os rule: turn_ops.induct) auto

abbreviation apply_all :: "hidden_handlers \<Rightarrow> Op list \<Rightarrow> Config list" where
  "apply_all hs ops \<equiv> foldl (\<lambda>cs op. fst (run_handler hs cs op)) [initial_config] ops"

definition cache_ok :: "(int \<rightharpoonup> int) \<Rightarrow> Op list \<Rightarrow> bool" where
  "cache_ok cache ops \<longleftrightarrow>
     (\<forall>c. case cache c of
            None \<Rightarrow> \<forall>op \<in> set ops. op_ClientId op \<noteq> c
          | Some t \<Rightarrow> (\<exists>op \<in> set ops. op_ClientId op = c \<and> op_TimeStamp op = t) \<and>
                      (\<forall>op \<in> set ops. op_ClientId op = c \<longrightarrow> op_TimeStamp op \<le> t))"

lemma cache_ok_newer:
  assumes "cache_ok cache ops"
  shows "(cache (op_ClientId op) = None \<or> the (cache (op_ClientId op)) < op_TimeStamp op) = newer_than ops op"
proof (cases "cache (op_ClientId op)")
  case None
  with assms have "\<forall>o1 \<in> set ops. op_ClientId o1 \<noteq> op_ClientId op"
    by (auto simp: cache_ok_def dest: spec [of _ "op_ClientId op"])
  with None show ?thesis by (simp add: newer_than_def)
next
  case (Some t)
  with assms have "\<exists>o1 \<in> set ops. op_ClientId o1 = op_ClientId op \<and> op_TimeStamp o1 = t"
    and "\<forall>o1 \<in> set ops. op_ClientId o1 = op_ClientId op \<longrightarrow> op_TimeStamp o1 \<le> t"
    by (auto simp: cache_ok_def dest: spec [of _ "op_ClientId op"])
  with Some show ?thesis by (fastforce simp: newer_than_def)
qed

lemma cache_ok_set:
  "cache_ok cache ops \<Longrightarrow> newer_than ops op \<Longrightarrow>
     cache_ok (cache(op_ClientId op \<mapsto> op_TimeStamp op)) (ops @ [op])"
  unfolding cache_ok_def newer_than_def by (fastforce split: option.splits if_splits)

lemma cache_ok_keep:
  assumes "cache_ok cache ops" and "\<not> newer_than ops op"
  shows "cache_ok cache (ops @ [op])"
proof -
  from assms obtain t where t: "cache (op_ClientId op) = Some t" and le: "op_TimeStamp op \<le> t"
    using cache_ok_newer [OF assms(1), of op] by (cases "cache (op_ClientId op)") auto
  have "case cache c of
            None \<Rightarrow> \<forall>o1 \<in> set (ops @ [op]). op_ClientId o1 \<noteq> c
          | Some u \<Rightarrow> (\<exists>o1 \<in> set (ops @ [op]). op_ClientId o1 = c \<and> op_TimeStamp o1 = u) \<and>
                      (\<forall>o1 \<in> set (ops @ [op]). op_ClientId o1 = c \<longrightarrow> op_TimeStamp o1 \<le> u)" for c
    using spec [OF assms(1) [unfolded cache_ok_def], of c] t le
    by (cases "c = op_ClientId op") (auto split: option.splits)
  then show ?thesis by (simp add: cache_ok_def)
qed

definition ctl_dedupe :: "hidden_handlers \<Rightarrow> ctl \<Rightarrow> ctl_out list \<Rightarrow> bool" where
  "ctl_dedupe hs c os \<longleftrightarrow>
     sc_dead (ct_sc c) = 0 \<and> cache_ok (sc_cache (ct_sc c)) (turn_ops os) \<and>
     sc_configs (ct_sc c) = apply_all hs (fresh_ops (turn_ops os))"

lemma apply_op_dedupe:
  assumes "cache_ok (sc_cache sc) ops" and "sc_configs sc = apply_all hs (fresh_ops ops)"
    and "apply_op hs sc op = (sc', op')"
  shows "cache_ok (sc_cache sc') (ops @ [op]) \<and> sc_configs sc' = apply_all hs (fresh_ops (ops @ [op])) \<and>
     sc_dead sc' = sc_dead sc \<and> indexChan sc' = indexChan sc"
  using assms cache_ok_newer [OF assms(1), of op] cache_ok_set [OF assms(1), of op]
    cache_ok_keep [OF assms(1), of op]
  by (auto simp: apply_op_def Let_def fresh_ops_snoc split: if_splits prod.splits)

lemma make_chan_simps [simp]:
  "sc_dead (make_chan i sc) = sc_dead sc" "sc_cache (make_chan i sc) = sc_cache sc"
  "sc_configs (make_chan i sc) = sc_configs sc" "chan_of (make_chan i sc) j = chan_of sc j"
  by (auto simp: make_chan_def chan_of_def)

lemma turn_dedupe:
  assumes "cache_ok (sc_cache sc) ops" and "sc_configs sc = apply_all hs (fresh_ops ops)"
    and "sc_dead sc = 0" and "runShardCtrler_turn hs sc msg = (sc', res)"
  shows "sc_dead sc' = 0 \<and> cache_ok (sc_cache sc') (ops @ turn_ops [CTurn msg res]) \<and>
     sc_configs sc' = apply_all hs (fresh_ops (ops @ turn_ops [CTurn msg res]))"
proof (cases "Command msg")
  case (Some op)
  obtain sc1 op1 where ap: "apply_op hs sc op = (sc1, op1)" by fastforce
  from apply_op_dedupe [OF assms(1,2) ap] assms(3,4) ap Some assms(1,2) show ?thesis
    by (auto simp: runShardCtrler_turn_def killed_def Let_def chan_send_def split: if_splits)
qed (use assms in \<open>auto simp: runShardCtrler_turn_def killed_def\<close>)

lemma ctl_dedupe_exec:
  assumes "ctl_dedupe hs c h" and "ctl_exec hs isOpMatched c act = Inr (c', out)"
  shows "ctl_dedupe hs c' (h @ [out])"
proof (cases act)
  case (Apply msg)
  obtain sc res where turn: "runShardCtrler_turn hs (ct_sc c) msg = (sc, res)" by fastforce
  with turn_dedupe [OF _ _ _ turn] assms Apply show ?thesis
    by (auto simp: ctl_dedupe_def ctl_exec_def ctl_apply_def split: if_splits)
next
  case (Request started op)
  with assms show ?thesis
    by (auto simp: ctl_dedupe_def ctl_exec_def ctl_request_def sendToRaftAndWait_begin_def
        split: if_splits option.splits)
next
  case (Recv t)
  with assms show ?thesis
    by (auto simp: ctl_dedupe_def ctl_exec_def ctl_receive_def sendToRaftAndWait_receive_def complete_send_def
        split: if_splits option.splits waiter.splits list.splits)
next
  case (Timeout t)
  with assms show ?thesis
    by (auto simp: ctl_dedupe_def ctl_exec_def split: if_splits waiter.splits)
qed

interpretation ctld: go_history "ctl_exec hs isOpMatched" "ctl_dedupe hs" "\<lambda>_ _. True" for hs isOpMatched
  by unfold_locales (rule ctl_dedupe_exec)

lemma ctl_dedupe_init: "ctl_dedupe hs (ctl_init me) []"
  by (simp add: ctl_dedupe_def ctl_init_def StartServer_def cache_ok_def)

text \<open>
  C4: after any schedule of committed messages, requests, receipts and time-outs, the
  configurations are the result of running the handlers, in commit order, on exactly the
  operations that are newer than every earlier operation of their client; so each pair of client
  and time stamp is executed at most once, however often it is committed. The apply loop is never
  told to stop.
\<close>

theorem controller_applies_at_most_once:
  assumes "go_run (ctl_exec hs isOpMatched) (ctl_init me) acts = Inr (c, os)"
  shows "sc_configs (ct_sc c) = apply_all hs (fresh_ops (turn_ops os)) \<and>
     distinct (map op_key (fresh_ops (turn_ops os))) \<and> \<not> killed (ct_sc c)"
  using ctld.run_hist [OF ctl_dedupe_init _ assms] fresh_ops_distinct
  by (simp add: ctl_dedupe_def killed_def)


definition example_handlers :: hidden_handlers where
  "example_handlers =
     \<lparr>handleJoin = (\<lambda>cs op. (cs @ [(last cs)\<lparr>Num := Num (last cs) + 1, Groups := Groups (last cs) ++ ArgsJoin op\<rparr>], op)),
      handleLeave = (\<lambda>cs op. (cs @ [(last cs)\<lparr>Num := Num (last cs) + 1\<rparr>], op)),
      handleMove = (\<lambda>cs op. (cs @ [(last cs)\<lparr>Num := Num (last cs) + 1,
         Shards := (Shards (last cs))[nat (ArgsMoveShard op) := ArgsMoveGid op]\<rparr>], op)),
      handleQuery = (\<lambda>cs op. (cs, op\<lparr>ReplyQuery := last cs\<rparr>))\<rparr>"

definition example_op :: "string \<Rightarrow> int \<Rightarrow> Op" where
  "example_op name ts = \<lparr>op_Command = name, ArgsJoin = Map.empty, ArgsLeave = [], ArgsMoveShard = 3,
     ArgsMoveGid = 7, ArgsQuery = -1, ReplyQuery = \<lparr>Num = 0, Shards = [], Groups = Map.empty\<rparr>,
     op_ClientId = 5, op_TimeStamp = ts\<rparr>"

definition example_msg :: "int \<Rightarrow> Op \<Rightarrow> Op ApplyMsg" where
  "example_msg index op = \<lparr>CommandValid = True, Command = Some op, CommandIndex = index,
     SnapshotValid = False, Snapshot = None, SnapshotTerm = 0, SnapshotIndex = 0\<rparr>"

lemmas ctl_eval = ctl_exec_def ctl_apply_def ctl_request_def ctl_receive_def complete_send_def
  sendToRaftAndWait_begin_def sendToRaftAndWait_receive_def sendToRaftAndWait_timeout_def
  runShardCtrler_turn_def killed_def apply_op_def run_handler_def make_chan_def chan_of_def chan_send_def
  ctl_init_def StartServer_def initial_config_def example_handlers_def example_op_def example_msg_def Let_def

lemma controller_applies_at_most_once_witness:
  "\<exists>c os. go_run (ctl_exec example_handlers (=)) (ctl_init 0)
       [Request (Some 1) (example_op ''Move'' 4), Apply (example_msg 1 (example_op ''Move'' 4)), Recv 0,
        Apply (example_msg 2 (example_op ''Move'' 4))] = Inr (c, os) \<and>
     length (sc_configs (ct_sc c)) = 2 \<and>
     sc_configs (ct_sc c) = apply_all example_handlers (fresh_ops (turn_ops os)) \<and>
     distinct (map op_key (fresh_ops (turn_ops os))) \<and> \<not> killed (ct_sc c)"
proof -
  obtain c os where run: "go_run (ctl_exec example_handlers (=)) (ctl_init 0)
       [Request (Some 1) (example_op ''Move'' 4), Apply (example_msg 1 (example_op ''Move'' 4)), Recv 0,
        Apply (example_msg 2 (example_op ''Move'' 4))] = Inr (c, os)"
    and "length (sc_configs (ct_sc c)) = 2"
    by (simp add: ctl_eval)
  with controller_applies_at_most_once [OF run] show ?thesis by blast
qed

section \<open>Routing of replies\<close>

fun delivered :: "ctl_out list \<Rightarrow> (int \<times> Op) list" where
  "delivered [] = []"
| "delivered (CTurn msg (Delivered i op) # os) = (i, op) # delivered os"
| "delivered (CTurn msg (Stuck i op) # os) = (i, op) # delivered os"
| "delivered (_ # os) = delivered os"

fun received :: "ctl_out list \<Rightarrow> (int \<times> Op) list" where
  "received [] = []"
| "received (CReceived t i b op # os) = (i, op) # received os"
| "received (_ # os) = received os"

lemma delivered_append [simp]: "delivered (os @ os') = delivered os @ delivered os'"
  by (induction os rule: delivered.induct) auto

lemma received_append [simp]: "received (os @ os') = received os @ received os'"
  by (induction os rule: received.induct) auto

text \<open>
  As long as no index was delivered twice: no send is blocked, a buffer holds at most the
  operation of its index, and what was received was delivered and is no longer in the buffer.
\<close>

definition ctl_routes :: "ctl \<Rightarrow> ctl_out list \<Rightarrow> bool" where
  "ctl_routes c os \<longleftrightarrow>
     (distinct (map fst (delivered os)) \<longrightarrow>
        ct_stuck c = None \<and>
        (\<forall>i. chan_of (ct_sc c) i = [] \<or>
             (\<exists>op. chan_of (ct_sc c) i = [op] \<and> (i, op) \<in> set (delivered os) \<and> i \<notin> fst ` set (received os))) \<and>
        set (received os) \<subseteq> set (delivered os) \<and> distinct (map fst (received os)))"

lemma chan_of_upd: "chan_of (sc\<lparr>indexChan := m(i \<mapsto> b)\<rparr>) j = (if j = i then b else chan_of (sc\<lparr>indexChan := m\<rparr>) j)"
  by (simp add: chan_of_def)

lemma chan_of_same: "chan_of (sc\<lparr>indexChan := indexChan sc\<rparr>) j = chan_of sc j"
  by (simp add: chan_of_def)

lemma apply_op_chan: "apply_op hs sc op = (sc', op') \<Longrightarrow> chan_of sc' j = chan_of sc j"
  by (auto simp: apply_op_def chan_of_def Let_def split: if_splits prod.splits)

lemma turn_routes:
  assumes "runShardCtrler_turn hs sc msg = (sc', res)"
  shows "(delivered [CTurn msg res] = [] \<and> sc' = sc) \<or>
     (\<exists>i op. res = Delivered i op \<and> chan_of sc i = [] \<and>
        (\<forall>j. chan_of sc' j = (if j = i then [op] else chan_of sc j))) \<or>
     (\<exists>i op. res = Stuck i op \<and> chan_of sc i \<noteq> [])"
proof (cases "Command msg")
  case (Some op)
  obtain sc1 op1 where ap: "apply_op hs sc op = (sc1, op1)" by fastforce
  with assms Some apply_op_chan [OF ap] show ?thesis
    by (auto simp: runShardCtrler_turn_def Let_def chan_send_def chan_of_upd chan_of_same
        split: if_splits)
qed (use assms in \<open>auto simp: runShardCtrler_turn_def split: if_splits\<close>)

lemma ctl_routes_receive:
  assumes "ctl_routes c h" and "ctl_receive isOpMatched c t index op = (c', out)"
  shows "ctl_routes c' (h @ [out])"
proof (cases "chan_of (ct_sc c) index")
  case Nil
  with assms show ?thesis
    by (simp add: ctl_receive_def sendToRaftAndWait_receive_def ctl_routes_def)
next
  case (Cons r rest)
  let ?sc = "(ct_sc c)\<lparr>indexChan := (indexChan (ct_sc c))(index \<mapsto> rest)\<rparr>"
  from assms(2) Cons have out: "out = CReceived t index (isOpMatched op r) r"
    and c': "c' = complete_send index (c\<lparr>ct_sc := ?sc,
      ct_waiters := (ct_waiters c)[t := Returned (isOpMatched op r) r]\<rparr>)"
    by (auto simp: ctl_receive_def sendToRaftAndWait_receive_def)
  show ?thesis
    unfolding ctl_routes_def
  proof (intro impI)
    assume "distinct (map fst (delivered (h @ [out])))"
    with out have "distinct (map fst (delivered h))" by simp
    with assms(1) have nostuck: "ct_stuck c = None"
      and bufs: "\<forall>i. chan_of (ct_sc c) i = [] \<or> (\<exists>op. chan_of (ct_sc c) i = [op] \<and>
            (i, op) \<in> set (delivered h) \<and> i \<notin> fst ` set (received h))"
      and got: "set (received h) \<subseteq> set (delivered h)" "distinct (map fst (received h))"
      by (auto simp: ctl_routes_def)
    from nostuck c' have sc: "ct_sc c' = ?sc" and stuck: "ct_stuck c' = None"
      by (simp_all add: complete_send_def)
    from spec [OF bufs, of index] Cons
    have "rest = []" and "(index, r) \<in> set (delivered h)" and "index \<notin> fst ` set (received h)"
      by auto
    moreover have "chan_of (ct_sc c') i = (if i = index then [] else chan_of (ct_sc c) i)" for i
      using sc \<open>rest = []\<close> by (simp add: chan_of_upd chan_of_same)
    ultimately show "ct_stuck c' = None \<and>
        (\<forall>i. chan_of (ct_sc c') i = [] \<or> (\<exists>op. chan_of (ct_sc c') i = [op] \<and>
             (i, op) \<in> set (delivered (h @ [out])) \<and> i \<notin> fst ` set (received (h @ [out])))) \<and>
        set (received (h @ [out])) \<subseteq> set (delivered (h @ [out])) \<and> distinct (map fst (received (h @ [out])))"
      using stuck bufs got out by auto
  qed
qed

lemma ctl_routes_apply:
  assumes "ctl_routes c h" and "ctl_apply hs c msg = (c', out)"
  shows "ctl_routes c' (h @ [out])"
proof (cases "ct_stuck c")
  case None
  obtain sc res where turn: "runShardCtrler_turn hs (ct_sc c) msg = (sc, res)" by fastforce
  with assms(2) None have c': "ct_sc c' = sc" "ct_stuck c' = (case res of Stuck i op \<Rightarrow> Some (i, op) | _ \<Rightarrow> None)"
    and out: "out = CTurn msg res"
    by (auto simp: ctl_apply_def)
  from turn_routes [OF turn] show ?thesis
  proof (elim disjE exE conjE)
    assume "delivered [CTurn msg res] = []" and "sc = ct_sc c"
    with assms(1) c' out show ?thesis by (cases res) (simp_all add: ctl_routes_def)
  next
    fix i op
    assume "res = Delivered i op" and "chan_of (ct_sc c) i = []"
      and "\<forall>j. chan_of sc j = (if j = i then [op] else chan_of (ct_sc c) j)"
    with assms(1) c' out show ?thesis by (auto simp: ctl_routes_def)
  next
    fix i op
    assume "res = Stuck i op" and "chan_of (ct_sc c) i \<noteq> []"
    moreover from this assms(1) have "i \<in> fst ` set (delivered h)" if "distinct (map fst (delivered h))"
      using that unfolding ctl_routes_def by (metis fst_conv image_eqI)
    ultimately show ?thesis using out by (auto simp: ctl_routes_def)
  qed
qed (use assms in \<open>simp add: ctl_apply_def ctl_routes_def\<close>)

lemma ctl_routes_exec:
  assumes "ctl_routes c h" and "ctl_exec hs isOpMatched c act = Inr (c', out)"
  shows "ctl_routes c' (h @ [out])"
proof (cases act)
  case (Apply msg)
  with assms ctl_routes_apply show ?thesis by (simp add: ctl_exec_def)
next
  case (Request started op)
  with assms show ?thesis
    by (auto simp: ctl_exec_def ctl_request_def sendToRaftAndWait_begin_def ctl_routes_def
        split: if_splits option.splits)
next
  case (Recv t)
  have silent: "ctl_routes c (h @ [CSilent])" using assms(1) by (simp add: ctl_routes_def)
  show ?thesis
  proof (cases "t < length (ct_waiters c)")
    case True
    then show ?thesis
      using assms(2) Recv silent ctl_routes_receive [OF assms(1), of isOpMatched t]
      by (cases "ct_waiters c ! t") (auto simp: ctl_exec_def)
  qed (use assms(2) Recv silent in \<open>simp add: ctl_exec_def\<close>)
next
  case (Timeout t)
  with assms show ?thesis
    by (auto simp: ctl_exec_def ctl_routes_def split: if_splits waiter.splits)
qed

interpretation ctlr: go_history "ctl_exec hs isOpMatched" ctl_routes "\<lambda>_ _. True" for hs isOpMatched
  by unfold_locales (rule ctl_routes_exec)

fun apply_indices :: "ctl_act list \<Rightarrow> int list" where
  "apply_indices [] = []"
| "apply_indices (Apply msg # acts) =
     (if CommandValid msg \<and> Command msg \<noteq> None then [CommandIndex msg] else []) @ apply_indices acts"
| "apply_indices (_ # acts) = apply_indices acts"

lemma ctl_exec_delivered:
  assumes "ctl_exec hs isOpMatched c act = Inr (c', out)"
  shows "map fst (delivered [out]) = [] \<or> map fst (delivered [out]) = apply_indices [act]"
proof (cases act)
  case (Apply msg)
  with assms show ?thesis
    by (auto simp: ctl_exec_def ctl_apply_def runShardCtrler_turn_def Let_def
        split: if_splits option.splits prod.splits)
next
  case (Recv t)
  with assms show ?thesis
    by (auto simp: ctl_exec_def ctl_receive_def split: if_splits option.splits prod.splits waiter.splits)
qed (use assms in \<open>auto simp: ctl_exec_def ctl_request_def Let_def split: if_splits prod.splits waiter.splits\<close>)

lemma apply_indices_Cons: "apply_indices (act # acts) = apply_indices [act] @ apply_indices acts"
  by (cases act) simp_all

lemma ctl_run_delivered:
  "go_run (ctl_exec hs isOpMatched) c acts = Inr (c', os) \<Longrightarrow> distinct (apply_indices acts) \<Longrightarrow>
     distinct (map fst (delivered os)) \<and> set (map fst (delivered os)) \<subseteq> set (apply_indices acts)"
proof (induction acts arbitrary: c os)
  case Nil
  then show ?case by simp
next
  case (Cons act acts)
  from Cons.prems(1) obtain c1 o1 os1 where step: "ctl_exec hs isOpMatched c act = Inr (c1, o1)"
    and rest: "go_run (ctl_exec hs isOpMatched) c1 acts = Inr (c', os1)" and os: "os = [o1] @ os1"
    by (auto simp: go_bind_Inr)
  from Cons.prems(2) have d: "distinct (apply_indices [act] @ apply_indices acts)"
    using apply_indices_Cons [of act acts] by simp
  with Cons.IH [OF rest] have IH: "distinct (map fst (delivered os1))"
    "set (map fst (delivered os1)) \<subseteq> set (apply_indices acts)" by simp_all
  have "map fst (delivered os) = map fst (delivered [o1]) @ map fst (delivered os1)"
    unfolding os by (simp only: delivered_append map_append)
  with ctl_exec_delivered [OF step] d IH show ?case
    using apply_indices_Cons [of act acts] by (elim disjE) auto
qed




text \<open>
  Delivering one index twice with nobody receiving in between blocks the apply loop for good:
  the second send waits on a full buffer with the mutex held, later messages are not applied and
  later requests do not get past the lock.
\<close>

theorem repeated_index_blocks_controller:
  "\<exists>c os. go_run (ctl_exec example_handlers (=)) (ctl_init 0)
       [Apply (example_msg 1 (example_op ''Move'' 4)), Apply (example_msg 1 (example_op ''Move'' 5)),
        Apply (example_msg 2 (example_op ''Move'' 6)), Request (Some 3) (example_op ''Move'' 7)] = Inr (c, os) \<and>
     ct_stuck c \<noteq> None \<and> length (turn_ops os) = 2 \<and> ct_waiters c = []"
  by (simp add: ctl_eval)

section \<open>Skipped operations\<close>

text \<open>
  An operation that has been committed before, such as a query that was submitted again after
  a time-out, is handed to the waiting request as the client sent it: no handler has filled in its
  reply, and the configurations are unchanged.
\<close>

theorem skipped_operation_comes_back_unfilled:
  assumes "go_run (ctl_exec hs isOpMatched) (ctl_init me) acts = Inr (c, os)"
    and "op \<in> set (turn_ops os)" and "Command msg = Some op" and "CommandValid msg"
    and "runShardCtrler_turn hs (ct_sc c) msg = (sc', Delivered i op')"
  shows "op' = op \<and> sc_configs sc' = sc_configs (ct_sc c)"
proof -
  have hist: "ctl_dedupe hs c os" using ctld.run_hist [OF ctl_dedupe_init _ assms(1)] by simp
  then have "cache_ok (sc_cache (ct_sc c)) (turn_ops os)" by (simp add: ctl_dedupe_def)
  moreover have "\<not> newer_than (turn_ops os) op" using assms(2) by (auto simp: newer_than_def)
  ultimately have "apply_op hs (ct_sc c) op = (ct_sc c, op)"
    using cache_ok_newer [of "sc_cache (ct_sc c)" "turn_ops os" op] by (auto simp: apply_op_def Let_def)
  with assms(3-5) show ?thesis
    by (auto simp: runShardCtrler_turn_def Let_def chan_send_def split: if_splits)
qed

lemma skipped_operation_comes_back_unfilled_witness:
  "\<exists>c os sc' op'. go_run (ctl_exec example_handlers (=)) (ctl_init 0)
       [Request (Some 1) (example_op ''Query'' 4), Apply (example_msg 1 (example_op ''Query'' 4)), Timeout 0,
        Request (Some 2) (example_op ''Query'' 4)] = Inr (c, os) \<and>
     runShardCtrler_turn example_handlers (ct_sc c) (example_msg 2 (example_op ''Query'' 4)) = (sc', Delivered 2 op') \<and>
     op' = example_op ''Query'' 4 \<and> sc_configs sc' = sc_configs (ct_sc c)"
proof -
  let ?op = "example_op ''Query'' 4"
  let ?acts = "[Request (Some 1) ?op, Apply (example_msg 1 ?op), Timeout 0, Request (Some 2) ?op]"
  obtain c os sc' op' where run: "go_run (ctl_exec example_handlers (=)) (ctl_init 0) ?acts = Inr (c, os)"
    and mem: "?op \<in> set (turn_ops os)"
    and turn: "runShardCtrler_turn example_handlers (ct_sc c) (example_msg 2 ?op) = (sc', Delivered 2 op')"
    by (simp add: ctl_eval)
  have "op' = ?op \<and> sc_configs sc' = sc_configs (ct_sc c)"
    by (rule skipped_operation_comes_back_unfilled [OF run mem _ _ turn]) (simp_all add: example_msg_def)
  with run turn show ?thesis by blast
qed

end
