(* ===== verification/Replicas.thy ===== *)
theory Replicas
  imports RaftConfig ShardCtrler
begin

text \<open>
  The replicas of the shard controller above Raft: each runs the apply loop of \<^verbatim>\<open>src/shardctrler/server.go\<close>, with its own requests,
  time-outs and interleavings, on the messages that its Raft server delivers. What is assumed of Raft is what the readers of the Raft tester,
  \<^verbatim>\<open>src/raft/config.go\<close>, check: a trace of deliveries that they accept has no two commands at an index and no gaps, but a server may deliver
  an index again, as it does after a restart.

  Shown here: the replicas agree. The state of each is that of a prefix of one log, given by the indexes delivered to it; deliveries that are
  repeated do not matter, because the duplicate detection drops them.
\<close>

section \<open>One replica\<close>

text \<open>The messages a replica took, and the operations of a part of the log.\<close>

fun turn_msgs :: "ctl_out list \<Rightarrow> Op ApplyMsg list" where
  "turn_msgs [] = []"
| "turn_msgs (CTurn msg res # os) = msg # turn_msgs os"
| "turn_msgs (_ # os) = turn_msgs os"

definition ops_of :: "Op option list \<Rightarrow> Op list" where
  "ops_of log = concat (map (\<lambda>c. case c of None \<Rightarrow> [] | Some op \<Rightarrow> [op]) log)"

definition msg_ops :: "Op ApplyMsg list \<Rightarrow> Op list" where
  "msg_ops ms = ops_of (map Command (filter CommandValid ms))"

lemma turn_ops_msgs: "turn_ops os = msg_ops (turn_msgs os)"
  by (induction os rule: turn_msgs.induct) (auto simp: msg_ops_def ops_of_def split: option.splits)

lemma ops_of_append [simp]: "ops_of (xs @ ys) = ops_of xs @ ops_of ys"
  by (simp add: ops_of_def)

lemma ops_of_simps [simp]: "ops_of [] = []" "ops_of [None] = []" "ops_of [Some op] = [op]"
  by (simp_all add: ops_of_def)

lemma msg_ops_snoc: "msg_ops (ms @ [m]) = msg_ops ms @ (if CommandValid m then ops_of [Command m] else [])"
  by (simp add: msg_ops_def)

text \<open>The operations that are new depend only on which operations came before.\<close>

lemma newer_than_cong: "set xs = set ys \<Longrightarrow> newer_than xs op = newer_than ys op"
  by (simp add: newer_than_def)

lemma not_newer_again: "op \<in> set ops \<Longrightarrow> \<not> newer_than ops op"
  by (auto simp: newer_than_def)

lemma cache_ok_cong: "set xs = set ys \<Longrightarrow> cache_ok cache xs = cache_ok cache ys"
  by (simp add: cache_ok_def cong: option.case_cong)

text \<open>The indexes that a list of messages delivers.\<close>

definition indexes :: "Op ApplyMsg list \<Rightarrow> int set" where
  "indexes ms = CommandIndex ` {m \<in> set ms. CommandValid m}"

lemma indexes_snoc: "indexes (ms @ [m]) = (if CommandValid m then insert (CommandIndex m) (indexes ms) else indexes ms)"
  by (auto simp: indexes_def)

text \<open>Messages without gaps, of the commands that \<open>cmd\<close> has at their indexes, possibly repeated.\<close>

fun follows :: "(int \<Rightarrow> Op option) \<Rightarrow> Op ApplyMsg list \<Rightarrow> Op ApplyMsg \<Rightarrow> bool" where
  "follows cmd ms m \<longleftrightarrow> CommandValid m \<longrightarrow>
     1 \<le> CommandIndex m \<and> Command m = cmd (CommandIndex m) \<and> (1 < CommandIndex m \<longrightarrow> CommandIndex m - 1 \<in> indexes ms)"

text \<open>The first commands of the log.\<close>

definition first_commands :: "(int \<Rightarrow> Op option) \<Rightarrow> nat \<Rightarrow> Op option list" where
  "first_commands cmd a = map (\<lambda>i. cmd (int i)) [1..<Suc a]"

lemma first_commands_Suc: "first_commands cmd (Suc a) = first_commands cmd a @ [cmd (int (Suc a))]"
  by (simp add: first_commands_def)

lemma first_commands_0 [simp]: "first_commands cmd 0 = []"
  by (simp add: first_commands_def)

lemma length_first_commands [simp]: "length (first_commands cmd a) = a"
  by (simp add: first_commands_def)

lemma first_commands_mem: "1 \<le> idx \<Longrightarrow> idx \<le> int a \<Longrightarrow> cmd idx \<in> set (first_commands cmd a)"
  unfolding first_commands_def by (auto simp del: upt_Suc intro!: image_eqI [of _ _ "nat idx"])

lemma take_first_commands: "a \<le> b \<Longrightarrow> take a (first_commands cmd b) = first_commands cmd a"
  by (simp add: first_commands_def take_map del: upt_Suc)

lemma ops_of_mem: "Some op \<in> set log \<Longrightarrow> op \<in> set (ops_of log)"
  by (force simp: ops_of_def)

lemma replica_prefix:
  "\<forall>k < length ms. follows cmd (take k ms) (ms ! k) \<Longrightarrow>
     \<exists>a. indexes ms = {1..int a} \<and> set (msg_ops ms) = set (ops_of (first_commands cmd a)) \<and>
       fresh_ops (msg_ops ms) = fresh_ops (ops_of (first_commands cmd a))"
proof (induction ms rule: rev_induct)
  case Nil
  show ?case by (rule exI [of _ 0]) (simp add: indexes_def msg_ops_def)
next
  case (snoc m ms)
  let ?log = "\<lambda>a. ops_of (first_commands cmd a)"
  have "\<forall>k < length ms. follows cmd (take k ms) (ms ! k)"
  proof (intro allI impI)
    fix k assume "k < length ms"
    with snoc.prems [rule_format, of k] show "follows cmd (take k ms) (ms ! k)" by (simp only: length_append nth_append take_append) simp
  qed
  from snoc.IH [OF this] obtain a where a: "indexes ms = {1..int a}" "set (msg_ops ms) = set (?log a)"
    "fresh_ops (msg_ops ms) = fresh_ops (?log a)" by blast
  have m: "follows cmd ms m" using snoc.prems [rule_format, of "length ms"] by simp
  show ?case
  proof (cases "CommandValid m")
    case False
    with a show ?thesis by (intro exI [of _ a]) (simp add: indexes_snoc msg_ops_snoc)
  next
    case True
    with m a(1) have idx: "1 \<le> CommandIndex m" "Command m = cmd (CommandIndex m)" "CommandIndex m \<le> int a + 1" by auto
    show ?thesis
    proof (cases "CommandIndex m \<le> int a")
      case again: True
      have "set (ops_of [Command m]) \<subseteq> set (?log a)"
      proof (cases "Command m")
        case (Some op)
        then have "Some op \<in> set (first_commands cmd a)" using first_commands_mem [OF idx(1) again] idx(2) by metis
        then have "op \<in> set (?log a)" by (rule ops_of_mem)
        with Some show ?thesis by simp
      qed simp
      moreover have "fresh_ops (msg_ops ms @ ops_of [Command m]) = fresh_ops (msg_ops ms)" if "set (ops_of [Command m]) \<subseteq> set (msg_ops ms)"
        using that not_newer_again by (cases "Command m") (simp_all add: fresh_ops_snoc)
      ultimately show ?thesis
        using True again idx(1) a by (intro exI [of _ a]) (auto simp: indexes_snoc msg_ops_snoc)
    next
      case False
      with idx(3) have new: "CommandIndex m = int (Suc a)" by simp
      have log: "?log (Suc a) = ?log a @ ops_of [Command m]" using idx(2) new by (simp add: first_commands_Suc)
      have "fresh_ops (msg_ops ms @ ops_of [Command m]) = fresh_ops (?log (Suc a))"
        unfolding log using a(3) newer_than_cong [OF a(2)] by (cases "Command m") (simp_all add: fresh_ops_snoc)
      moreover have "{1..int (Suc a)} = insert (int (Suc a)) {1..int a}" by auto
      ultimately show ?thesis
        using True a(1,2) new by (intro exI [of _ "Suc a"]) (simp add: indexes_snoc msg_ops_snoc log)
    qed
  qed
qed

section \<open>All replicas\<close>

definition messages_to :: "nat \<Rightarrow> (nat \<times> Op ApplyMsg) list \<Rightarrow> Op ApplyMsg list" where
  "messages_to i tr = map snd (filter (\<lambda>(j, m). j = i) tr)"

lemma messages_to_snoc: "messages_to i (tr @ [(j, m)]) = messages_to i tr @ (if j = i then [m] else [])"
  by (simp add: messages_to_def)

lemma indexes_committers: "idx \<in> indexes (messages_to i tr) \<longleftrightarrow> i \<in> committers tr idx"
  by (force simp: indexes_def messages_to_def committers_def)

lemma trace_safe_follows:
  assumes cmd: "\<forall>(j, m) \<in> set tr0. CommandValid m \<longrightarrow> Command m = cmd (CommandIndex m) \<and> 1 \<le> CommandIndex m"
  shows "trace_safe tr \<Longrightarrow> set tr \<subseteq> set tr0 \<Longrightarrow> \<forall>k < length (messages_to i tr). follows cmd (take k (messages_to i tr)) (messages_to i tr ! k)"
proof (induction tr rule: rev_induct)
  case (snoc x tr)
  obtain j m where x: "x = (j, m)" by fastforce
  have IH: "\<forall>k < length (messages_to i tr). follows cmd (take k (messages_to i tr)) (messages_to i tr ! k)"
    using snoc by (simp add: trace_safe_snoc)
  have "follows cmd (messages_to i tr) m" if "j = i"
  proof -
    have "msg_safe tr (i, m)" "(j, m) \<in> set tr0" using snoc.prems x that by (simp_all add: trace_safe_snoc)
    then have "CommandValid m \<Longrightarrow> 1 < CommandIndex m \<Longrightarrow> i \<in> committers tr (CommandIndex m - 1)"
      unfolding msg_safe_def committers_def by auto
    with cmd \<open>(j, m) \<in> set tr0\<close> show ?thesis by (auto simp: indexes_committers)
  qed
  with IH show ?case
    by (cases "j = i") (simp_all add: x messages_to_snoc nth_append less_Suc_eq all_conj_distrib imp_conjL del: follows.simps)
qed (simp add: messages_to_def)

lemma replica_state:
  assumes "go_run (ctl_exec hs isOpMatched) (ctl_init me) acts = Inr (c, os)"
  shows "sc_configs (ct_sc c) = apply_all hs (fresh_ops (msg_ops (turn_msgs os))) \<and> cache_ok (sc_cache (ct_sc c)) (msg_ops (turn_msgs os))"
  using ctld.run_hist [OF ctl_dedupe_init _ assms] by (simp add: ctl_dedupe_def turn_ops_msgs)

lemma trace_log:
  fixes tr :: "(nat \<times> Op ApplyMsg) list"
  assumes safe: "trace_safe tr" and one: "\<forall>(j, m) \<in> set tr. CommandValid m \<longrightarrow> 1 \<le> CommandIndex m"
  shows "\<exists>log :: Op option list. \<forall>i. \<exists>k \<le> length log. (\<forall>idx. i \<in> committers tr idx \<longleftrightarrow> 1 \<le> idx \<and> idx \<le> int k) \<and>
     set (msg_ops (messages_to i tr)) = set (ops_of (take k log)) \<and> fresh_ops (msg_ops (messages_to i tr)) = fresh_ops (ops_of (take k log))"
proof -
  have "\<forall>idx. \<exists>v. \<forall>(j, m) \<in> set tr. CommandValid m \<and> CommandIndex m = idx \<longrightarrow> Command m = v"
    by (rule allI, rule trace_safe_command [OF safe]) (rule exI)
  from choice [OF this] obtain cmd where
    "\<forall>idx. \<forall>(j, m) \<in> set tr. CommandValid m \<and> CommandIndex m = idx \<longrightarrow> Command m = cmd idx" by blast
  with one have cmd: "\<forall>(j, m) \<in> set tr. CommandValid m \<longrightarrow> Command m = cmd (CommandIndex m) \<and> 1 \<le> CommandIndex m" by fastforce
  let ?log = "first_commands cmd"
  define M where "M = nat (Max (insert 0 (indexes (map snd tr))))"
  have bound: "a \<le> M" if "indexes (messages_to i tr) = {1..int a}" for i a
  proof (cases "a = 0")
    case False
    then have "int a \<in> indexes (messages_to i tr)" using that by auto
    then have "int a \<in> insert 0 (indexes (map snd tr))" by (force simp: indexes_def messages_to_def)
    moreover have "finite (insert 0 (indexes (map snd tr)))" by (simp add: indexes_def)
    ultimately have "int a \<le> Max (insert 0 (indexes (map snd tr)))" by (rule Max_ge [rotated])
    then show ?thesis by (simp add: M_def)
  qed simp
  have "\<exists>k \<le> length (?log M). (\<forall>idx. i \<in> committers tr idx \<longleftrightarrow> 1 \<le> idx \<and> idx \<le> int k) \<and>
     set (msg_ops (messages_to i tr)) = set (ops_of (take k (?log M))) \<and> fresh_ops (msg_ops (messages_to i tr)) = fresh_ops (ops_of (take k (?log M)))" for i
  proof -
    from replica_prefix [OF trace_safe_follows [OF cmd safe order_refl]] obtain a where a: "indexes (messages_to i tr) = {1..int a}"
      "set (msg_ops (messages_to i tr)) = set (ops_of (?log a))" "fresh_ops (msg_ops (messages_to i tr)) = fresh_ops (ops_of (?log a))" by blast
    show ?thesis using a bound [OF a(1)] by (intro exI [of _ a]) (simp add: indexes_committers [symmetric] take_first_commands)
  qed
  then show ?thesis by blast
qed


section \<open>Two replicas\<close>

definition example_ctl_config :: "Op config" where
  "example_ctl_config = \<lparr>cfg_n = 2, cfg_net = MakeNetwork, cfg_connected = [False, False], cfg_endnames = [None, None],
     cfg_logs = [Map.empty, Map.empty], cfg_lastApplied = [0, 0], cfg_maxIndex = 0\<rparr>"

abbreviation "first_msg \<equiv> example_msg 1 (example_op ''Move'' 4)"
abbreviation "second_msg \<equiv> example_msg 2 (example_op ''Join'' 6)"

text \<open>The second server delivers the first index twice, and lags behind.\<close>

definition example_deliveries :: "(nat \<times> Op ApplyMsg) list" where
  "example_deliveries = [(0, first_msg), (1, first_msg), (0, second_msg), (1, first_msg)]"


end
