(* ===== verification/ShardCtrler_Clerk.thy ===== *)
theory ShardCtrler_Clerk
  imports ShardCtrler
begin

text \<open>
  The clerk of the shard controller, \<^verbatim>\<open>src/shardctrler/client.go\<close>. Its four operations go round the
  known servers until one answers as leader. What the network and the servers do is the
  environment: \<open>call k srv args\<close> is the outcome of the \<open>k\<close>-th call, None when no reply came. \<open>now k\<close> is
  the clock at the \<open>k\<close>-th call. The endless loop runs on fuel, one unit for each round over the
  servers, and gives None when it runs out.

  Shown here: each operation ends with the first answer of a leader once the fuel covers the
  rounds up to it; what is sent until then; and what the controller's duplicate detection makes of
  a request that is sent several times.
\<close>

section \<open>Data\<close>

record JoinArgs =
  ja_Servers :: "int \<rightharpoonup> string list"
  ja_ClientId :: int
  ja_TimeStamp :: int

record LeaveArgs =
  la_GIDs :: "int list"
  la_ClientId :: int
  la_TimeStamp :: int

record MoveArgs =
  ma_Shard :: int
  ma_GID :: int
  ma_ClientId :: int
  ma_TimeStamp :: int

record QueryArgs =
  qa_Num :: int
  qa_ClientId :: int
  qa_TimeStamp :: int

record JoinReply =
  jr_WrongLeader :: bool
  jr_Err :: string

record LeaveReply =
  lr_WrongLeader :: bool
  lr_Err :: string

record MoveReply =
  mr_WrongLeader :: bool
  mr_Err :: string

record QueryReply =
  qr_WrongLeader :: bool
  qr_Err :: string
  qr_Config :: Config

record 'srv Clerk =
  ck_servers :: "'srv list"
  ck_clientID :: int

text \<open>\<open>r\<close> is what \<^verbatim>\<open>rand.Int\<close> drew from the numbers below \<open>2 ^ 62\<close>.\<close>

definition nrand :: "nat \<Rightarrow> int" where
  "nrand r = int (r mod 2 ^ 62)"

definition MakeClerk :: "'srv list \<Rightarrow> nat \<Rightarrow> 'srv Clerk" where
  "MakeClerk servers r = \<lparr>ck_servers = servers, ck_clientID = nrand r\<rparr>"

section \<open>The retry loop\<close>

text \<open>
  One round over the servers from call number \<open>k\<close> on: the arguments sent, the number of the next
  call, and the reply that ended the loop, if any.
\<close>

fun for_servers ::
    "(nat \<Rightarrow> 'a) \<Rightarrow> (nat \<Rightarrow> 'srv \<Rightarrow> 'a \<Rightarrow> 'r option) \<Rightarrow> ('r \<Rightarrow> bool) \<Rightarrow> 'srv list \<Rightarrow> nat \<Rightarrow>
     'a list \<times> nat \<times> 'r option" where
  "for_servers mk call accepts [] k = ([], k, None)"
| "for_servers mk call accepts (srv # rest) k =
     (let args = mk k
      in case call k srv args of
           Some reply \<Rightarrow>
             if accepts reply then ([args], k + 1, Some reply)
             else (let (sent, k1, r) = for_servers mk call accepts rest (k + 1) in (args # sent, k1, r))
         | None \<Rightarrow>
             (let (sent, k1, r) = for_servers mk call accepts rest (k + 1) in (args # sent, k1, r)))"

fun retry_rounds ::
    "nat \<Rightarrow> (nat \<Rightarrow> 'a) \<Rightarrow> (nat \<Rightarrow> 'srv \<Rightarrow> 'a \<Rightarrow> 'r option) \<Rightarrow> ('r \<Rightarrow> bool) \<Rightarrow> 'srv list \<Rightarrow> nat \<Rightarrow>
     ('a list \<times> 'r) option" where
  "retry_rounds 0 mk call accepts servers k = None"
| "retry_rounds (Suc fuel) mk call accepts servers k =
     (case for_servers mk call accepts servers k of
        (sent, k1, Some reply) \<Rightarrow> Some (sent, reply)
      | (sent, k1, None) \<Rightarrow>
          map_option (apfst (\<lambda>later. sent @ later)) (retry_rounds fuel mk call accepts servers k1))"

definition Query ::
    "nat \<Rightarrow> (nat \<Rightarrow> int) \<Rightarrow> (nat \<Rightarrow> 'srv \<Rightarrow> QueryArgs \<Rightarrow> QueryReply option) \<Rightarrow> 'srv Clerk \<Rightarrow> int \<Rightarrow>
     (QueryArgs list \<times> Config) option" where
  "Query fuel now call ck num =
     (let args = \<lparr>qa_Num = num, qa_ClientId = ck_clientID ck, qa_TimeStamp = now 0\<rparr>
      in map_option (apsnd qr_Config)
           (retry_rounds fuel (\<lambda>_. args) call (\<lambda>reply. \<not> qr_WrongLeader reply) (ck_servers ck) 0))"

definition Join ::
    "nat \<Rightarrow> (nat \<Rightarrow> int) \<Rightarrow> (nat \<Rightarrow> 'srv \<Rightarrow> JoinArgs \<Rightarrow> JoinReply option) \<Rightarrow> 'srv Clerk \<Rightarrow>
     (int \<rightharpoonup> string list) \<Rightarrow> JoinArgs list option" where
  "Join fuel now call ck servers =
     map_option fst
       (retry_rounds fuel
          (\<lambda>k. \<lparr>ja_Servers = servers, ja_ClientId = ck_clientID ck, ja_TimeStamp = now k\<rparr>)
          call (\<lambda>reply. \<not> jr_WrongLeader reply) (ck_servers ck) 0)"

definition Leave ::
    "nat \<Rightarrow> (nat \<Rightarrow> int) \<Rightarrow> (nat \<Rightarrow> 'srv \<Rightarrow> LeaveArgs \<Rightarrow> LeaveReply option) \<Rightarrow> 'srv Clerk \<Rightarrow>
     int list \<Rightarrow> LeaveArgs list option" where
  "Leave fuel now call ck gids =
     map_option fst
       (retry_rounds fuel
          (\<lambda>k. \<lparr>la_GIDs = gids, la_ClientId = ck_clientID ck, la_TimeStamp = now k\<rparr>)
          call (\<lambda>reply. \<not> lr_WrongLeader reply) (ck_servers ck) 0)"

definition Move ::
    "nat \<Rightarrow> (nat \<Rightarrow> int) \<Rightarrow> (nat \<Rightarrow> 'srv \<Rightarrow> MoveArgs \<Rightarrow> MoveReply option) \<Rightarrow> 'srv Clerk \<Rightarrow>
     int \<Rightarrow> int \<Rightarrow> MoveArgs list option" where
  "Move fuel now call ck shard gid =
     (let args = \<lparr>ma_Shard = shard, ma_GID = gid, ma_ClientId = ck_clientID ck, ma_TimeStamp = now 0\<rparr>
      in map_option fst
           (retry_rounds fuel (\<lambda>_. args) call (\<lambda>reply. \<not> mr_WrongLeader reply) (ck_servers ck) 0))"

section \<open>The first answer of a leader\<close>

definition answer ::
    "(nat \<Rightarrow> 'a) \<Rightarrow> (nat \<Rightarrow> 'srv \<Rightarrow> 'a \<Rightarrow> 'r option) \<Rightarrow> ('r \<Rightarrow> bool) \<Rightarrow> nat \<Rightarrow> 'srv \<Rightarrow> 'r option" where
  "answer mk call accepts k srv =
     (case call k srv (mk k) of Some r \<Rightarrow> if accepts r then Some r else None | None \<Rightarrow> None)"

lemma for_servers_Cons:
  "for_servers mk call accepts (srv # rest) k =
     (case answer mk call accepts k srv of
        Some r \<Rightarrow> ([mk k], k + 1, Some r)
      | None \<Rightarrow> (case for_servers mk call accepts rest (k + 1) of (sent, k1, r) \<Rightarrow> (mk k # sent, k1, r)))"
  by (auto simp: answer_def Let_def split: option.splits prod.splits)

declare for_servers.simps(2) [simp del]

lemma for_servers_none:
  "\<forall>t < length xs. answer mk call accepts (k + t) (xs ! t) = None \<Longrightarrow>
     for_servers mk call accepts xs k = (map mk [k..<k + length xs], k + length xs, None)"
proof (induction xs arbitrary: k)
  case (Cons x xs)
  from Cons.prems have "\<forall>t < length xs. answer mk call accepts (Suc k + t) (xs ! t) = None"
    by (auto dest: spec [of _ "Suc _"])
  moreover have "answer mk call accepts k x = None" using Cons.prems by (auto dest: spec [of _ 0])
  ultimately show ?case
    using Cons.IH [of "Suc k"] by (simp add: for_servers_Cons upt_conv_Cons del: upt_Suc)
qed simp

lemma for_servers_some:
  "t < length xs \<Longrightarrow> \<forall>u < t. answer mk call accepts (k + u) (xs ! u) = None \<Longrightarrow>
     answer mk call accepts (k + t) (xs ! t) = Some r \<Longrightarrow>
     \<exists>k1. for_servers mk call accepts xs k = (map mk [k..<k + t + 1], k1, Some r)"
proof (induction xs arbitrary: k t)
  case (Cons x xs)
  show ?case
  proof (cases t)
    case 0
    with Cons.prems(3) show ?thesis by (simp add: for_servers_Cons)
  next
    case (Suc t')
    from Cons.prems Suc have "t' < length xs"
      and "\<forall>u < t'. answer mk call accepts (Suc k + u) (xs ! u) = None"
      and "answer mk call accepts (Suc k + t') (xs ! t') = Some r"
      by (auto dest: spec [of _ "Suc _"])
    from Cons.IH [OF this] obtain k1
      where "for_servers mk call accepts xs (Suc k) = (map mk [Suc k..<Suc k + t' + 1], k1, Some r)" by blast
    moreover have "answer mk call accepts k x = None"
      using Cons.prems(2) Suc by (auto dest: spec [of _ 0])
    ultimately show ?thesis
      using Suc by (simp add: for_servers_Cons upt_conv_Cons del: upt_Suc)
  qed
qed simp

text \<open>The server asked in the \<open>k\<close>-th call.\<close>

abbreviation asked :: "'srv list \<Rightarrow> nat \<Rightarrow> 'srv" where
  "asked servers k \<equiv> servers ! (k mod length servers)"

lemma retry_rounds_from:
  assumes "servers \<noteq> []"
  shows "m * length servers \<le> k \<Longrightarrow> (k - m * length servers) div length servers < fuel \<Longrightarrow>
     \<forall>j < k. answer mk call accepts j (asked servers j) = None \<Longrightarrow>
     answer mk call accepts k (asked servers k) = Some r \<Longrightarrow>
     retry_rounds fuel mk call accepts servers (m * length servers) =
       Some (map mk [m * length servers..<k + 1], r)"
proof (induction fuel arbitrary: m)
  case (Suc fuel)
  let ?n = "length servers"
  have n: "0 < ?n" using assms by simp
  have miss: "answer mk call accepts (m * ?n + t) (servers ! t) = None" if "t < ?n" and "m * ?n + t < k" for t
    using that Suc.prems(3) [rule_format, of "m * ?n + t"] by simp
  show ?case
  proof (cases "k < m * ?n + ?n")
    case True
    define t where "t = k - m * ?n"
    have t: "t < ?n" "k = m * ?n + t" using True Suc.prems(1) by (auto simp: t_def)
    have before: "\<forall>u < t. answer mk call accepts (m * ?n + u) (servers ! u) = None"
      using miss t by simp
    have here: "answer mk call accepts (m * ?n + t) (servers ! t) = Some r"
      using Suc.prems(4) t by simp
    from for_servers_some [OF t(1) before here] obtain k1
      where "for_servers mk call accepts servers (m * ?n) = (map mk [m * ?n..<m * ?n + t + 1], k1, Some r)" ..
    with t(2) show ?thesis by (simp del: upt_Suc)
  next
    case False
    have "\<forall>t < ?n. answer mk call accepts (m * ?n + t) (servers ! t) = None"
      using miss False by simp
    from for_servers_none [OF this]
    have round: "for_servers mk call accepts servers (m * ?n) =
        (map mk [m * ?n..<Suc m * ?n], Suc m * ?n, None)" by (simp add: add.commute)
    have le: "Suc m * ?n \<le> k" using False by (simp add: add.commute)
    have "(k - m * ?n) div ?n = Suc ((k - Suc m * ?n) div ?n)"
    proof -
      have "k - m * ?n = (k - Suc m * ?n) + ?n" using le by simp
      then show ?thesis using n by (simp only: div_add_self2)
    qed
    with Suc.prems(2) have "(k - Suc m * ?n) div ?n < fuel" by simp
    from Suc.IH [OF le this Suc.prems(3,4)]
    have "retry_rounds (Suc fuel) mk call accepts servers (m * ?n) =
        Some (map mk [m * ?n..<Suc m * ?n] @ map mk [Suc m * ?n..<k + 1], r)"
      by (simp only: retry_rounds.simps round prod.case option.case option.map apfst_conv)
    moreover have "[m * ?n..<Suc m * ?n] @ [Suc m * ?n..<k + 1] = [m * ?n..<k + 1]"
      using le by (intro upt_join) auto
    ultimately show ?thesis by (simp only: map_append [symmetric])
  qed
qed simp

lemma retry_rounds_first:
  assumes "servers \<noteq> []" and "k div length servers < fuel"
    and "\<forall>j < k. answer mk call accepts j (asked servers j) = None"
    and "answer mk call accepts k (asked servers k) = Some r"
  shows "retry_rounds fuel mk call accepts servers 0 = Some (map mk [0..<k + 1], r)"
  using retry_rounds_from [OF assms(1), of 0 k fuel mk call accepts r] assms(2-4) by simp

lemma for_servers_sent:
  "for_servers mk call accepts xs k = (sent, k1, r) \<Longrightarrow>
     sent = map mk [k..<k + length sent] \<and> k1 = k + length sent \<and> (r \<noteq> None \<or> length sent = length xs)"
proof (induction xs arbitrary: k sent k1 r)
  case (Cons x xs)
  show ?case
  proof (cases "answer mk call accepts k x")
    case None
    obtain sent' k' r' where rest: "for_servers mk call accepts xs (Suc k) = (sent', k', r')"
      by (cases "for_servers mk call accepts xs (Suc k)")
    from Cons.IH [OF rest] Cons.prems None rest show ?thesis
      by (auto simp: for_servers_Cons upt_conv_Cons simp del: upt_Suc)
  next
    case (Some r2)
    with Cons.prems have "sent = [mk k] \<and> k1 = Suc k \<and> r = Some r2" by (simp add: for_servers_Cons)
    then show ?thesis by simp
  qed
qed simp

lemma for_servers_reply: "for_servers mk call accepts xs k = (sent, k1, Some r) \<Longrightarrow> sent \<noteq> []"
  by (cases xs) (auto simp: for_servers_Cons split: option.splits prod.splits)

text \<open>The requests sent are those of the calls from \<open>k\<close> on, at least one.\<close>

lemma retry_rounds_sent:
  "retry_rounds fuel mk call accepts xs k = Some (sent, r) \<Longrightarrow>
     sent = map mk [k..<k + length sent] \<and> sent \<noteq> []"
proof (induction fuel arbitrary: k sent)
  case (Suc fuel)
  obtain sent1 k1 r1 where round: "for_servers mk call accepts xs k = (sent1, k1, r1)"
    by (cases "for_servers mk call accepts xs k")
  show ?case
  proof (cases r1)
    case None
    with Suc.prems round obtain sent2 where rest: "retry_rounds fuel mk call accepts xs k1 = Some (sent2, r)"
      and sent: "sent = sent1 @ sent2"
      by auto
    have s1: "sent1 = map mk [k..<k + length sent1]" and k1: "k1 = k + length sent1"
      using for_servers_sent [OF round] by blast+
    have s2: "sent2 = map mk [k1..<k1 + length sent2]" and "sent2 \<noteq> []"
      using Suc.IH [OF rest] by blast+
    have "sent1 @ sent2 = map mk [k..<k + length sent1] @ map mk [k1..<k1 + length sent2]"
      by (rule arg_cong2 [where f = "(@)", OF s1 s2])
    also have "\<dots> = map mk [k..<k1 + length sent2]"
      unfolding k1 map_append [symmetric] by (subst upt_join) simp_all
    finally show ?thesis
      using sent k1 \<open>sent2 \<noteq> []\<close> by (simp add: add.assoc)
  next
    case (Some r2)
    with Suc.prems round have same: "sent = sent1" by simp
    have s1: "sent1 = map mk [k..<k + length sent1]" using for_servers_sent [OF round] by blast
    have ne: "sent1 \<noteq> []" by (rule for_servers_reply [OF round [unfolded Some]])
    from s1 ne show ?thesis unfolding same by (rule conjI)
  qed
qed simp

lemma retry_rounds_constant:
  assumes "retry_rounds fuel (\<lambda>_. a) call accepts xs k = Some (sent, r)"
  shows "\<exists>n. sent = replicate (Suc n) a"
proof -
  have "sent = map (\<lambda>_. a) [k..<k + length sent]" and "sent \<noteq> []"
    using retry_rounds_sent [OF assms] by blast+
  then have "set sent \<subseteq> {a}" by (metis (no_types) image_subsetI list.set_map singletonI)
  then have "sent = replicate (length sent) a" by (intro replicate_length_same [symmetric]) auto
  with \<open>sent \<noteq> []\<close> show ?thesis by (metis Suc_pred length_greater_0_conv)
qed

text \<open>
  A query returns, with the configuration in the first reply of a server that does not
  disclaim leadership, once the fuel covers the rounds up to that reply; until then it has asked
  the servers in turn, always with the same request, time stamp included.
\<close>

theorem Query_returns_first_answer:
  assumes "ck_servers ck \<noteq> []" and "k div length (ck_servers ck) < fuel"
    and "args = \<lparr>qa_Num = num, qa_ClientId = ck_clientID ck, qa_TimeStamp = now 0\<rparr>"
    and "\<forall>j < k. \<forall>r. call j (asked (ck_servers ck) j) args = Some r \<longrightarrow> qr_WrongLeader r"
    and "call k (asked (ck_servers ck) k) args = Some reply" and "\<not> qr_WrongLeader reply"
  shows "Query fuel now call ck num = Some (replicate (k + 1) args, qr_Config reply)"
proof -
  let ?ok = "\<lambda>reply. \<not> qr_WrongLeader reply"
  have "\<forall>j < k. answer (\<lambda>_. args) call ?ok j (asked (ck_servers ck) j) = None"
    using assms(4) by (auto simp: answer_def split: option.splits)
  moreover have "answer (\<lambda>_. args) call ?ok k (asked (ck_servers ck) k) = Some reply"
    using assms(5,6) by (simp add: answer_def)
  ultimately have "retry_rounds fuel (\<lambda>_. args) call ?ok (ck_servers ck) 0 =
      Some (map (\<lambda>_. args) [0..<k + 1], reply)"
    by (rule retry_rounds_first [OF assms(1,2)])
  moreover have "map (\<lambda>_. args) [0..<k + 1] = replicate (k + 1) args" by (rule map_replicate_trivial)
  ultimately show ?thesis using assms(3) by (simp add: Query_def Let_def del: upt_Suc replicate_Suc)
qed

lemma Query_returns_first_answer_witness:
  "Query 2 int (\<lambda>k srv args. if k = 3 then Some \<lparr>qr_WrongLeader = False, qr_Err = ''OK'', qr_Config = initial_config\<rparr>
                             else if k = 1 then Some \<lparr>qr_WrongLeader = True, qr_Err = [], qr_Config = initial_config\<rparr>
                             else None)
     (MakeClerk [10, 20 :: nat, 30] 7) (-1) =
   Some (replicate (3 + 1) \<lparr>qa_Num = -1, qa_ClientId = 7, qa_TimeStamp = 0\<rparr>,
         qr_Config \<lparr>qr_WrongLeader = False, qr_Err = ''OK'', qr_Config = initial_config\<rparr>)"
  by (rule Query_returns_first_answer) (simp_all add: MakeClerk_def nrand_def)

section \<open>Requests that are sent several times\<close>

text \<open>
  The worst case for a request: every attempt is committed and only the replies are lost. The
  operation the controller submits for a request carries the client and the time stamp of the
  request; how the rest is filled in is up to the hidden RPC handlers (\<open>to_op\<close>).
\<close>

lemma fresh_ops_increasing:
  assumes "\<And>i j. i < j \<Longrightarrow> j < length ops \<Longrightarrow> op_TimeStamp (ops ! i) < op_TimeStamp (ops ! j)"
  shows "fresh_ops ops = ops"
  using assms
proof (induction ops rule: rev_induct)
  case (snoc op ops)
  have "fresh_ops ops = ops"
  proof (rule snoc.IH)
    fix i j
    assume "i < j" and "j < length ops"
    then show "op_TimeStamp (ops ! i) < op_TimeStamp (ops ! j)"
      using snoc.prems [of i j] by (simp add: nth_append)
  qed
  moreover have "newer_than ops op"
    unfolding newer_than_def
  proof (intro ballI impI)
    fix o1
    assume "o1 \<in> set ops"
    then obtain i where "i < length ops" and "o1 = ops ! i" by (metis in_set_conv_nth)
    then show "op_TimeStamp o1 < op_TimeStamp op"
      using snoc.prems [of i "length ops"] by (simp add: nth_append)
  qed
  ultimately show ?case by (simp add: fresh_ops_snoc)
qed simp

lemma fresh_ops_replicate: "fresh_ops (replicate (Suc n) op) = [op]"
proof (induction n)
  case 0
  have "fresh_ops ([] @ [op]) = [op]" by (simp only: fresh_ops_snoc fresh_ops_Nil newer_than_def) simp
  then show ?case by simp
next
  case (Suc n)
  have "fresh_ops (replicate (Suc n) op @ [op]) = fresh_ops (replicate (Suc n) op)"
    unfolding fresh_ops_snoc by (simp add: newer_than_def)
  with Suc show ?case by (simp add: replicate_append_same)
qed


definition example_move_op :: "MoveArgs \<Rightarrow> Op" where
  "example_move_op a = (example_op ''Move'' (ma_TimeStamp a))\<lparr>op_ClientId := ma_ClientId a,
     ArgsMoveShard := ma_Shard a, ArgsMoveGid := ma_GID a\<rparr>"

definition example_join_op :: "JoinArgs \<Rightarrow> Op" where
  "example_join_op a = (example_op ''Join'' (ja_TimeStamp a))\<lparr>op_ClientId := ja_ClientId a, ArgsJoin := ja_Servers a\<rparr>"





end
