(* ===== verification/CtrlerConfig.thy ===== *)
theory CtrlerConfig
  imports ShardCtrler Tester Restart
begin

text \<open>
  The tester of the shard controller, \<^verbatim>\<open>src/shardctrler/config.go\<close>: starting and shutting down the
  servers, the ends between them and of the clerks, and partitions of the network.

  Server instances and persisters live on heaps, as the tester replaces both while the old ones
  may run on: \<open>cc_insts\<close> holds every instance ever started and \<open>cc_pt\<close> every persister. The address of
  the \<^verbatim>\<open>labrpc.Server\<close> made for an instance is the number of the instance. \<open>mk\<close> stands for \<^verbatim>\<open>raft.Make\<close>,
  whose body is not part of the sources: the instance it returns for the ends, the server number
  and the persister.

  Shown here: a configuration made of \<open>n\<close> servers is fully connected; \<^verbatim>\<open>make_partition\<close> on an odd number
  of servers gives a majority and a minority with the leader, and after \<^verbatim>\<open>partition\<close> exactly the ends
  within a side are enabled; what it gives for an even number; a restarted server finds
  what was persisted when it was shut down.
\<close>

section \<open>State\<close>

record cinst =
  ci_sc :: ShardCtrler
  ci_rf :: "Op Raft"
  ci_ps :: nat

record cconfig =
  cc_n :: nat
  cc_net :: Network
  cc_servers :: "nat option list"
  cc_saved :: "nat option list"
  cc_endnames :: "string list option list"
  cc_clerks :: "nat \<rightharpoonup> string list"
  cc_nextClientId :: int
  cc_pt :: pstate
  cc_insts :: "cinst list"

type_synonym raft_make = "ClientEnd list \<Rightarrow> int \<Rightarrow> nat \<Rightarrow> Op Raft"

section \<open>Ends between the servers\<close>

definition connectUnlocked :: "nat \<Rightarrow> nat list \<Rightarrow> cconfig \<Rightarrow> cconfig go" where
  "connectUnlocked i to cfg =
     go_bind (enable_ends (\<lambda>_. True) (\<lambda>j. endname_at (cc_endnames cfg) i j) True to (cc_net cfg)) (\<lambda>net1.
     go_bind (enable_ends (\<lambda>_. True) (\<lambda>j. endname_at (cc_endnames cfg) j i) True to net1) (\<lambda>net2.
       Inr (cfg\<lparr>cc_net := net2\<rparr>)))"

text \<open>
  The loops of \<^verbatim>\<open>disconnectUnlocked\<close>. The second one tests \<^verbatim>\<open>cfg.endnames[j]\<close> at the position \<open>j\<close> in the
  list and not at the server listed there.
\<close>

fun disconnect_out :: "string list option list \<Rightarrow> nat \<Rightarrow> nat list \<Rightarrow> Network \<Rightarrow> Network go" where
  "disconnect_out ens i [] net = Inr net"
| "disconnect_out ens i (f # fs) net =
     go_bind (go_nth ens (int i)) (\<lambda>names.
       if names \<noteq> None
       then go_bind (endname_at ens i f) (\<lambda>e. disconnect_out ens i fs (Enable e False net))
       else disconnect_out ens i fs net)"

fun disconnect_in :: "string list option list \<Rightarrow> nat \<Rightarrow> nat \<Rightarrow> nat list \<Rightarrow> Network \<Rightarrow> Network go" where
  "disconnect_in ens i j [] net = Inr net"
| "disconnect_in ens i j (f # fs) net =
     go_bind (go_nth ens (int j)) (\<lambda>names.
       if names \<noteq> None
       then go_bind (endname_at ens f i) (\<lambda>e. disconnect_in ens i (Suc j) fs (Enable e False net))
       else disconnect_in ens i (Suc j) fs net)"

definition disconnectUnlocked :: "nat \<Rightarrow> nat list \<Rightarrow> cconfig \<Rightarrow> cconfig go" where
  "disconnectUnlocked i from cfg =
     go_bind (disconnect_out (cc_endnames cfg) i from (cc_net cfg)) (\<lambda>net1.
     go_bind (disconnect_in (cc_endnames cfg) i 0 from net1) (\<lambda>net2.
       Inr (cfg\<lparr>cc_net := net2\<rparr>)))"

definition All :: "cconfig \<Rightarrow> nat list" where
  "All cfg = [0..<cc_n cfg]"

fun connect_each :: "nat list \<Rightarrow> cconfig \<Rightarrow> cconfig go" where
  "connect_each [] cfg = Inr cfg"
| "connect_each (i # is) cfg = go_bind (connectUnlocked i (All cfg) cfg) (connect_each is)"

definition ConnectAll :: "cconfig \<Rightarrow> cconfig go" where
  "ConnectAll cfg = connect_each [0..<cc_n cfg] cfg"

text \<open>One of the two loops of \<^verbatim>\<open>partition\<close>: the servers of a side leave the other side.\<close>

fun partition_side :: "nat list \<Rightarrow> nat list \<Rightarrow> nat list \<Rightarrow> cconfig \<Rightarrow> cconfig go" where
  "partition_side own other [] cfg = Inr cfg"
| "partition_side own other (i # is) cfg =
     go_bind (disconnectUnlocked i other cfg) (\<lambda>cfg1.
     go_bind (connectUnlocked i own cfg1) (partition_side own other is))"

definition partition_net :: "nat list \<Rightarrow> nat list \<Rightarrow> cconfig \<Rightarrow> cconfig go" where
  "partition_net p1 p2 cfg = go_bind (partition_side p1 p2 p1 cfg) (partition_side p2 p1 p2)"

section \<open>Leader and its partition\<close>

text \<open>\<open>gs i\<close> is the result of \<^verbatim>\<open>GetState\<close> on server \<open>i\<close>.\<close>

fun first_leader :: "(nat \<Rightarrow> int \<times> bool) \<Rightarrow> cconfig \<Rightarrow> nat list \<Rightarrow> bool \<times> nat" where
  "first_leader gs cfg [] = (False, 0)"
| "first_leader gs cfg (i # is) =
     (if cc_servers cfg ! i \<noteq> None \<and> snd (gs i) then (True, i) else first_leader gs cfg is)"

definition Leader_of :: "(nat \<Rightarrow> int \<times> bool) \<Rightarrow> cconfig \<Rightarrow> bool \<times> nat" where
  "Leader_of gs cfg = first_leader gs cfg [0..<cc_n cfg]"

fun fill_parts :: "nat \<Rightarrow> nat list \<Rightarrow> nat \<Rightarrow> nat list \<Rightarrow> nat list \<Rightarrow> (nat list \<times> nat list) go" where
  "fill_parts l [] j p1 p2 = Inr (p1, p2)"
| "fill_parts l (i # is) j p1 p2 =
     (if i \<noteq> l
      then (if j < length p1
            then go_bind (go_update p1 (int j) i) (\<lambda>p1'. fill_parts l is (Suc j) p1' p2)
            else go_bind (go_update p2 (int j - int (length p1)) i) (\<lambda>p2'. fill_parts l is (Suc j) p1 p2'))
      else fill_parts l is j p1 p2)"

definition make_partition :: "(nat \<Rightarrow> int \<times> bool) \<Rightarrow> cconfig \<Rightarrow> (nat list \<times> nat list) go" where
  "make_partition gs cfg =
     (let l = snd (Leader_of gs cfg);
          p1 = replicate (cc_n cfg div 2 + 1) 0;
          p2 = replicate (cc_n cfg div 2) 0
      in go_bind (fill_parts l [0..<cc_n cfg] 0 p1 p2) (\<lambda>(q1, q2).
         go_bind (go_update q2 (int (length q2) - 1) l) (\<lambda>q2'. Inr (q1, q2'))))"

section \<open>Clerks\<close>

text \<open>A clerk is known by its number; reading the map for one that is not there gives a nil slice.\<close>

definition client_name :: "cconfig \<Rightarrow> nat \<Rightarrow> nat \<Rightarrow> gname go" where
  "client_name cfg ck j =
     go_bind (go_nth (case cc_clerks cfg ck of None \<Rightarrow> [] | Some ns \<Rightarrow> ns) (int j)) (\<lambda>s. Inr (NStr s))"

definition ConnectClientUnlocked :: "nat \<Rightarrow> nat list \<Rightarrow> cconfig \<Rightarrow> cconfig go" where
  "ConnectClientUnlocked ck to cfg =
     go_bind (enable_ends (\<lambda>_. True) (client_name cfg ck) True to (cc_net cfg)) (\<lambda>net. Inr (cfg\<lparr>cc_net := net\<rparr>))"

definition DisconnectClientUnlocked :: "nat \<Rightarrow> nat list \<Rightarrow> cconfig \<Rightarrow> cconfig go" where
  "DisconnectClientUnlocked ck from cfg =
     go_bind (enable_ends (\<lambda>_. True) (client_name cfg ck) False from (cc_net cfg)) (\<lambda>net. Inr (cfg\<lparr>cc_net := net\<rparr>))"

text \<open>The new clerk \<open>ck\<close> gets the ends in a random order; the result holds what \<^verbatim>\<open>MakeClerk\<close> is given.\<close>

definition makeClient ::
    "(nat \<Rightarrow> string) \<Rightarrow> (nat \<Rightarrow> nat) \<Rightarrow> nat \<Rightarrow> nat list \<Rightarrow> cconfig \<Rightarrow> (cconfig \<times> ClientEnd list) go" where
  "makeClient rnd r ck to cfg =
     go_bind (make_ends rnd (\<lambda>j. NInt (int j)) False [0..<cc_n cfg] (cc_net cfg)) (\<lambda>(net, ends).
       let cfg1 = cfg\<lparr>cc_net := net, cc_clerks := (cc_clerks cfg)(ck \<mapsto> map rnd [0..<cc_n cfg]),
                      cc_nextClientId := cc_nextClientId cfg + 1\<rparr>
       in go_bind (ConnectClientUnlocked ck to cfg1) (\<lambda>cfg2. Inr (cfg2, random_handles r ends)))"

definition deleteClient :: "nat \<Rightarrow> cconfig \<Rightarrow> cconfig" where
  "deleteClient ck cfg = cfg\<lparr>cc_clerks := (cc_clerks cfg)(ck := None)\<rparr>"

section \<open>Starting and shutting down\<close>

definition ShutdownServer :: "nat \<Rightarrow> cconfig \<Rightarrow> cconfig go" where
  "ShutdownServer i cfg =
     go_bind (disconnectUnlocked i (All cfg) cfg) (\<lambda>cfg1.
       let cfg2 = cfg1\<lparr>cc_net := DeleteServer (NInt (int i)) (cc_net cfg1)\<rparr>
       in go_bind (go_nth (cc_saved cfg2) (int i)) (\<lambda>x.
          go_bind (copy_saved (cc_pt cfg2) x) (\<lambda>(pt, x').
            let cfg3 = cfg2\<lparr>cc_pt := pt, cc_saved := (cc_saved cfg2)[i := x']\<rparr>
            in go_bind (go_nth (cc_servers cfg3) (int i)) (\<lambda>kv.
                 case kv of
                   None \<Rightarrow> Inr cfg3
                 | Some k \<Rightarrow>
                     let inst = cc_insts cfg3 ! k; (sc, rf) = Kill (ci_sc inst, ci_rf inst)
                     in Inr (cfg3\<lparr>cc_insts := (cc_insts cfg3)[k := inst\<lparr>ci_sc := sc, ci_rf := rf\<rparr>],
                                  cc_servers := (cc_servers cfg3)[i := None]\<rparr>)))))"

definition tester_StartServer :: "raft_make \<Rightarrow> (nat \<Rightarrow> string) \<Rightarrow> nat \<Rightarrow> cconfig \<Rightarrow> cconfig go" where
  "tester_StartServer mk rnd i cfg =
     go_bind (go_update (cc_endnames cfg) (int i) (Some (map rnd [0..<cc_n cfg]))) (\<lambda>ens.
     go_bind (make_ends rnd (\<lambda>j. NInt (int j)) False [0..<cc_n cfg] (cc_net cfg)) (\<lambda>(net, ends).
     go_bind (go_nth (cc_saved cfg) (int i)) (\<lambda>x.
     go_bind (copy_or_make (cc_pt cfg) x) (\<lambda>(pt, a).
       let inst = \<lparr>ci_sc = StartServer (int i), ci_rf = mk ends (int i) a, ci_ps = a\<rparr>
       in go_bind (go_update (cc_servers cfg) (int i) (Some (length (cc_insts cfg)))) (\<lambda>srv.
            Inr (cfg\<lparr>cc_endnames := ens, cc_net := AddServer (NInt (int i)) (length (cc_insts cfg)) net,
                     cc_saved := (cc_saved cfg)[i := Some a], cc_pt := pt, cc_servers := srv,
                     cc_insts := cc_insts cfg @ [inst]\<rparr>))))))"

fun start_each :: "raft_make \<Rightarrow> (nat \<Rightarrow> nat \<Rightarrow> string) \<Rightarrow> nat list \<Rightarrow> cconfig \<Rightarrow> cconfig go" where
  "start_each mk rnd [] cfg = Inr cfg"
| "start_each mk rnd (i # is) cfg = go_bind (tester_StartServer mk (rnd i) i cfg) (start_each mk rnd is)"

text \<open>The configuration before the servers are started, and the whole of \<^verbatim>\<open>make_config\<close>.\<close>

definition bare_config :: "nat \<Rightarrow> cconfig" where
  "bare_config n =
     \<lparr>cc_n = n, cc_net = MakeNetwork, cc_servers = replicate n None, cc_saved = replicate n None,
      cc_endnames = replicate n None, cc_clerks = Map.empty, cc_nextClientId = int n + 1000,
      cc_pt = pinit, cc_insts = []\<rparr>"

definition make_config :: "raft_make \<Rightarrow> (nat \<Rightarrow> nat \<Rightarrow> string) \<Rightarrow> nat \<Rightarrow> bool \<Rightarrow> cconfig go" where
  "make_config mk rnd n unreliable =
     go_bind (start_each mk rnd [0..<n] (bare_config n)) (\<lambda>cfg1.
     go_bind (ConnectAll cfg1) (\<lambda>cfg2.
       Inr (cfg2\<lparr>cc_net := Reliable (\<not> unreliable) (cc_net cfg2)\<rparr>)))"

definition LogSize :: "cconfig \<Rightarrow> nat go" where
  "LogSize cfg = max_size (cc_pt cfg) (take (cc_n cfg) (cc_saved cfg)) 0"

text \<open>\<^verbatim>\<open>cleanup\<close>: every instance in place is killed. The result is the configuration it leaves and what the check of the time says.\<close>

fun kill_each :: "nat option list \<Rightarrow> cinst list \<Rightarrow> cinst list" where
  "kill_each [] insts = insts"
| "kill_each (None # xs) insts = kill_each xs insts"
| "kill_each (Some k # xs) insts =
     (let inst = insts ! k; (sc, rf) = Kill (ci_sc inst, ci_rf inst)
      in kill_each xs (insts[k := inst\<lparr>ci_sc := sc, ci_rf := rf\<rparr>]))"

definition tester_cleanup :: "bool \<Rightarrow> int \<Rightarrow> cconfig \<Rightarrow> (cconfig \<times> unit go) go" where
  "tester_cleanup failed elapsed cfg =
     go_bind (Cleanup (cc_net cfg)) (\<lambda>net.
       Inr (cfg\<lparr>cc_insts := kill_each (cc_servers cfg) (cc_insts cfg), cc_net := net\<rparr>, checkTimeout failed elapsed))"


section \<open>Connecting and disconnecting\<close>

abbreviation touches :: "nat \<Rightarrow> nat list \<Rightarrow> nat \<Rightarrow> nat \<Rightarrow> bool" where
  "touches i js x y \<equiv> x = i \<and> y \<in> set js \<or> y = i \<and> x \<in> set js"

abbreviation cc_wf :: "cconfig \<Rightarrow> bool" where
  "cc_wf cfg \<equiv> ends_wf (cc_n cfg) (cc_endnames cfg)"

abbreviation linked :: "cconfig \<Rightarrow> nat \<Rightarrow> nat \<Rightarrow> bool" where
  "linked cfg x y \<equiv> enabled_at (cc_net cfg) (end_of (cc_endnames cfg) x y)"

text \<open>\<open>relinked cfg cfg' f\<close>: the step from \<open>cfg\<close> to \<open>cfg'\<close> changes nothing but the ends, and these by \<open>f\<close>.\<close>

definition relinked :: "cconfig \<Rightarrow> cconfig \<Rightarrow> (nat \<Rightarrow> nat \<Rightarrow> bool \<Rightarrow> bool) \<Rightarrow> bool" where
  "relinked cfg cfg' f \<longleftrightarrow>
     (\<exists>net. cfg' = cfg\<lparr>cc_net := net\<rparr> \<and> same_but_enabled (cc_net cfg) net) \<and>
     (\<forall>x < cc_n cfg. \<forall>y < cc_n cfg. linked cfg' x y = f x y (linked cfg x y))"

lemma relinked_fields:
  assumes "relinked cfg cfg' f"
  shows "cc_n cfg' = cc_n cfg" and "cc_endnames cfg' = cc_endnames cfg" and "cc_saved cfg' = cc_saved cfg"
    and "cc_servers cfg' = cc_servers cfg" and "cc_pt cfg' = cc_pt cfg" and "cc_insts cfg' = cc_insts cfg"
  using assms by (auto simp: relinked_def)

lemma relinked_trans:
  assumes "relinked cfg cfg1 f" and "relinked cfg1 cfg2 g"
  shows "relinked cfg cfg2 (\<lambda>x y b. g x y (f x y b))"
proof -
  from assms obtain net1 net2 where nets: "cfg1 = cfg\<lparr>cc_net := net1\<rparr>" "cfg2 = cfg\<lparr>cc_net := net2\<rparr>"
    and "same_but_enabled (cc_net cfg) net1" "same_but_enabled net1 net2"
    by (auto simp: relinked_def)
  then have "same_but_enabled (cc_net cfg) net2" by (blast intro: same_but_enabled_trans)
  with nets(2) show ?thesis
    unfolding relinked_def using assms by (intro conjI exI [of _ net2]) (auto simp: relinked_def nets)
qed

lemma relinked_refl: "relinked cfg cfg (\<lambda>x y b. b)"
  unfolding relinked_def by (intro conjI exI [of _ "cc_net cfg"]) simp_all

lemma relinked_cong:
  "relinked cfg cfg' f \<Longrightarrow>
     (\<And>x y b. x < cc_n cfg \<Longrightarrow> y < cc_n cfg \<Longrightarrow> f x y b = g x y b) \<Longrightarrow> relinked cfg cfg' g"
  by (auto simp: relinked_def)

lemma disconnect_out_eq:
  "i < length ens \<Longrightarrow> ens ! i \<noteq> None \<Longrightarrow>
     disconnect_out ens i fs net = enable_ends (\<lambda>_. True) (endname_at ens i) False fs net"
  by (induction fs arbitrary: net) (auto simp: go_nth_def intro!: go_bind_ext)

lemma disconnect_in_eq:
  "j + length fs \<le> length ens \<Longrightarrow> None \<notin> set ens \<Longrightarrow>
     disconnect_in ens i j fs net = enable_ends (\<lambda>_. True) (\<lambda>f. endname_at ens f i) False fs net"
proof (induction fs arbitrary: j net)
  case (Cons f fs)
  then have "j < length ens" by simp
  with Cons.prems have "ens ! j \<noteq> None" by (metis nth_mem)
  with Cons show ?case by (auto simp: go_nth_def intro!: go_bind_ext)
qed simp

lemma ends_wf_not_None: "ends_wf n ens \<Longrightarrow> None \<notin> set ens"
  by (auto simp: ends_wf_def in_set_conv_nth)

lemma connectUnlocked_result:
  assumes "cc_wf cfg" and "i < cc_n cfg" and "set to \<subseteq> {..<cc_n cfg}"
  shows "\<exists>cfg'. connectUnlocked i to cfg = Inr cfg' \<and> relinked cfg cfg' (\<lambda>x y b. if touches i to x y then True else b)"
  using enable_both_ways [OF assms, of "\<lambda>_. True" True "cc_net cfg" "\<lambda>_. True"]
  by (auto simp: connectUnlocked_def relinked_def)

lemma disconnectUnlocked_result:
  assumes wf: "cc_wf cfg" and i: "i < cc_n cfg" and frm: "set from \<subseteq> {..<cc_n cfg}" "length from \<le> cc_n cfg"
  shows "\<exists>cfg'. disconnectUnlocked i from cfg = Inr cfg' \<and>
     relinked cfg cfg' (\<lambda>x y b. if touches i from x y then False else b)"
proof -
  have len: "length (cc_endnames cfg) = cc_n cfg" and "cc_endnames cfg ! i \<noteq> None"
    using wf i by (auto simp: ends_wf_def)
  with i frm wf have "disconnect_out (cc_endnames cfg) i from net =
        enable_ends (\<lambda>_. True) (endname_at (cc_endnames cfg) i) False from net"
      "disconnect_in (cc_endnames cfg) i 0 from net =
        enable_ends (\<lambda>_. True) (\<lambda>f. endname_at (cc_endnames cfg) f i) False from net" for net
    by (simp_all add: disconnect_out_eq disconnect_in_eq ends_wf_not_None)
  then show ?thesis
    using enable_both_ways [OF wf i frm(1), of "\<lambda>_. True" False "cc_net cfg" "\<lambda>_. True"]
    by (auto simp: disconnectUnlocked_def relinked_def)
qed

abbreviation across :: "nat list \<Rightarrow> nat list \<Rightarrow> nat \<Rightarrow> nat \<Rightarrow> bool" where
  "across xs js x y \<equiv> x \<in> set xs \<and> y \<in> set js \<or> y \<in> set xs \<and> x \<in> set js"

lemma partition_side_result:
  assumes "cc_wf cfg" and "set own \<subseteq> {..<cc_n cfg}" and "set other \<subseteq> {..<cc_n cfg}" and "length other \<le> cc_n cfg"
    and "set own \<inter> set other = {}" and "set is \<subseteq> set own"
  shows "\<exists>cfg'. partition_side own other is cfg = Inr cfg' \<and>
     relinked cfg cfg' (\<lambda>x y b. if across is own x y then True else if across is other x y then False else b)"
  using assms
proof (induction "is" arbitrary: cfg)
  case Nil
  then show ?case using relinked_refl by simp
next
  case (Cons i "is")
  then have i: "i < cc_n cfg" by auto
  obtain cfg1 where c1: "disconnectUnlocked i other cfg = Inr cfg1"
    and r1: "relinked cfg cfg1 (\<lambda>x y b. if touches i other x y then False else b)"
    using disconnectUnlocked_result [OF Cons.prems(1) i Cons.prems(3,4)] by blast
  note f1 = relinked_fields [OF r1]
  obtain cfg2 where c2: "connectUnlocked i own cfg1 = Inr cfg2"
    and r2: "relinked cfg1 cfg2 (\<lambda>x y b. if touches i own x y then True else b)"
    using connectUnlocked_result [of cfg1 i own] Cons.prems i f1 by auto
  note f2 = relinked_fields [OF r2]
  obtain cfg3 where c3: "partition_side own other is cfg2 = Inr cfg3"
    and r3: "relinked cfg2 cfg3 (\<lambda>x y b. if across is own x y then True else if across is other x y then False else b)"
    using Cons.IH [of cfg2] Cons.prems f1 f2 by auto
  have "relinked cfg cfg3 (\<lambda>x y b. if across (i # is) own x y then True else if across (i # is) other x y then False else b)"
    by (rule relinked_cong [OF relinked_trans [OF relinked_trans [OF r1 r2] r3]])
      (use Cons.prems(5,6) in auto)
  with c1 c2 c3 show ?case by simp
qed

lemma partition_net_result:
  assumes "cc_wf cfg" and "set p1 \<union> set p2 = {..<cc_n cfg}" and "set p1 \<inter> set p2 = {}"
    and "length p1 \<le> cc_n cfg" and "length p2 \<le> cc_n cfg"
  shows "\<exists>cfg'. partition_net p1 p2 cfg = Inr cfg' \<and>
     relinked cfg cfg' (\<lambda>x y _. x \<in> set p1 \<longleftrightarrow> y \<in> set p1)"
proof -
  have sub: "set p1 \<subseteq> {..<cc_n cfg}" "set p2 \<subseteq> {..<cc_n cfg}" using assms(2) by auto
  obtain cfg1 where c1: "partition_side p1 p2 p1 cfg = Inr cfg1"
    and r1: "relinked cfg cfg1 (\<lambda>x y b. if across p1 p1 x y then True else if across p1 p2 x y then False else b)"
    using partition_side_result [OF assms(1) sub assms(5,3) order.refl] by blast
  note f1 = relinked_fields [OF r1]
  obtain cfg2 where c2: "partition_side p2 p1 p2 cfg1 = Inr cfg2"
    and r2: "relinked cfg1 cfg2 (\<lambda>x y b. if across p2 p2 x y then True else if across p2 p1 x y then False else b)"
    using partition_side_result [of cfg1 p2 p1 p2] assms sub f1 by auto
  have side: "x \<in> set p2 \<longleftrightarrow> x \<notin> set p1" if "x < cc_n cfg" for x
    using that assms(2,3) by auto
  have "relinked cfg cfg2 (\<lambda>x y _. x \<in> set p1 \<longleftrightarrow> y \<in> set p1)"
    by (rule relinked_cong [OF relinked_trans [OF r1 r2]]) (auto simp: side)
  with c1 c2 show ?thesis by (simp add: partition_net_def)
qed


section \<open>Making a partition\<close>

lemma fill_parts_result:
  "j + length (filter (\<lambda>i. i \<noteq> l) is) \<le> length p1 + length p2 \<Longrightarrow>
     \<exists>q1 q2. fill_parts l is j p1 p2 = Inr (q1, q2) \<and> length q1 = length p1 \<and> length q2 = length p2 \<and>
       q1 @ q2 = take j (p1 @ p2) @ filter (\<lambda>i. i \<noteq> l) is @ drop (j + length (filter (\<lambda>i. i \<noteq> l) is)) (p1 @ p2)"
proof (induction "is" arbitrary: j p1 p2)
  case (Cons i "is")
  show ?case
  proof (cases "i = l")
    case True
    with Cons show ?thesis by simp
  next
    case False
    define p1' where "p1' = (if j < length p1 then p1[j := i] else p1)"
    define p2' where "p2' = (if j < length p1 then p2 else p2[j - length p1 := i])"
    have j: "j < length p1 + length p2" using Cons.prems False by simp
    then have step: "fill_parts l (i # is) j p1 p2 = fill_parts l is (Suc j) p1' p2'"
      using False by (auto simp: p1'_def p2'_def go_update_def nat_diff_distrib)
    have app: "p1' @ p2' = (p1 @ p2)[j := i]"
      by (auto simp: p1'_def p2'_def list_update_append)
    have len: "length p1' = length p1" "length p2' = length p2" by (simp_all add: p1'_def p2'_def)
    have "Suc j + length (filter (\<lambda>i. i \<noteq> l) is) \<le> length p1' + length p2'"
      using Cons.prems False len by simp
    from Cons.IH [OF this] obtain q1 q2 where q: "fill_parts l is (Suc j) p1' p2' = Inr (q1, q2)"
        "length q1 = length p1" "length q2 = length p2"
      and "q1 @ q2 = take (Suc j) ((p1 @ p2)[j := i]) @ filter (\<lambda>i. i \<noteq> l) is @
          drop (Suc j + length (filter (\<lambda>i. i \<noteq> l) is)) ((p1 @ p2)[j := i])"
      unfolding len app by blast
    moreover have "take (Suc j) ((p1 @ p2)[j := i]) = take j (p1 @ p2) @ [i]"
      using j by (simp add: take_Suc_conv_app_nth)
    ultimately have "q1 @ q2 = take j (p1 @ p2) @ filter (\<lambda>i. i \<noteq> l) (i # is) @
        drop (j + length (filter (\<lambda>i. i \<noteq> l) (i # is))) (p1 @ p2)"
      using False by simp
    with q step show ?thesis by metis
  qed
qed (simp del: take_append drop_append)

lemma first_leader_in: "snd (first_leader gs cfg is) \<in> insert 0 (set is)"
  by (induction "is") auto

lemma Leader_less: "0 < cc_n cfg \<Longrightarrow> snd (Leader_of gs cfg) < cc_n cfg"
  using first_leader_in [of gs cfg "[0..<cc_n cfg]"] by (auto simp: Leader_of_def)

lemma length_others:
  assumes "l < n"
  shows "length (filter (\<lambda>i. i \<noteq> l) [0..<n]) = n - 1"
proof -
  have "set (filter (\<lambda>i. i \<noteq> l) [0..<n]) = {0..<n} - {l}" by auto
  moreover have "distinct (filter (\<lambda>i. i \<noteq> l) [0..<n])" by simp
  ultimately show ?thesis using assms distinct_card [of "filter (\<lambda>i. i \<noteq> l) [0..<n]"] by simp
qed

lemma mset_others: "l < n \<Longrightarrow> add_mset l (mset (filter (\<lambda>i. i \<noteq> l) [0..<n])) = mset [0..<n]"
proof -
  assume "l < n"
  then have "distinct (l # filter (\<lambda>i. i \<noteq> l) [0..<n])" and "set (l # filter (\<lambda>i. i \<noteq> l) [0..<n]) = set [0..<n]"
    by auto
  then have "mset (l # filter (\<lambda>i. i \<noteq> l) [0..<n]) = mset [0..<n]"
    using set_eq_iff_mset_eq_distinct [of "l # filter (\<lambda>i. i \<noteq> l) [0..<n]" "[0..<n]"] distinct_upt by blast
  then show ?thesis by simp
qed

lemma make_partition_result:
  "let n = cc_n cfg; l = snd (Leader_of gs cfg); others = filter (\<lambda>i. i \<noteq> l) [0..<n]
   in if n < 2 then make_partition gs cfg = Inl IndexOutOfRange
      else \<exists>p1 p2. make_partition gs cfg = Inr (p1, p2) \<and> length p1 = n div 2 + 1 \<and> length p2 = n div 2 \<and>
             p1 @ p2 = others @ (if odd n then [l] else [0, l])"
proof -
  let ?n = "cc_n cfg" and ?l = "snd (Leader_of gs cfg)"
  let ?others = "filter (\<lambda>i. i \<noteq> ?l) [0..<?n]"
  let ?z1 = "replicate (?n div 2 + 1) (0 :: nat)" and ?z2 = "replicate (?n div 2) (0 :: nat)"
  have len: "length ?others = ?n - 1"
    using length_others [of ?l ?n] Leader_less [of cfg gs] by (cases ?n) auto
  have zeros: "?z1 @ ?z2 = replicate (?n div 2 + 1 + ?n div 2) 0" by (simp add: replicate_add)
  have "0 + length ?others \<le> length ?z1 + length ?z2" unfolding len by simp
  from fill_parts_result [OF this] obtain q1 q2 where fill: "fill_parts ?l [0..<?n] 0 ?z1 ?z2 = Inr (q1, q2)"
    and lens: "length q1 = length ?z1" "length q2 = length ?z2"
    and "q1 @ q2 = take 0 (?z1 @ ?z2) @ ?others @ drop (0 + length ?others) (?z1 @ ?z2)"
    by blast
  then have q: "q1 @ q2 = ?others @ replicate (?n div 2 + 1 + ?n div 2 - (?n - 1)) 0"
    unfolding zeros by (simp only: len take_0 append_Nil add_0 drop_replicate)
  have lens: "length q1 = ?n div 2 + 1" "length q2 = ?n div 2" using lens by simp_all
  show ?thesis
  proof (cases "?n < 2")
    case True
    with fill lens show ?thesis by (simp add: make_partition_def Let_def go_update_def)
  next
    case False
    then have pos: "0 < ?n div 2" by simp
    with lens have "q2 \<noteq> []" by auto
    then have "make_partition gs cfg = Inr (q1, q2[?n div 2 - 1 := ?l])"
      using fill lens pos by (simp add: make_partition_def Let_def go_update_def nat_diff_distrib)
    moreover have "q1 @ q2[?n div 2 - 1 := ?l] = (q1 @ q2)[?n div 2 + 1 + (?n div 2 - 1) := ?l]"
      using lens by (simp add: list_update_append)
    moreover have "\<dots> = ?others @ (if odd ?n then [?l] else [0, ?l])"
    proof (cases "odd ?n")
      case True
      then have e1: "?n div 2 + 1 + ?n div 2 - (?n - 1) = 1"
        and e2: "?n div 2 + 1 + (?n div 2 - 1) = length ?others"
        unfolding len using pos by presburger+
      show ?thesis unfolding q e1 e2 using True by simp
    next
      case even: False
      then have e1: "?n div 2 + 1 + ?n div 2 - (?n - 1) = Suc (Suc 0)"
        and e2: "?n div 2 + 1 + (?n div 2 - 1) = Suc (length ?others)"
        unfolding len using False by presburger+
      show ?thesis unfolding q e1 e2 using even by (simp add: list_update_append)
    qed
    ultimately show ?thesis using False lens by (simp add: Let_def)
  qed
qed


text \<open>
  C28: \<^verbatim>\<open>make_partition\<close> for every number of servers. The other servers fill the two parts in order,
  and the leader is the last of the second part; for an odd number this is a split of the servers, while
  for an even number a zero that no server was written over stays before the leader, so that server 0 is
  listed once more. One server alone, or none, is an index out of range.
\<close>

theorem make_partition_exact:
  "let n = cc_n cfg; l = snd (Leader_of gs cfg); others = filter (\<lambda>i. i \<noteq> l) [0..<n]
   in if n < 2 then make_partition gs cfg = Inl IndexOutOfRange
      else \<exists>p1 p2. make_partition gs cfg = Inr (p1, p2) \<and> length p1 = n div 2 + 1 \<and> length p2 = n div 2 \<and>
             p1 @ p2 = others @ (if odd n then [l] else [0, l])"
  by (rule make_partition_result)

section \<open>Making a configuration\<close>

lemma connect_each_result:
  "cc_wf cfg \<Longrightarrow> set is \<subseteq> {..<cc_n cfg} \<Longrightarrow>
     \<exists>cfg'. connect_each is cfg = Inr cfg' \<and>
       relinked cfg cfg' (\<lambda>x y b. if x \<in> set is \<or> y \<in> set is then True else b)"
proof (induction "is" arbitrary: cfg)
  case Nil
  then show ?case using relinked_refl by simp
next
  case (Cons i "is")
  obtain cfg1 where c1: "connectUnlocked i (All cfg) cfg = Inr cfg1"
    and r1: "relinked cfg cfg1 (\<lambda>x y b. if touches i (All cfg) x y then True else b)"
    using connectUnlocked_result [of cfg i "All cfg"] Cons.prems by (fastforce simp: All_def)
  note f1 = relinked_fields [OF r1]
  from Cons.IH [of cfg1] Cons.prems f1 obtain cfg2 where c2: "connect_each is cfg1 = Inr cfg2"
    and r2: "relinked cfg1 cfg2 (\<lambda>x y b. if x \<in> set is \<or> y \<in> set is then True else b)" by auto
  have "relinked cfg cfg2 (\<lambda>x y b. if x \<in> set (i # is) \<or> y \<in> set (i # is) then True else b)"
    by (rule relinked_cong [OF relinked_trans [OF r1 r2]]) (auto simp: All_def)
  with c1 c2 show ?case by simp
qed

text \<open>What holds after the first \<open>m\<close> of the servers have been started.\<close>

definition started :: "(nat \<Rightarrow> nat \<Rightarrow> string) \<Rightarrow> nat \<Rightarrow> nat \<Rightarrow> cconfig \<Rightarrow> bool" where
  "started rnd n m cfg \<longleftrightarrow>
     cc_n cfg = n \<and> length (cc_insts cfg) = m \<and>
     cc_servers cfg = map Some [0..<m] @ replicate (n - m) None \<and>
     cc_endnames cfg = map (\<lambda>i. Some (map (rnd i) [0..<n])) [0..<m] @ replicate (n - m) None \<and>
     length (cc_saved cfg) = n \<and> (\<forall>i. m \<le> i \<longrightarrow> i < n \<longrightarrow> cc_saved cfg ! i = None) \<and>
     dom (net_ends (cc_net cfg)) = (\<lambda>(i, j). NStr (rnd i j)) ` ({..<m} \<times> {..<n}) \<and>
     (\<forall>i < m. \<forall>j < n. connection_at (cc_net cfg) (NStr (rnd i j)) = Some (NInt (int j))) \<and>
     (\<forall>i < m. server_at (cc_net cfg) (NInt (int i)) = Some i)"

lemma started_bare: "started rnd n 0 (bare_config n)"
  by (simp add: started_def bare_config_def MakeNetwork_def)

lemma update_prefix:
  "m < n \<Longrightarrow> length xs = m \<Longrightarrow> (xs @ replicate (n - m) None)[m := v] = xs @ v # replicate (n - Suc m) None"
  by (cases "n - m") (auto simp: list_update_append Suc_diff_Suc [symmetric])

lemma server_at_simps [simp]:
  "server_at (AddServer s a net) s' = (if s' = s then Some a else server_at net s')"
  "server_at (DeleteServer s net) s' = (if s' = s then None else server_at net s')"
  "connection_at (AddServer s a net) e = connection_at net e"
  "connection_at (DeleteServer s net) e = connection_at net e"
  "net_ends (AddServer s a net) = net_ends net"
  by (auto simp: server_at_def AddServer_def DeleteServer_def connection_at_def)

lemma server_at_cong: "net_servers net' = net_servers net \<Longrightarrow> server_at net' s = server_at net s"
  by (simp add: server_at_def)

lemma started_step:
  assumes st: "started rnd n m cfg" and m: "m < n"
    and inj: "inj_on (\<lambda>(i, j). rnd i j) ({..<n} \<times> {..<n})"
  shows "\<exists>cfg'. tester_StartServer mk (rnd m) m cfg = Inr cfg' \<and> started rnd n (Suc m) cfg'"
proof -
  let ?names = "(\<lambda>j. NStr (rnd m j)) ` set [0..<n]"
  have n: "cc_n cfg = n" using st by (simp add: started_def)
  have neq: "rnd i j \<noteq> rnd m j'" if "i < m" "j < n" "j' < n" for i j j'
    using inj_onD [OF inj, of "(i, j)" "(m, j')"] that m by auto
  have "inj_on (rnd m) (set [0..<n])"
  proof (rule inj_onI)
    fix j j' assume "j \<in> set [0..<n]" "j' \<in> set [0..<n]" "rnd m j = rnd m j'"
    with inj_onD [OF inj, of "(m, j)" "(m, j')"] m show "j = j'" by auto
  qed
  moreover have "net_ends (cc_net cfg) (NStr (rnd m j)) = None" if "j < n" for j
  proof -
    have "NStr (rnd m j) \<notin> dom (net_ends (cc_net cfg))"
    proof
      assume "NStr (rnd m j) \<in> dom (net_ends (cc_net cfg))"
      then obtain i k where "i < m" "k < n" "rnd i k = rnd m j" using st by (auto simp: started_def)
      with neq that show False by blast
    qed
    then show ?thesis by blast
  qed
  ultimately obtain net' where ends: "make_ends (rnd m) (\<lambda>j. NInt (int j)) False [0..<n] (cc_net cfg) =
        Inr (net', map (\<lambda>j. \<lparr>ce_endname = NStr (rnd m j)\<rparr>) [0..<n])"
    and srv: "net_servers net' = net_servers (cc_net cfg)"
    and dom: "dom (net_ends net') = dom (net_ends (cc_net cfg)) \<union> ?names"
    and con: "\<forall>j \<in> set [0..<n]. connection_at net' (NStr (rnd m j)) = Some (NInt (int j))"
    and old: "\<forall>e. e \<notin> ?names \<longrightarrow> connection_at net' e = connection_at (cc_net cfg) e"
    using make_ends_result [of "[0..<n]" "rnd m" "cc_net cfg" "\<lambda>j. NInt (int j)" False] by auto
  let ?net = "AddServer (NInt (int m)) m net'"
  have "(\<lambda>(i, j). NStr (rnd i j)) ` ({..<Suc m} \<times> {..<n}) =
      (\<lambda>(i, j). NStr (rnd i j)) ` ({..<m} \<times> {..<n}) \<union> ?names"
    by (auto simp: lessThan_Suc image_iff)
  with dom st have dom': "dom (net_ends ?net) = (\<lambda>(i, j). NStr (rnd i j)) ` ({..<Suc m} \<times> {..<n})"
    by (simp add: started_def)
  have con': "\<forall>i < Suc m. \<forall>j < n. connection_at ?net (NStr (rnd i j)) = Some (NInt (int j))"
  proof (intro allI impI)
    fix i j assume "i < Suc m" and j: "j < n"
    then consider "i = m" | "i < m" by linarith
    then show "connection_at ?net (NStr (rnd i j)) = Some (NInt (int j))"
    proof cases
      case 2
      with j neq have "NStr (rnd i j) \<notin> ?names" by auto
      with 2 j st old show ?thesis by (simp add: started_def)
    qed (use con j in simp)
  qed
  have srv': "\<forall>i < Suc m. server_at ?net (NInt (int i)) = Some i"
    using st server_at_cong [OF srv] by (auto simp: started_def less_Suc_eq)
  have saved: "cc_saved cfg ! m = None" "length (cc_saved cfg) = n" using st m by (auto simp: started_def)
  obtain pt a where make: "copy_or_make (cc_pt cfg) None = Inr (pt, a)" by (simp add: copy_or_make_def)
  have lens: "length (cc_servers cfg) = n" "length (cc_endnames cfg) = n" "length (cc_insts cfg) = m"
    using st m by (auto simp: started_def)
  define cfg' where "cfg' = cfg\<lparr>
      cc_endnames := (cc_endnames cfg)[m := Some (map (rnd m) [0..<n])], cc_net := ?net,
      cc_saved := (cc_saved cfg)[m := Some a], cc_pt := pt, cc_servers := (cc_servers cfg)[m := Some m],
      cc_insts := cc_insts cfg @ [\<lparr>ci_sc = StartServer (int m),
        ci_rf = mk (map (\<lambda>j. \<lparr>ce_endname = NStr (rnd m j)\<rparr>) [0..<n]) (int m) a, ci_ps = a\<rparr>]\<rparr>"
  have "tester_StartServer mk (rnd m) m cfg = Inr cfg'"
    using m saved ends make lens
    by (simp add: tester_StartServer_def n go_update_def go_nth_def Let_def cfg'_def)
  moreover have "started rnd n (Suc m) cfg'"
    using st m dom' con' srv' by (simp add: started_def cfg'_def update_prefix)
  ultimately show ?thesis by blast
qed

lemma start_each_result:
  assumes "inj_on (\<lambda>(i, j). rnd i j) ({..<n} \<times> {..<n})"
  shows "m \<le> n \<Longrightarrow> started rnd n m cfg \<Longrightarrow> \<exists>cfg'. start_each mk rnd [m..<n] cfg = Inr cfg' \<and> started rnd n n cfg'"
proof (induction "n - m" arbitrary: m cfg)
  case (Suc d)
  then have m: "m < n" by simp
  from started_step [OF Suc.prems(2) m assms] obtain cfg1
    where c1: "tester_StartServer mk (rnd m) m cfg = Inr cfg1" and s1: "started rnd n (Suc m) cfg1" by blast
  have "d = n - Suc m" using Suc.hyps(2) by simp
  from Suc.hyps(1) [OF this, of cfg1] m s1 obtain cfg'
    where "start_each mk rnd [Suc m..<n] cfg1 = Inr cfg'" "started rnd n n cfg'" by auto
  with c1 m show ?case by (auto simp: upt_conv_Cons)
qed simp


lemma started_wf:
  assumes "started rnd n n cfg" and inj: "inj_on (\<lambda>(i, j). rnd i j) ({..<n} \<times> {..<n})"
  shows "cc_wf cfg" and "i < n \<Longrightarrow> j < n \<Longrightarrow> end_of (cc_endnames cfg) i j = NStr (rnd i j)"
proof -
  have ens: "cc_endnames cfg = map (\<lambda>i. Some (map (rnd i) [0..<n])) [0..<n]" and n: "cc_n cfg = n"
    using assms(1) by (simp_all add: started_def)
  show end_of: "end_of (cc_endnames cfg) i j = NStr (rnd i j)" if "i < n" "j < n" for i j
    using that by (simp add: end_of_def ens)
  have "inj_on (\<lambda>(i, j). end_of (cc_endnames cfg) i j) ({..<n} \<times> {..<n})"
  proof (rule inj_onI)
    fix x y assume x: "x \<in> {..<n} \<times> {..<n}" and y: "y \<in> {..<n} \<times> {..<n}"
      and "(case x of (i, j) \<Rightarrow> end_of (cc_endnames cfg) i j) = (case y of (i, j) \<Rightarrow> end_of (cc_endnames cfg) i j)"
    then have "(case x of (i, j) \<Rightarrow> rnd i j) = (case y of (i, j) \<Rightarrow> rnd i j)" by (auto simp: end_of)
    from inj_onD [OF inj this x y] show "x = y" .
  qed
  then show "cc_wf cfg" by (auto simp: ends_wf_def n ens)
qed

lemma make_config_result:
  assumes "inj_on (\<lambda>(i, j). rnd i j) ({..<n} \<times> {..<n})"
  shows "\<exists>cfg. make_config mk rnd n unreliable = Inr cfg \<and> cc_n cfg = n \<and> reliable (cc_net cfg) = (\<not> unreliable) \<and>
     length (cc_insts cfg) = n \<and> cc_servers cfg = map Some [0..<n] \<and> cc_wf cfg \<and>
     (\<forall>x < n. \<forall>y < n. linked cfg x y \<and>
        connection_at (cc_net cfg) (end_of (cc_endnames cfg) x y) = Some (NInt (int y)) \<and>
        server_at (cc_net cfg) (NInt (int y)) = Some y)"
proof -
  obtain cfg1 where c1: "start_each mk rnd [0..<n] (bare_config n) = Inr cfg1" and st: "started rnd n n cfg1"
    using start_each_result [OF assms le0 started_bare] by blast
  note wf1 = started_wf [OF st assms]
  have n1: "cc_n cfg1 = n" using st by (simp add: started_def)
  obtain cfg2 where c2: "ConnectAll cfg1 = Inr cfg2"
    and r2: "relinked cfg1 cfg2 (\<lambda>x y b. if x \<in> set [0..<n] \<or> y \<in> set [0..<n] then True else b)"
    using connect_each_result [OF wf1(1), of "[0..<n]"] n1 by (fastforce simp: ConnectAll_def)
  note f2 = relinked_fields [OF r2]
  have same: "same_but_enabled (cc_net cfg1) (cc_net cfg2)" using r2 by (auto simp: relinked_def)
  let ?cfg = "cfg2\<lparr>cc_net := Reliable (\<not> unreliable) (cc_net cfg2)\<rparr>"
  have at: "connection_at (cc_net ?cfg) e = connection_at (cc_net cfg1) e"
      "server_at (cc_net ?cfg) s = server_at (cc_net cfg1) s" for e s
    using same_but_enabledD [OF same] by (simp_all add: connection_at_def server_at_def Reliable_def)
  have "make_config mk rnd n unreliable = Inr ?cfg" using c1 c2 by (simp add: make_config_def)
  moreover have "linked ?cfg x y" if "x < n" "y < n" for x y
    using r2 that n1 by (simp add: relinked_def)
  moreover have "connection_at (cc_net ?cfg) (end_of (cc_endnames ?cfg) x y) = Some (NInt (int y)) \<and>
      server_at (cc_net ?cfg) (NInt (int y)) = Some y" if "x < n" "y < n" for x y
    using st that unfolding at by (simp add: f2 end_of_def started_def)
  moreover have "reliable (cc_net ?cfg) = (\<not> unreliable)" by (simp add: Reliable_def)
  ultimately show ?thesis using st wf1(1) n1 f2 by (intro exI [of _ ?cfg]) (simp add: started_def)
qed

text \<open>
  \<^verbatim>\<open>make_config\<close> succeeds when the random names differ, and the configuration is fully connected:
  the end from each server to each is enabled and leads, through the network, to the running
  instance of the other server.
\<close>

theorem make_config_connected:
  assumes "inj_on (\<lambda>(i, j). rnd i j) ({..<n} \<times> {..<n})"
  shows "\<exists>cfg. make_config mk rnd n unreliable = Inr cfg \<and> cc_n cfg = n \<and> reliable (cc_net cfg) = (\<not> unreliable) \<and>
     length (cc_insts cfg) = n \<and> cc_servers cfg = map Some [0..<n] \<and>
     (\<forall>x < n. \<forall>y < n. enabled_at (cc_net cfg) (end_of (cc_endnames cfg) x y) \<and>
        connection_at (cc_net cfg) (end_of (cc_endnames cfg) x y) = Some (NInt (int y)) \<and>
        server_at (cc_net cfg) (NInt (int y)) = Some y)"
  using make_config_result [OF assms, of mk unreliable] by blast

definition example_names :: "nat \<Rightarrow> nat \<Rightarrow> string" where
  "example_names i j = replicate i CHR ''a'' @ replicate (Suc j) CHR ''b''"

definition example_raft :: "Op Raft" where
  "example_raft =
     \<lparr>rf_me = 0, rf_dead = 0, currentTerm = 0, votedFor = -1, logs = [], commitIndex = 0, lastApplied = 0,
      nextIndex = [], matchIndex = [], rf_state = Follower, voteCount = 0, winElectCh = 0, stepDownCh = 0,
      grantVoteCh = 0, heartbeatCh = 0, snapLastIndex = 0, snapLastTerm = 0\<rparr>"

lemma example_names_inj: "inj_on (\<lambda>(i, j). example_names i j) A"
proof (rule inj_onI, clarify)
  fix i j i' j'
  assume eq: "example_names i j = example_names i' j'"
  have count: "length (filter (\<lambda>c. c = CHR ''a'') (example_names i j)) = i"
    "length (filter (\<lambda>c. c = CHR ''b'') (example_names i j)) = Suc j" for i j
    by (simp_all add: example_names_def)
  show "i = i' \<and> j = j'" using count [of i j] count [of i' j'] eq by simp
qed

lemma make_config_connected_witness:
  "\<exists>cfg. make_config (\<lambda>_ _ _. example_raft) example_names 3 False = Inr cfg \<and> cc_n cfg = 3 \<and>
     enabled_at (cc_net cfg) (end_of (cc_endnames cfg) 0 2) \<and> server_at (cc_net cfg) (NInt 2) = Some 2"
proof -
  have "inj_on (\<lambda>(i, j). example_names i j) ({..<3} \<times> {..<3})" by (rule example_names_inj)
  from make_config_connected [OF this, of "\<lambda>_ _ _. example_raft" False] obtain cfg
    where "make_config (\<lambda>_ _ _. example_raft) example_names 3 False = Inr cfg" "cc_n cfg = 3"
      and all: "\<forall>x < 3. \<forall>y < 3. enabled_at (cc_net cfg) (end_of (cc_endnames cfg) x y) \<and>
        connection_at (cc_net cfg) (end_of (cc_endnames cfg) x y) = Some (NInt (int y)) \<and>
        server_at (cc_net cfg) (NInt (int y)) = Some y" by blast
  moreover from all have "enabled_at (cc_net cfg) (end_of (cc_endnames cfg) 0 2)" by simp
  moreover have "server_at (cc_net cfg) (NInt (int 2)) = Some 2" using all [rule_format, of 0 2] by linarith
  ultimately show ?thesis by auto
qed

text \<open>
  C16: the partition the tests make, from a fresh configuration of an odd number of servers: the
  parts split the servers, the leader is in the second and that is a minority, and after the
  partition an end is enabled exactly when both its servers are in the same part.
\<close>

theorem partition_isolates_leader:
  assumes "inj_on (\<lambda>(i, j). rnd i j) ({..<n} \<times> {..<n})" and "odd n" and "3 \<le> n"
  shows "\<exists>cfg p1 p2 cfg'. make_config mk rnd n unreliable = Inr cfg \<and>
     make_partition gs cfg = Inr (p1, p2) \<and> partition_net p1 p2 cfg = Inr cfg' \<and>
     mset (p1 @ p2) = mset [0..<n] \<and> snd (Leader_of gs cfg) \<in> set p2 \<and> 2 * length p2 < n \<and>
     (\<forall>x < n. \<forall>y < n. enabled_at (cc_net cfg') (end_of (cc_endnames cfg') x y) \<longleftrightarrow> (x \<in> set p1 \<longleftrightarrow> y \<in> set p1))"
proof -
  obtain cfg where cfg: "make_config mk rnd n unreliable = Inr cfg" and n: "cc_n cfg = n" and wf: "cc_wf cfg"
    using make_config_result [OF assms(1)] by blast
  let ?l = "snd (Leader_of gs cfg)"
  obtain p1 p2 where parts: "make_partition gs cfg = Inr (p1, p2)" "length p1 = n div 2 + 1" "length p2 = n div 2"
    and app: "p1 @ p2 = filter (\<lambda>i. i \<noteq> ?l) [0..<n] @ [?l]"
    using make_partition_result [of cfg gs] assms(2,3) by (auto simp: n Let_def)
  have l: "?l < n" using Leader_less [of cfg gs] assms(3) n by simp
  have mset: "mset (p1 @ p2) = mset [0..<n]"
    unfolding app using mset_others [OF l] by simp
  then have dist: "distinct (p1 @ p2)" and set: "set (p1 @ p2) = {..<n}"
    using mset_eq_imp_distinct_iff [of "p1 @ p2" "[0..<n]"] mset_eq_setD [OF mset] by auto
  have "p2 \<noteq> []" using parts(3) assms(3) by auto
  then have "last p2 = ?l" using app by (metis last_appendR last_snoc)
  with \<open>p2 \<noteq> []\<close> have "?l \<in> set p2" by (metis last_in_set)
  moreover have "length p1 \<le> n" "length p2 \<le> n" using parts(2,3) assms(3) by auto
  then obtain cfg' where cfg': "partition_net p1 p2 cfg = Inr cfg'"
    and r: "relinked cfg cfg' (\<lambda>x y _. x \<in> set p1 \<longleftrightarrow> y \<in> set p1)"
    using partition_net_result [OF wf, of p1 p2] dist set n by auto
  moreover have "\<forall>x < n. \<forall>y < n. linked cfg' x y \<longleftrightarrow> (x \<in> set p1 \<longleftrightarrow> y \<in> set p1)"
    using r n by (auto simp: relinked_def)
  moreover have "2 * length p2 < n" using parts(3) assms(2) by presburger
  ultimately show ?thesis using cfg parts(1) mset cfg' by blast
qed

lemma partition_isolates_leader_witness:
  "\<exists>cfg p1 p2 cfg'. make_config (\<lambda>_ _ _. example_raft) example_names 5 True = Inr cfg \<and>
     make_partition (\<lambda>i. (1, i = 3)) cfg = Inr (p1, p2) \<and> partition_net p1 p2 cfg = Inr cfg' \<and>
     mset (p1 @ p2) = mset [0..<5] \<and> snd (Leader_of (\<lambda>i. (1, i = 3)) cfg) \<in> set p2"
  using partition_isolates_leader [OF example_names_inj, of 5 "\<lambda>_ _ _. example_raft" True "\<lambda>i. (1, i = 3)"]
  by fastforce


section \<open>Restarting servers\<close>

text \<open>
  Sequences of the tester's operations, mixed with the calls that any instance, live or shut
  down, makes to the persister it was given.
\<close>

datatype cc_act =
    CStart nat "nat \<Rightarrow> string"
  | CShutdown nat
  | CPartition "nat list" "nat list"
  | CConnectAll
  | CInst nat pcall

fun cc_exec :: "raft_make \<Rightarrow> cconfig \<Rightarrow> cc_act \<Rightarrow> (cconfig \<times> unit) go" where
  "cc_exec mk cfg (CStart i rnd) = go_bind (tester_StartServer mk rnd i cfg) (\<lambda>cfg'. Inr (cfg', ()))"
| "cc_exec mk cfg (CShutdown i) = go_bind (ShutdownServer i cfg) (\<lambda>cfg'. Inr (cfg', ()))"
| "cc_exec mk cfg (CPartition p1 p2) = go_bind (partition_net p1 p2 cfg) (\<lambda>cfg'. Inr (cfg', ()))"
| "cc_exec mk cfg CConnectAll = go_bind (ConnectAll cfg) (\<lambda>cfg'. Inr (cfg', ()))"
| "cc_exec mk cfg (CInst k call) = go_bind (pexec (cc_pt cfg) call) (\<lambda>(pt, _). Inr (cfg\<lparr>cc_pt := pt\<rparr>, ()))"

definition cc_disk :: "cconfig \<Rightarrow> nat disks" where
  "cc_disk cfg = \<lparr>dk_pt = cc_pt cfg, dk_saved = at_slot (cc_saved cfg), dk_inst = map ci_ps (cc_insts cfg),
     dk_live = at_slot (cc_servers cfg)\<rparr>"

fun cc_pre :: "cconfig \<Rightarrow> cc_act \<Rightarrow> bool" where
  "cc_pre cfg (CInst k call) \<longleftrightarrow> disk_pre (cc_disk cfg) (Inst k call)"
| "cc_pre cfg _ \<longleftrightarrow> True"

fun cc_effect :: "cc_act \<Rightarrow> nat disk_op list set" where
  "cc_effect (CStart i rnd) = {[Fresh i]}"
| "cc_effect (CShutdown i) = {[Refresh i]}"
| "cc_effect (CInst k call) = {[Inst k call]}"
| "cc_effect _ = {[]}"

definition cc_inv :: "nat \<Rightarrow> cconfig \<Rightarrow> bool" where
  "cc_inv n cfg \<longleftrightarrow> cc_n cfg = n \<and> length (cc_saved cfg) = n \<and> length (cc_servers cfg) = n"

text \<open>Operations on the ends leave everything else alone.\<close>

lemma ends_only:
  "connectUnlocked i to cfg = Inr cfg' \<Longrightarrow> \<exists>net. cfg' = cfg\<lparr>cc_net := net\<rparr>"
  "disconnectUnlocked i to cfg = Inr cfg' \<Longrightarrow> \<exists>net. cfg' = cfg\<lparr>cc_net := net\<rparr>"
  by (auto simp: connectUnlocked_def disconnectUnlocked_def go_bind_Inr)

lemma partition_side_ends_only:
  "partition_side own other is cfg = Inr cfg' \<Longrightarrow> \<exists>net. cfg' = cfg\<lparr>cc_net := net\<rparr>"
proof (induction "is" arbitrary: cfg)
  case Nil
  then show ?case by (auto intro: exI [of _ "cc_net cfg"])
next
  case (Cons i "is")
  then show ?case by (fastforce simp: go_bind_Inr dest!: ends_only)
qed

lemma connect_each_ends_only:
  "connect_each is cfg = Inr cfg' \<Longrightarrow> \<exists>net. cfg' = cfg\<lparr>cc_net := net\<rparr>"
proof (induction "is" arbitrary: cfg)
  case Nil
  then show ?case by (auto intro: exI [of _ "cc_net cfg"])
next
  case (Cons i "is")
  then show ?case by (fastforce simp: go_bind_Inr dest!: ends_only)
qed

lemma cc_disk_net [simp]: "cc_disk (cfg\<lparr>cc_net := net\<rparr>) = cc_disk cfg"
  by (simp add: cc_disk_def)

lemma StartServer_disk:
  assumes "tester_StartServer mk rnd i cfg = Inr cfg'" and "cc_inv n cfg"
  shows "\<exists>us. go_run disk_exec (cc_disk cfg) [Fresh i] = Inr (cc_disk cfg', us)" and "cc_inv n cfg'"
  using assms
  by (auto simp: tester_StartServer_def go_bind_Inr go_nth_at go_update_at Let_def cc_disk_def cc_inv_def
      at_slot_update at_slot_def [of "cc_saved cfg" i])

lemma ShutdownServer_disk:
  assumes "ShutdownServer i cfg = Inr cfg'" and "cc_inv n cfg"
  shows "\<exists>us. go_run disk_exec (cc_disk cfg) [Refresh i] = Inr (cc_disk cfg', us)" and "cc_inv n cfg'"
proof -
  from assms(1) obtain cfg1 where d: "disconnectUnlocked i (All cfg) cfg = Inr cfg1"
    by (auto simp: ShutdownServer_def go_bind_Inr)
  from ends_only(2) [OF d] obtain net where cfg1: "cfg1 = cfg\<lparr>cc_net := net\<rparr>" by blast
  have i: "i < cc_n cfg"
    using assms by (auto simp: ShutdownServer_def d cfg1 go_bind_Inr go_nth_at cc_inv_def Let_def)
  with assms(2) have slots: "at_slot (cc_saved cfg) i = cc_saved cfg ! i" "at_slot (cc_servers cfg) i = cc_servers cfg ! i"
    by (simp_all add: at_slot_def cc_inv_def)
  have "(\<exists>us. go_run disk_exec (cc_disk cfg) [Refresh i] = Inr (cc_disk cfg', us)) \<and> cc_inv n cfg'"
    using assms i
    by (cases "cc_servers cfg ! i") (auto simp: ShutdownServer_def d cfg1 go_bind_Inr go_nth_at Let_def cc_disk_def cc_inv_def Kill_def
        at_slot_update slots fun_upd_idem map_update_same)
  then show "\<exists>us. go_run disk_exec (cc_disk cfg) [Refresh i] = Inr (cc_disk cfg', us)" and "cc_inv n cfg'"
    by blast+
qed

lemma ends_op_disk:
  assumes "\<exists>net. cfg' = cfg\<lparr>cc_net := net\<rparr>"
  shows "cc_disk cfg' = cc_disk cfg" and "cc_inv n cfg' = cc_inv n cfg"
  using assms by (auto simp: cc_inv_def)

lemma partition_net_ends_only:
  "partition_net p1 p2 cfg = Inr cfg' \<Longrightarrow> \<exists>net. cfg' = cfg\<lparr>cc_net := net\<rparr>"
  by (fastforce simp: partition_net_def go_bind_Inr dest!: partition_side_ends_only)

lemma cc_exec_disk:
  assumes "cc_exec mk cfg act = Inr (cfg', u)" and "cc_inv n cfg" and "cc_pre cfg act"
  shows "(\<exists>ops us. ops \<in> cc_effect act \<and> go_allowed disk_exec disk_pre (cc_disk cfg) ops \<and>
      go_run disk_exec (cc_disk cfg) ops = Inr (cc_disk cfg', us)) \<and> cc_inv n cfg'"
proof (cases act)
  case (CStart i rnd)
  with assms StartServer_disk show ?thesis by (fastforce simp: go_bind_Inr simp del: go_run.simps split: sum.splits)
next
  case (CShutdown i)
  with assms ShutdownServer_disk show ?thesis by (fastforce simp: go_bind_Inr simp del: go_run.simps split: sum.splits)
next
  case (CPartition p1 p2)
  with assms ends_op_disk [OF partition_net_ends_only] show ?thesis by (auto simp: go_bind_Inr)
next
  case CConnectAll
  with assms ends_op_disk [OF connect_each_ends_only] show ?thesis by (auto simp: go_bind_Inr ConnectAll_def)
next
  case (CInst k call)
  with assms show ?thesis by (auto simp: go_bind_Inr cc_disk_def cc_inv_def split: sum.splits)
qed

interpretation cc: restartable "cc_exec mk" "cc_inv n" cc_pre cc_disk cc_effect for mk n
  by unfold_locales (use cc_exec_disk in blast)+

lemma bare_disk_ok: "disk_ok (cc_disk (bare_config n))"
  by (auto simp: disk_ok_def cc_disk_def bare_config_def at_slot_def psound_pinit)

lemma bare_inv: "cc_inv n (bare_config n)"
  by (simp add: cc_inv_def bare_config_def)

lemma live_holds:
  assumes "disk_ok (cc_disk cfg)" and "cc_inv n cfg" and "dk_live (cc_disk cfg) i = Some j"
  shows "persisted (cc_disk cfg) i = Some (held (cc_pt cfg) (ci_ps (cc_insts cfg ! j)))"
    and "cc_servers cfg ! i = Some j"
proof -
  have "j < length (cc_insts cfg)" and "at_slot (cc_saved cfg) i = Some (ci_ps (cc_insts cfg ! j))"
    using disk_okD(6,7) [OF assms(1,3)] by (simp_all add: cc_disk_def)
  then show "persisted (cc_disk cfg) i = Some (held (cc_pt cfg) (ci_ps (cc_insts cfg ! j)))"
    by (simp add: persisted_def cc_disk_def)
  show "cc_servers cfg ! i = Some j"
    using assms(3) by (auto simp: cc_disk_def at_slot_def split: if_splits)
qed

text \<open>
  A server that is shut down and started again finds in its persister what the instance that
  ran before held at the time of the shutdown. This is so for every sequence of starts, shutdowns
  and partitions, while all instances, those shut down included, go on to save into the persisters
  they were given and to write into the arrays they own.
\<close>

theorem restart_from_last_persisted:
  assumes "go_allowed (cc_exec mk) cc_pre (bare_config n) xs"
    and "go_run (cc_exec mk) (bare_config n) xs = Inr (cfg, os1)"
    and "i < n" and "cc_servers cfg ! i = Some j"
    and "go_allowed (cc_exec mk) cc_pre cfg (CShutdown i # ys @ [CStart i rnd])"
    and "go_run (cc_exec mk) cfg (CShutdown i # ys @ [CStart i rnd]) = Inr (cfg', os2)"
    and "\<forall>r. CStart i r \<notin> set ys"
  shows "\<exists>k. cc_servers cfg' ! i = Some k \<and>
     held (cc_pt cfg') (ci_ps (cc_insts cfg' ! k)) = held (cc_pt cfg) (ci_ps (cc_insts cfg ! j))"
proof -
  have ok: "disk_ok (cc_disk cfg)" using cc.run_disk_ok [OF bare_inv bare_disk_ok assms(1,2)] .
  have inv: "cc_inv n cfg" using cc.run_invar [OF bare_inv assms(1,2)] .
  have ok': "disk_ok (cc_disk cfg')" using cc.run_disk_ok [OF inv ok assms(5,6)] .
  have inv': "cc_inv n cfg'" using cc.run_invar [OF inv assms(5,6)] .
  have "length (cc_servers cfg) = n"
    using inv by (simp add: cc_inv_def)
  then have live: "dk_live (cc_disk cfg) i = Some j" using assms(3,4) by (simp add: cc_disk_def at_slot_def)
  have none: "\<forall>y \<in> set ys. \<forall>ops \<in> cc_effect y. Fresh i \<notin> set ops"
  proof (intro ballI notI)
    fix y ops assume "y \<in> set ys" "ops \<in> cc_effect y" "Fresh i \<in> set ops"
    with assms(7) show False by (cases y) auto
  qed
  have "persisted (cc_disk cfg') i = Some (held (cc_pt cfg) (ci_ps (cc_insts cfg ! j))) \<and>
      dk_live (cc_disk cfg') i = Some (length (dk_inst (cc_disk cfg')) - 1)"
    using cc.restart [OF inv ok assms(5,6) _ _ none] live_holds(1) [OF ok inv live]
    by simp
  with live_holds [OF ok' inv'] show ?thesis by (metis option.inject)
qed


definition example_boot :: "cc_act list" where
  "example_boot = [CStart 0 (example_names 0), CInst 0 (ClientAlloc [7]), CInst 0 (CallSave 0 (Some 0) None)]"

definition example_reboot :: "cc_act list" where
  "example_reboot =
     CShutdown 0 # [CInst 0 (ClientAlloc [8]), CInst 0 (CallSave 0 (Some 3) None)] @ [CStart 0 (example_names 1)]"

definition example_mk :: raft_make where
  "example_mk es me a = example_raft"

lemma restart_from_last_persisted_witness:
  "\<exists>cfg os1 cfg' os2 k. go_run (cc_exec example_mk) (bare_config 1) example_boot = Inr (cfg, os1) \<and>
     go_run (cc_exec example_mk) cfg example_reboot = Inr (cfg', os2) \<and> cc_servers cfg' ! 0 = Some k \<and>
     held (cc_pt cfg') (ci_ps (cc_insts cfg' ! k)) = ([7], [])"
proof -
  note defs = example_boot_def example_reboot_def example_mk_def bare_config_def tester_StartServer_def ShutdownServer_def
    disconnectUnlocked_def All_def go_update_def go_nth_def copy_or_make_def copy_saved_def MakeEnd_def MakeNetwork_def
    Connect_def Enable_def AddServer_def DeleteServer_def endname_at_def Kill_def Let_def pinit_def with_ps_def
    Save_def clone_def Copy_def MakePersister_def deref_def cc_disk_def example_names_def
  define cfg where "cfg = fst (projr (go_run (cc_exec example_mk) (bare_config 1) example_boot))"
  obtain os1 where boot: "go_run (cc_exec example_mk) (bare_config 1) example_boot = Inr (cfg, os1)"
    unfolding cfg_def by (simp add: defs)
  have al1: "go_allowed (cc_exec example_mk) cc_pre (bare_config 1) example_boot"
    by (simp add: defs)
  have facts: "cc_servers cfg ! 0 = Some 0" "held (cc_pt cfg) (ci_ps (cc_insts cfg ! 0)) = ([7], [])"
    unfolding cfg_def by (simp_all add: defs held_def contents_def)
  have al2: "go_allowed (cc_exec example_mk) cc_pre cfg example_reboot"
    unfolding cfg_def by (simp add: defs)
  obtain cfg' os2 where reboot: "go_run (cc_exec example_mk) cfg example_reboot = Inr (cfg', os2)"
    unfolding cfg_def by (simp add: defs)
  have "\<exists>k. cc_servers cfg' ! 0 = Some k \<and>
      held (cc_pt cfg') (ci_ps (cc_insts cfg' ! k)) = held (cc_pt cfg) (ci_ps (cc_insts cfg ! 0))"
    by (rule restart_from_last_persisted [OF al1 boot _ facts(1) al2 [unfolded example_reboot_def]
        reboot [unfolded example_reboot_def]]) simp_all
  with boot reboot facts(2) show ?thesis by auto
qed

section \<open>Clerks of the tester\<close>

text \<open>
  A new clerk gets, in some order, one end to each server and no other; exactly the ends to the
  listed servers are enabled, and no end of the servers or of another clerk is changed.
\<close>

theorem makeClient_ends:
  assumes "inj_on rnd {..<cc_n cfg}" and "\<forall>j < cc_n cfg. net_ends (cc_net cfg) (NStr (rnd j)) = None"
    and "set to \<subseteq> {..<cc_n cfg}"
  shows "\<exists>cfg' ends. makeClient rnd r ck to cfg = Inr (cfg', ends) \<and>
     mset ends = mset (map (\<lambda>j. \<lparr>ce_endname = NStr (rnd j)\<rparr>) [0..<cc_n cfg]) \<and>
     (\<forall>j < cc_n cfg. connection_at (cc_net cfg') (NStr (rnd j)) = Some (NInt (int j)) \<and>
        (enabled_at (cc_net cfg') (NStr (rnd j)) \<longleftrightarrow> j \<in> set to)) \<and>
     (\<forall>e. e \<notin> (\<lambda>j. NStr (rnd j)) ` {..<cc_n cfg} \<longrightarrow>
        enabled_at (cc_net cfg') e = enabled_at (cc_net cfg) e \<and> connection_at (cc_net cfg') e = connection_at (cc_net cfg) e)"
proof -
  let ?n = "cc_n cfg" and ?names = "(\<lambda>j. NStr (rnd j)) ` {..<cc_n cfg}"
  have set: "set [0..<?n] = {..<?n}" by auto
  obtain net ends where made: "make_ends rnd (\<lambda>j. NInt (int j)) False [0..<?n] (cc_net cfg) = Inr (net, ends)"
    and ends: "ends = map (\<lambda>j. \<lparr>ce_endname = NStr (rnd j)\<rparr>) [0..<?n]"
    and en: "\<forall>e. enabled_at net e = (if e \<in> ?names then False else enabled_at (cc_net cfg) e)"
    and con: "\<forall>j < ?n. connection_at net (NStr (rnd j)) = Some (NInt (int j))"
      "\<forall>e. e \<notin> ?names \<longrightarrow> connection_at net e = connection_at (cc_net cfg) e"
    using make_ends_result [of "[0..<?n]" rnd "cc_net cfg" "\<lambda>j. NInt (int j)" False] assms(1,2)
    unfolding set by auto
  let ?cfg = "cfg\<lparr>cc_net := net, cc_clerks := (cc_clerks cfg)(ck \<mapsto> map rnd [0..<?n]),
                  cc_nextClientId := cc_nextClientId cfg + 1\<rparr>"
  have "\<forall>j \<in> set to. True \<longrightarrow> client_name ?cfg ck j = Inr (NStr (rnd j))"
    using assms(3) by (auto simp: client_name_def go_nth_def)
  from enable_ends_result [OF this, of True net] obtain net'
    where enabled: "enable_ends (\<lambda>_. True) (client_name ?cfg ck) True to net = Inr net'" and same: "same_but_enabled net net'"
      and en': "\<forall>e. enabled_at net' e = (if \<exists>j \<in> set to. NStr (rnd j) = e then True else enabled_at net e)"
    by auto
  have con': "connection_at net' e = connection_at net e" for e
    using same_but_enabledD [OF same] by (simp add: connection_at_def)
  have "makeClient rnd r ck to cfg = Inr (?cfg\<lparr>cc_net := net'\<rparr>, random_handles r ends)"
    using made enabled by (simp add: makeClient_def ConnectClientUnlocked_def)
  moreover have "enabled_at net' (NStr (rnd j)) \<longleftrightarrow> j \<in> set to" if "j < ?n" for j
  proof -
    have "(\<exists>j' \<in> set to. NStr (rnd j') = NStr (rnd j)) \<longleftrightarrow> j \<in> set to"
      using inj_onD [OF assms(1)] assms(3) that by (metis gname.inject(1) lessThan_iff subsetD)
    with en en' that show ?thesis by auto
  qed
  moreover have "enabled_at net' e = enabled_at (cc_net cfg) e" if "e \<notin> ?names" for e
    using that en en' assms(3) by auto
  ultimately show ?thesis using con con' ends by (simp add: random_handles_mset)
qed

lemma makeClient_ends_witness:
  "\<exists>cfg' ends. makeClient (example_names 9) (\<lambda>i. 1) 0 [1] (bare_config 2) = Inr (cfg', ends) \<and>
     enabled_at (cc_net cfg') (NStr (example_names 9 1)) \<and> \<not> enabled_at (cc_net cfg') (NStr (example_names 9 0))"
proof -
  have n: "cc_n (bare_config 2) = 2" by (simp add: bare_config_def)
  have "inj_on (example_names 9) {..<cc_n (bare_config 2)}"
    by (auto simp: inj_on_def example_names_def)
  moreover have "\<forall>j < cc_n (bare_config 2). net_ends (cc_net (bare_config 2)) (NStr (example_names 9 j)) = None"
    by (simp add: bare_config_def MakeNetwork_def)
  moreover have "set [1] \<subseteq> {..<cc_n (bare_config 2)}" by (simp add: n)
  ultimately obtain cfg' ends where "makeClient (example_names 9) (\<lambda>i. 1) 0 [1] (bare_config 2) = Inr (cfg', ends)"
    and "\<forall>j < 2. enabled_at (cc_net cfg') (NStr (example_names 9 j)) \<longleftrightarrow> j \<in> set [1]"
    using makeClient_ends [of "example_names 9" "bare_config 2" "[1]" "\<lambda>i. 1" 0] unfolding n by blast
  then show ?thesis by (intro exI [of _ cfg'] exI [of _ ends]) simp
qed

end
