(* ===== verification/CtrlerSession.thy ===== *)
theory CtrlerSession
  imports CtrlerConfig
begin

text \<open>
  All operations that the tests of the shard controller call on the tester, \<^verbatim>\<open>src/shardctrler/config.go\<close>,
  as one machine, and what keeps it going: a typing of the configuration (the lists have an entry per server,
  names and persisters are there, addresses are in range) that \<^verbatim>\<open>make_config\<close> establishes and every
  operation keeps.

  Shown here: an operation on a typed configuration, with servers in range and names that are new, never
  panics, so no sequence of them does.
\<close>

section \<open>The disks never fail\<close>

lemma pexec_Inst_returns:
  assumes "psound pt" and "a < length (pt_ps pt)" and "inst_call a call" and "client_owns pt call"
  shows "\<exists>pt' out. pexec pt call = Inr (pt', out)"
proof -
  from assms(1) obtain h where "phist pt h" by (auto simp: psound_def)
  then have "pt_owned pt \<subseteq> {..<length (pt_heap pt)}" by (simp add: phist_def psep_def)
  with assms(2-4) show ?thesis by (cases call) (auto simp: with_ps_def Let_def split: prod.splits)
qed

lemma disk_exec_returns:
  assumes ok: "disk_ok d" and pre: "disk_pre d op"
  shows "\<exists>d' u. disk_exec d op = Inr (d', u)"
proof (cases op)
  case (Inst j call)
  with pre have j: "j < length (dk_inst d)" "inst_call (dk_inst d ! j) call" "client_owns (dk_pt d) call" by auto
  have "dk_inst d ! j < length (pt_ps (dk_pt d))" using disk_okD(2) [OF ok] j(1) nth_mem by blast
  from pexec_Inst_returns [OF disk_okD(1) [OF ok] this j(2,3)] show ?thesis by (auto simp: Inst simp del: pexec.simps)
next
  case (Fresh k)
  have "\<forall>a \<in> set_option (dk_saved d k). a < length (pt_ps (dk_pt d))"
    using disk_okD(4) [OF ok, of k] by (cases "dk_saved d k") auto
  from copy_or_make_replaces [OF disk_okD(1) [OF ok] this] Fresh show ?thesis by auto
next
  case (Refresh k)
  with copy_saved_replaces [OF disk_okD(1) [OF ok]] disk_okD(4) [OF ok, of k] show ?thesis
    by (cases "dk_saved d k") (fastforce simp: copy_saved_def simp del: pexec.simps)+
next
  case (Rewrite k)
  with rewrite_saved_replaces [OF disk_okD(1) [OF ok]] disk_okD(4) [OF ok, of k] show ?thesis
    by (cases "dk_saved d k") (fastforce simp: rewrite_saved_def simp del: pexec.simps)+
next
  case (Peek k)
  with pexec_ReadSnapshot [OF disk_okD(1) [OF ok]] disk_okD(4) [OF ok, of k] show ?thesis
    by (cases "dk_saved d k") (fastforce simp del: pexec.simps)+
qed

interpretation diskt: go_machine_total disk_exec disk_ok disk_pre
  by unfold_locales (rule disk_exec_returns)

section \<open>Operations\<close>

datatype cs_act =
    SBase cc_act
  | SConnect nat "nat list"
  | SDisconnect nat "nat list"
  | SClient "nat \<Rightarrow> string" "nat \<Rightarrow> nat" nat "nat list"
  | SConnectClient nat "nat list"
  | SDisconnectClient nat "nat list"
  | SDeleteClient nat
  | SLogSize

fun cs_exec :: "raft_make \<Rightarrow> cconfig \<Rightarrow> cs_act \<Rightarrow> (cconfig \<times> nat option) go" where
  "cs_exec mk cfg (SBase act) = go_bind (cc_exec mk cfg act) (\<lambda>(cfg', _). Inr (cfg', None))"
| "cs_exec mk cfg (SConnect i to) = go_bind (connectUnlocked i to cfg) (\<lambda>cfg'. Inr (cfg', None))"
| "cs_exec mk cfg (SDisconnect i from) = go_bind (disconnectUnlocked i from cfg) (\<lambda>cfg'. Inr (cfg', None))"
| "cs_exec mk cfg (SClient rnd r ck to) = go_bind (makeClient rnd r ck to cfg) (\<lambda>(cfg', _). Inr (cfg', None))"
| "cs_exec mk cfg (SConnectClient ck to) = go_bind (ConnectClientUnlocked ck to cfg) (\<lambda>cfg'. Inr (cfg', None))"
| "cs_exec mk cfg (SDisconnectClient ck from) = go_bind (DisconnectClientUnlocked ck from cfg) (\<lambda>cfg'. Inr (cfg', None))"
| "cs_exec mk cfg (SDeleteClient ck) = Inr (deleteClient ck cfg, None)"
| "cs_exec mk cfg SLogSize = go_bind (LogSize cfg) (\<lambda>size. Inr (cfg, Some size))"

text \<open>What the tests see to: servers and clerks that exist, and new names.\<close>

definition new_names :: "(nat \<Rightarrow> string) \<Rightarrow> cconfig \<Rightarrow> bool" where
  "new_names rnd cfg \<longleftrightarrow> inj_on rnd {..<cc_n cfg} \<and> (\<forall>j < cc_n cfg. net_ends (cc_net cfg) (NStr (rnd j)) = None)"

abbreviation servers_of :: "cconfig \<Rightarrow> nat list \<Rightarrow> bool" where
  "servers_of cfg is \<equiv> set is \<subseteq> {..<cc_n cfg}"

fun cs_pre :: "cconfig \<Rightarrow> cs_act \<Rightarrow> bool" where
  "cs_pre cfg (SBase (CStart i rnd)) \<longleftrightarrow> i < cc_n cfg \<and> new_names rnd cfg"
| "cs_pre cfg (SBase (CShutdown i)) \<longleftrightarrow> i < cc_n cfg"
| "cs_pre cfg (SBase (CPartition p1 p2)) \<longleftrightarrow> servers_of cfg (p1 @ p2) \<and> length p1 \<le> cc_n cfg \<and> length p2 \<le> cc_n cfg"
| "cs_pre cfg (SBase CConnectAll) \<longleftrightarrow> True"
| "cs_pre cfg (SBase (CInst k call)) \<longleftrightarrow> disk_pre (cc_disk cfg) (Inst k call)"
| "cs_pre cfg (SConnect i to) \<longleftrightarrow> i < cc_n cfg \<and> servers_of cfg to"
| "cs_pre cfg (SDisconnect i from) \<longleftrightarrow> i < cc_n cfg \<and> servers_of cfg from \<and> length from \<le> cc_n cfg"
| "cs_pre cfg (SClient rnd r ck to) \<longleftrightarrow> new_names rnd cfg \<and> servers_of cfg to"
| "cs_pre cfg (SConnectClient ck to) \<longleftrightarrow> ck \<in> dom (cc_clerks cfg) \<and> servers_of cfg to"
| "cs_pre cfg (SDisconnectClient ck from) \<longleftrightarrow> ck \<in> dom (cc_clerks cfg) \<and> servers_of cfg from"
| "cs_pre cfg _ \<longleftrightarrow> True"

section \<open>Typing\<close>

definition cs_typed :: "nat \<Rightarrow> cconfig \<Rightarrow> bool" where
  "cs_typed n cfg \<longleftrightarrow> cc_inv n cfg \<and> disk_ok (cc_disk cfg) \<and>
     length (cc_endnames cfg) = n \<and> (\<forall>x \<in> set (cc_endnames cfg). \<exists>ns. x = Some ns \<and> length ns = n) \<and>
     None \<notin> set (cc_saved cfg) \<and> (\<forall>ck ns. cc_clerks cfg ck = Some ns \<longrightarrow> length ns = n)"

lemma cs_typedD:
  assumes "cs_typed n cfg"
  shows "cc_n cfg = n" and "cc_inv n cfg" and "disk_ok (cc_disk cfg)" and "length (cc_endnames cfg) = n"
    and "None \<notin> set (cc_endnames cfg)" and "i < n \<Longrightarrow> \<exists>ns. cc_endnames cfg ! i = Some ns \<and> length ns = n"
    and "None \<notin> set (cc_saved cfg)" and "cc_clerks cfg ck = Some ns \<Longrightarrow> length ns = n"
  using assms by (auto simp: cs_typed_def cc_inv_def)

lemma cs_typed_net [simp]: "cs_typed n (cfg\<lparr>cc_net := net\<rparr>) = cs_typed n cfg"
  by (simp add: cs_typed_def cc_inv_def)

lemma typed_endname:
  assumes "cs_typed n cfg" and "i < n" and "j < n"
  shows "\<exists>e. endname_at (cc_endnames cfg) i j = Inr e"
  using cs_typedD(4) [OF assms(1)] cs_typedD(6) [OF assms(1,2)] assms(2,3) by (auto simp: endname_at_def go_nth_def)

lemma enable_ends_returns:
  assumes "\<forall>j \<in> set js. \<exists>e. name j = Inr e"
  shows "\<exists>net'. enable_ends (\<lambda>_. True) name b js net = Inr net'"
proof -
  have "\<forall>j \<in> set js. True \<longrightarrow> name j = Inr (projr (name j))" using assms by auto
  from enable_ends_result [OF this, of b net] show ?thesis by blast
qed

text \<open>The operations on ends succeed and change the network only.\<close>

lemma connectUnlocked_typed:
  assumes "cs_typed n cfg" and "i < n" and "set to \<subseteq> {..<n}"
  shows "\<exists>net. connectUnlocked i to cfg = Inr (cfg\<lparr>cc_net := net\<rparr>)"
proof -
  obtain net1 where 1: "enable_ends (\<lambda>_. True) (\<lambda>j. endname_at (cc_endnames cfg) i j) True to (cc_net cfg) = Inr net1"
    using enable_ends_returns [of to "endname_at (cc_endnames cfg) i"] typed_endname [OF assms(1,2)] assms(3) by blast
  obtain net2 where 2: "enable_ends (\<lambda>_. True) (\<lambda>j. endname_at (cc_endnames cfg) j i) True to net1 = Inr net2"
    using enable_ends_returns [of to "\<lambda>j. endname_at (cc_endnames cfg) j i"] typed_endname [OF assms(1) _ assms(2)] assms(3) by blast
  from 1 2 show ?thesis by (auto simp: connectUnlocked_def)
qed

lemma disconnectUnlocked_typed:
  assumes typed: "cs_typed n cfg" and i: "i < n" and frm: "set from \<subseteq> {..<n}" "length from \<le> n"
  shows "\<exists>net. disconnectUnlocked i from cfg = Inr (cfg\<lparr>cc_net := net\<rparr>)"
proof -
  note len = cs_typedD(4,5) [OF typed]
  have "cc_endnames cfg ! i \<noteq> None" using cs_typedD(6) [OF typed i] by auto
  with len i frm have eq: "disconnect_out (cc_endnames cfg) i from net = enable_ends (\<lambda>_. True) (endname_at (cc_endnames cfg) i) False from net"
      "disconnect_in (cc_endnames cfg) i 0 from net = enable_ends (\<lambda>_. True) (\<lambda>f. endname_at (cc_endnames cfg) f i) False from net" for net
    by (simp_all add: disconnect_out_eq disconnect_in_eq)
  obtain net1 where 1: "enable_ends (\<lambda>_. True) (endname_at (cc_endnames cfg) i) False from (cc_net cfg) = Inr net1"
    using enable_ends_returns [of "from" "endname_at (cc_endnames cfg) i"] typed_endname [OF typed i] frm(1) by blast
  obtain net2 where 2: "enable_ends (\<lambda>_. True) (\<lambda>j. endname_at (cc_endnames cfg) j i) False from net1 = Inr net2"
    using enable_ends_returns [of "from" "\<lambda>j. endname_at (cc_endnames cfg) j i"] typed_endname [OF typed _ i] frm(1) by blast
  from 1 2 show ?thesis by (auto simp: disconnectUnlocked_def eq)
qed

lemma partition_side_typed:
  assumes "set own \<subseteq> {..<n}" and "set other \<subseteq> {..<n}" and "length other \<le> n"
  shows "cs_typed n cfg \<Longrightarrow> set is \<subseteq> {..<n} \<Longrightarrow> \<exists>net. partition_side own other is cfg = Inr (cfg\<lparr>cc_net := net\<rparr>)"
proof (induction "is" arbitrary: cfg)
  case Nil
  then show ?case by (auto intro: exI [of _ "cc_net cfg"])
next
  case (Cons i "is")
  then have i: "i < n" by simp
  obtain net1 where 1: "disconnectUnlocked i other cfg = Inr (cfg\<lparr>cc_net := net1\<rparr>)"
    using disconnectUnlocked_typed [OF Cons.prems(1) i assms(2,3)] by blast
  obtain net2 where 2: "connectUnlocked i own (cfg\<lparr>cc_net := net1\<rparr>) = Inr (cfg\<lparr>cc_net := net2\<rparr>)"
    using connectUnlocked_typed [of n "cfg\<lparr>cc_net := net1\<rparr>" i own] Cons.prems(1) i assms(1) by auto
  from Cons.IH [of "cfg\<lparr>cc_net := net2\<rparr>"] Cons.prems 1 2 show ?case by auto
qed

lemma connect_each_typed:
  "cs_typed n cfg \<Longrightarrow> set is \<subseteq> {..<n} \<Longrightarrow> \<exists>net. connect_each is cfg = Inr (cfg\<lparr>cc_net := net\<rparr>)"
proof (induction "is" arbitrary: cfg)
  case Nil
  then show ?case by (auto intro: exI [of _ "cc_net cfg"])
next
  case (Cons i "is")
  have "set (All cfg) \<subseteq> {..<n}" using cs_typedD(1) [OF Cons.prems(1)] by (auto simp: All_def)
  with connectUnlocked_typed [OF Cons.prems(1), of i "All cfg"] Cons.prems(2) obtain net1
    where "connectUnlocked i (All cfg) cfg = Inr (cfg\<lparr>cc_net := net1\<rparr>)" by auto
  with Cons.IH [of "cfg\<lparr>cc_net := net1\<rparr>"] Cons.prems show ?case by auto
qed


lemma new_names_ends:
  assumes "new_names rnd cfg"
  shows "\<exists>net ends. make_ends rnd srv en [0..<cc_n cfg] (cc_net cfg) = Inr (net, ends)"
  using make_ends_result [of "[0..<cc_n cfg]" rnd "cc_net cfg" srv en] assms by (auto simp: new_names_def atLeast0LessThan)

lemma typed_saved:
  assumes "cs_typed n cfg" and "i < n"
  obtains a where "cc_saved cfg ! i = Some a" "a < length (pt_ps (cc_pt cfg))" "psound (cc_pt cfg)"
proof -
  have len: "length (cc_saved cfg) = n" using cs_typedD(2) [OF assms(1)] by (simp add: cc_inv_def)
  with assms cs_typedD(7) [OF assms(1)] obtain a where a: "cc_saved cfg ! i = Some a" by (metis not_None_eq nth_mem)
  note ok = cs_typedD(3) [OF assms(1)]
  have "dk_saved (cc_disk cfg) i = Some a" using a len assms(2) by (simp add: cc_disk_def at_slot_def)
  from disk_okD(4) [OF ok this] disk_okD(1) [OF ok] a show thesis by (intro that) (simp_all add: cc_disk_def)
qed

lemma tester_StartServer_typed:
  assumes typed: "cs_typed n cfg" and i: "i < n" and new: "new_names rnd cfg"
  shows "\<exists>cfg'. tester_StartServer mk rnd i cfg = Inr cfg' \<and> cs_typed n cfg'"
proof -
  have n: "cc_n cfg = n" and lens: "length (cc_saved cfg) = n" "length (cc_servers cfg) = n" "length (cc_endnames cfg) = n"
    using typed by (auto simp: cs_typed_def cc_inv_def)
  obtain a where a: "cc_saved cfg ! i = Some a" "a < length (pt_ps (cc_pt cfg))" "psound (cc_pt cfg)"
    using typed_saved [OF typed i] .
  obtain net ends where "make_ends rnd (\<lambda>j. NInt (int j)) False [0..<cc_n cfg] (cc_net cfg) = Inr (net, ends)"
    using new_names_ends [OF new] by blast
  moreover obtain pt b where "copy_or_make (cc_pt cfg) (Some a) = Inr (pt, b)"
    using copy_or_make_replaces [OF a(3), of "Some a"] a(2) by auto
  ultimately obtain cfg' where start: "tester_StartServer mk rnd i cfg = Inr cfg'"
    and fields: "cc_endnames cfg' = (cc_endnames cfg)[i := Some (map rnd [0..<n])]" "cc_saved cfg' = (cc_saved cfg)[i := Some b]"
      "cc_clerks cfg' = cc_clerks cfg"
    using i lens a(1) n by (simp add: tester_StartServer_def go_update_def go_nth_def)
  note disk = StartServer_disk [OF start cs_typedD(2) [OF typed]]
  have "disk_ok (cc_disk cfg')"
  proof -
    obtain us where "go_run disk_exec (cc_disk cfg) [Fresh i] = Inr (cc_disk cfg', us)" using disk(1) by blast
    moreover have "go_allowed disk_exec disk_pre (cc_disk cfg) [Fresh i]" by (simp split: sum.splits)
    ultimately show ?thesis using disk.run_invar [OF cs_typedD(3) [OF typed]] by blast
  qed
  moreover have "\<forall>x \<in> set (cc_endnames cfg'). \<exists>ns. x = Some ns \<and> length ns = n"
    using typed unfolding fields by (auto simp: cs_typed_def dest!: set_update_subset_insert [THEN subsetD])
  moreover have "None \<notin> set (cc_saved cfg')"
    using cs_typedD(7) [OF typed] unfolding fields by (auto dest!: set_update_subset_insert [THEN subsetD])
  ultimately have "cs_typed n cfg'"
    using disk(2) typed fields lens by (simp add: cs_typed_def)
  with start show ?thesis by blast
qed

lemma ShutdownServer_typed:
  assumes typed: "cs_typed n cfg" and i: "i < n"
  shows "\<exists>cfg'. ShutdownServer i cfg = Inr cfg' \<and> cs_typed n cfg'"
proof -
  have n: "cc_n cfg = n" and lens: "length (cc_saved cfg) = n" "length (cc_servers cfg) = n"
    using typed by (auto simp: cs_typed_def cc_inv_def)
  have "set (All cfg) \<subseteq> {..<n}" "length (All cfg) \<le> n" by (auto simp: All_def n)
  with disconnectUnlocked_typed [OF typed i] obtain net where dis: "disconnectUnlocked i (All cfg) cfg = Inr (cfg\<lparr>cc_net := net\<rparr>)"
    by blast
  obtain a where a: "cc_saved cfg ! i = Some a" "a < length (pt_ps (cc_pt cfg))" "psound (cc_pt cfg)"
    using typed_saved [OF typed i] .
  obtain pt b where copy: "copy_saved (cc_pt cfg) (Some a) = Inr (pt, Some b)"
    using copy_saved_replaces [OF a(3,2)] by blast
  obtain cfg' where shut: "ShutdownServer i cfg = Inr cfg'"
    and fields: "cc_endnames cfg' = cc_endnames cfg" "cc_saved cfg' = (cc_saved cfg)[i := Some b]" "cc_clerks cfg' = cc_clerks cfg"
    using i lens a(1) n dis copy
    by (cases "cc_servers cfg ! i") (simp_all add: ShutdownServer_def go_nth_def Let_def split_beta)
  note disk = ShutdownServer_disk [OF shut cs_typedD(2) [OF typed]]
  have "disk_ok (cc_disk cfg')"
  proof -
    obtain us where "go_run disk_exec (cc_disk cfg) [Refresh i] = Inr (cc_disk cfg', us)" using disk(1) by blast
    moreover have "go_allowed disk_exec disk_pre (cc_disk cfg) [Refresh i]" by (simp split: sum.splits)
    ultimately show ?thesis using disk.run_invar [OF cs_typedD(3) [OF typed]] by blast
  qed
  moreover have "None \<notin> set (cc_saved cfg')"
    using cs_typedD(7) [OF typed] unfolding fields by (auto dest!: set_update_subset_insert [THEN subsetD])
  ultimately have "cs_typed n cfg'"
    using disk(2) typed fields by (simp add: cs_typed_def)
  with shut show ?thesis by blast
qed

lemma client_ends_typed:
  assumes "cs_typed n cfg" and "cc_clerks cfg ck = Some ns" and "set js \<subseteq> {..<n}"
  shows "\<exists>net. enable_ends (\<lambda>_. True) (client_name cfg ck) b js (cc_net cfg) = Inr net"
  by (rule enable_ends_returns)
    (use assms cs_typedD(8) [OF assms(1,2)] in \<open>auto simp: client_name_def go_nth_def subset_iff\<close>)

lemma makeClient_typed:
  assumes typed: "cs_typed n cfg" and new: "new_names rnd cfg" and to: "set to \<subseteq> {..<n}"
  shows "\<exists>cfg' ends. makeClient rnd r ck to cfg = Inr (cfg', ends) \<and> cs_typed n cfg'"
proof -
  have n: "cc_n cfg = n" using cs_typedD(1) [OF typed] .
  obtain net ends where made: "make_ends rnd (\<lambda>j. NInt (int j)) False [0..<cc_n cfg] (cc_net cfg) = Inr (net, ends)"
    using new_names_ends [OF new] by blast
  let ?cfg = "cfg\<lparr>cc_net := net, cc_clerks := (cc_clerks cfg)(ck \<mapsto> map rnd [0..<cc_n cfg]), cc_nextClientId := cc_nextClientId cfg + 1\<rparr>"
  have typed1: "cs_typed n ?cfg" using typed by (auto simp: cs_typed_def cc_inv_def cc_disk_def n)
  obtain net' where "enable_ends (\<lambda>_. True) (client_name ?cfg ck) True to (cc_net ?cfg) = Inr net'"
    using client_ends_typed [OF typed1 _ to, of ck] by auto
  moreover have "cs_typed n (?cfg\<lparr>cc_net := net'\<rparr>)" using typed1 cs_typed_net by blast
  ultimately show ?thesis using made by (simp add: makeClient_def ConnectClientUnlocked_def)
qed

lemma max_size_returns: "None \<notin> set xs \<Longrightarrow> \<exists>m. max_size pt xs k = Inr m"
  by (induction pt xs k rule: max_size.induct) (auto simp: Let_def)


section \<open>Sequences of operations\<close>

lemma pexec_disk:
  assumes "pexec (cc_pt cfg) call = Inr (pt, out)"
  shows "disk_exec (cc_disk cfg) (Inst k call) = Inr (cc_disk (cfg\<lparr>cc_pt := pt\<rparr>), ())"
  using assms by (simp add: cc_disk_def)

lemma CInst_typed:
  assumes typed: "cs_typed n cfg" and pre: "disk_pre (cc_disk cfg) (Inst k call)"
  shows "\<exists>pt out. pexec (cc_pt cfg) call = Inr (pt, out) \<and> cs_typed n (cfg\<lparr>cc_pt := pt\<rparr>)"
proof -
  note ok = cs_typedD(3) [OF typed]
  obtain pt out where run: "pexec (cc_pt cfg) call = Inr (pt, out)"
    using disk_exec_returns [OF ok pre] by (auto simp: cc_disk_def go_bind_Inr simp del: pexec.simps)
  have "disk_ok (cc_disk (cfg\<lparr>cc_pt := pt\<rparr>))"
    using disk.exec_invar [OF ok pre pexec_disk [OF run]] .
  then have "cs_typed n (cfg\<lparr>cc_pt := pt\<rparr>)" using typed by (simp add: cs_typed_def cc_inv_def)
  with run show ?thesis by blast
qed

lemma cs_base_sound:
  assumes typed: "cs_typed n cfg" and pre: "cs_pre cfg (SBase act)"
  shows "\<exists>cfg'. cc_exec mk cfg act = Inr (cfg', ()) \<and> cs_typed n cfg'"
proof -
  note n = cs_typedD(1) [OF typed]
  show ?thesis
  proof (cases act)
    case (CStart i rnd)
    with tester_StartServer_typed [OF typed, of i rnd mk] pre n show ?thesis by auto
  next
    case (CShutdown i)
    with ShutdownServer_typed [OF typed, of i] pre n show ?thesis by auto
  next
    case (CPartition p1 p2)
    with pre n have p: "set p1 \<subseteq> {..<n}" "set p2 \<subseteq> {..<n}" "length p1 \<le> n" "length p2 \<le> n" by auto
    obtain net1 where "partition_side p1 p2 p1 cfg = Inr (cfg\<lparr>cc_net := net1\<rparr>)"
      using partition_side_typed [OF p(1,2,4) typed p(1)] by blast
    moreover obtain net2 where "partition_side p2 p1 p2 (cfg\<lparr>cc_net := net1\<rparr>) = Inr (cfg\<lparr>cc_net := net2\<rparr>)"
      using partition_side_typed [OF p(2,1,3), of "cfg\<lparr>cc_net := net1\<rparr>" p2] typed p(2) by auto
    ultimately show ?thesis using typed by (simp add: CPartition partition_net_def)
  next
    case CConnectAll
    obtain net where "connect_each [0..<cc_n cfg] cfg = Inr (cfg\<lparr>cc_net := net\<rparr>)"
      using connect_each_typed [OF typed, of "[0..<cc_n cfg]"] n by (auto simp: atLeast0LessThan)
    with typed show ?thesis by (simp add: CConnectAll ConnectAll_def)
  next
    case (CInst k call)
    with CInst_typed [OF typed, of k call] pre show ?thesis by (auto simp del: pexec.simps disk_pre.simps)
  qed
qed

lemma cs_exec_sound:
  assumes typed: "cs_typed n cfg" and pre: "cs_pre cfg act"
  shows "\<exists>cfg' out. cs_exec mk cfg act = Inr (cfg', out) \<and> cs_typed n cfg'"
proof -
  note n = cs_typedD(1) [OF typed]
  show ?thesis
  proof (cases act)
    case (SBase a)
    with cs_base_sound [OF typed, of a mk] pre show ?thesis by auto
  next
    case (SConnect i to)
    with connectUnlocked_typed [OF typed, of i to] pre n typed show ?thesis by auto
  next
    case (SDisconnect i frm)
    with disconnectUnlocked_typed [OF typed, of i frm] pre n typed show ?thesis by auto
  next
    case (SClient rnd r ck to)
    with makeClient_typed [OF typed, of rnd to r ck] pre n show ?thesis by fastforce
  next
    case (SConnectClient ck to)
    with client_ends_typed [OF typed, of ck _ to True] pre n typed show ?thesis
      by (auto simp: ConnectClientUnlocked_def)
  next
    case (SDisconnectClient ck frm)
    with client_ends_typed [OF typed, of ck _ frm False] pre n typed show ?thesis
      by (auto simp: DisconnectClientUnlocked_def)
  next
    case (SDeleteClient ck)
    with typed show ?thesis by (auto simp: deleteClient_def cs_typed_def cc_inv_def cc_disk_def)
  next
    case SLogSize
    have "None \<notin> set (take (cc_n cfg) (cc_saved cfg))" using cs_typedD(7) [OF typed] in_set_takeD by metis
    from max_size_returns [OF this, of "cc_pt cfg" 0] obtain m where "LogSize cfg = Inr m" by (auto simp: LogSize_def)
    with typed SLogSize show ?thesis by simp
  qed
qed

interpretation cst: go_machine_total "cs_exec mk" "cs_typed n" cs_pre for mk n
proof unfold_locales
  fix s x s' out assume "cs_typed n s" "cs_pre s x" "cs_exec mk s x = Inr (s', out)"
  with cs_exec_sound [of n s x mk] show "cs_typed n s'" by auto
next
  fix s x assume "cs_typed n s" "cs_pre s x"
  with cs_exec_sound [of n s x mk] show "\<exists>s' out. cs_exec mk s x = Inr (s', out)" by blast
qed

section \<open>The configuration that \<^verbatim>\<open>make_config\<close> makes\<close>

lemma start_each_disk:
  "start_each mk rnd is cfg = Inr cfg' \<Longrightarrow> cc_inv n cfg \<Longrightarrow> disk_ok (cc_disk cfg) \<Longrightarrow>
   cc_inv n cfg' \<and> disk_ok (cc_disk cfg') \<and> cc_clerks cfg' = cc_clerks cfg"
proof (induction "is" arbitrary: cfg)
  case (Cons i "is")
  then obtain cfg1 where start: "tester_StartServer mk (rnd i) i cfg = Inr cfg1"
    and more: "start_each mk rnd is cfg1 = Inr cfg'" by (auto simp: go_bind_Inr)
  note disk = StartServer_disk [OF start Cons.prems(2)]
  obtain us where "go_run disk_exec (cc_disk cfg) [Fresh i] = Inr (cc_disk cfg1, us)" using disk(1) by blast
  moreover have "go_allowed disk_exec disk_pre (cc_disk cfg) [Fresh i]" by (simp split: sum.splits)
  ultimately have "disk_ok (cc_disk cfg1)" using disk.run_invar [OF Cons.prems(3)] by blast
  moreover have "cc_clerks cfg1 = cc_clerks cfg"
    using start by (auto simp: tester_StartServer_def go_bind_Inr Let_def)
  ultimately show ?case using Cons.IH [OF more disk(2)] by simp
qed simp

lemma make_config_typed:
  assumes inj: "inj_on (\<lambda>(i, j). rnd i j) ({..<n} \<times> {..<n})" and made: "make_config mk rnd n unreliable = Inr cfg"
  shows "cs_typed n cfg"
proof -
  obtain cfg1 where c1: "start_each mk rnd [0..<n] (bare_config n) = Inr cfg1" and st: "started rnd n n cfg1"
    using start_each_result [OF inj le0 started_bare] by blast
  have d: "cc_inv n cfg1" "disk_ok (cc_disk cfg1)" "cc_clerks cfg1 = Map.empty"
    using start_each_disk [OF c1 bare_inv bare_disk_ok] by (simp_all add: bare_config_def)
  have "cc_saved cfg1 ! i \<noteq> None" if "i < n" for i
  proof -
    have "dk_live (cc_disk cfg1) i = Some i" using st that by (simp add: started_def cc_disk_def at_slot_def)
    from disk_okD(7) [OF d(2) this] that d(1) show ?thesis by (simp add: cc_disk_def at_slot_def cc_inv_def)
  qed
  with d(1) have "None \<notin> set (cc_saved cfg1)" by (auto simp: in_set_conv_nth cc_inv_def)
  with d st have typed: "cs_typed n cfg1" by (auto simp: cs_typed_def started_def)
  have "[0..<cc_n cfg1] = [0..<n]" using st by (simp add: started_def)
  with connect_each_typed [OF typed, of "[0..<n]"] obtain net where "ConnectAll cfg1 = Inr (cfg1\<lparr>cc_net := net\<rparr>)"
    by (auto simp: ConnectAll_def atLeast0LessThan)
  with made c1 typed show ?thesis by (auto simp: make_config_def)
qed



definition example_session :: "cs_act list" where
  "example_session = [SClient (example_names 9) (\<lambda>_. 1) 0 [0], SBase (CShutdown 0), SBase (CStart 0 (example_names 8)),
     SConnect 0 [0], SDisconnectClient 0 [0], SDeleteClient 0, SLogSize]"


end
