(* ===== verification/ShardKV_Clerk.thy ===== *)
theory ShardKV_Clerk
  imports ShardCtrler
begin

text \<open>
  The clerk of the sharded key/value service, \<^verbatim>\<open>src/shardkv/client.go\<close>, with the data of
  \<^verbatim>\<open>common.go\<close>. The environment is given by \<open>query\<close>, the configuration that the \<open>i\<close>-th question to
  the shard controller returns, and \<open>call k srv args\<close>, the outcome of the \<open>k\<close>-th RPC, None when no
  reply came. The endless loop runs on fuel, one unit for each configuration it uses.

  Shown here: every key has a shard below \<^verbatim>\<open>NShards\<close>; an answer comes from a server of the group that
  the configuration makes responsible for the key; and the operations end once a configuration
  names a group that serves the key.
\<close>

section \<open>Data\<close>

type_synonym Err = string

abbreviation "OK \<equiv> ''OK''"
abbreviation "ErrNoKey \<equiv> ''ErrNoKey''"
abbreviation "ErrWrongGroup \<equiv> ''ErrWrongGroup''"
abbreviation "ErrWrongLeader \<equiv> ''ErrWrongLeader''"

record PutAppendArgs =
  pa_Key :: string
  pa_Value :: string
  pa_Op :: string
  pa_ClientId :: int
  pa_TimeStamp :: int

record PutAppendReply =
  pr_Config :: Config
  pr_Err :: Err

record GetArgs =
  ga_Key :: string
  ga_ClientId :: int
  ga_TimeStamp :: int

record GetReply =
  gr_Err :: Err
  gr_Value :: string

record KVClerk =
  kc_config :: Config
  kc_clientID :: int

definition key2shard :: "string \<Rightarrow> nat" where
  "key2shard key =
     (let shard = (if 0 < length key then of_char (key ! 0) else 0) in shard mod NShards)"

text \<open>The servers of the group in charge of a key; None when the configuration has no such group.\<close>

definition group_of :: "Config \<Rightarrow> string \<Rightarrow> string list option" where
  "group_of cfg key = Groups cfg (Shards cfg ! key2shard key)"

section \<open>Get\<close>

text \<open>
  The loop over the servers of a group, from call number \<open>k\<close> on: the number of the next call and
  the value, None when the loop ran out of servers or broke off at a server of the wrong group.
\<close>

fun Get_servers ::
    "(nat \<Rightarrow> string \<Rightarrow> GetArgs \<Rightarrow> GetReply option) \<Rightarrow> GetArgs \<Rightarrow> string list \<Rightarrow> nat \<Rightarrow> nat \<times> string option" where
  "Get_servers call args [] k = (k, None)"
| "Get_servers call args (srv # rest) k =
     (case call k srv args of
        Some reply \<Rightarrow>
          if gr_Err reply = OK \<or> gr_Err reply = ErrNoKey then (k + 1, Some (gr_Value reply))
          else if gr_Err reply = ErrWrongGroup then (k + 1, None)
          else Get_servers call args rest (k + 1)
      | None \<Rightarrow> Get_servers call args rest (k + 1))"

fun Get_loop ::
    "nat \<Rightarrow> (nat \<Rightarrow> Config) \<Rightarrow> (nat \<Rightarrow> string \<Rightarrow> GetArgs \<Rightarrow> GetReply option) \<Rightarrow> GetArgs \<Rightarrow> string \<Rightarrow>
     KVClerk \<Rightarrow> nat \<Rightarrow> nat \<Rightarrow> (KVClerk \<times> string) option" where
  "Get_loop 0 query call args key ck i k = None"
| "Get_loop (Suc fuel) query call args key ck i k =
     (let (k1, r) = (case group_of (kc_config ck) key of
                       Some servers \<Rightarrow> Get_servers call args servers k
                     | None \<Rightarrow> (k, None))
      in case r of
           Some v \<Rightarrow> Some (ck, v)
         | None \<Rightarrow> Get_loop fuel query call args key (ck\<lparr>kc_config := query i\<rparr>) (i + 1) k1)"

definition Get ::
    "nat \<Rightarrow> int \<Rightarrow> (nat \<Rightarrow> Config) \<Rightarrow> (nat \<Rightarrow> string \<Rightarrow> GetArgs \<Rightarrow> GetReply option) \<Rightarrow> KVClerk \<Rightarrow> string \<Rightarrow>
     (KVClerk \<times> string) option" where
  "Get fuel now query call ck key =
     (let args = \<lparr>ga_Key = key, ga_ClientId = kc_clientID ck, ga_TimeStamp = now\<rparr>
      in Get_loop fuel query call args key (ck\<lparr>kc_config := query 0\<rparr>) 1 0)"

section \<open>Put and Append\<close>

fun PutAppend_servers ::
    "(nat \<Rightarrow> string \<Rightarrow> PutAppendArgs \<Rightarrow> PutAppendReply option) \<Rightarrow> PutAppendArgs \<Rightarrow> string list \<Rightarrow> nat \<Rightarrow> nat \<times> bool" where
  "PutAppend_servers call args [] k = (k, False)"
| "PutAppend_servers call args (srv # rest) k =
     (case call k srv args of
        Some reply \<Rightarrow>
          if pr_Err reply = OK then (k + 1, True)
          else if pr_Err reply = ErrWrongGroup then (k + 1, False)
          else PutAppend_servers call args rest (k + 1)
      | None \<Rightarrow> PutAppend_servers call args rest (k + 1))"

fun PutAppend_loop ::
    "nat \<Rightarrow> (nat \<Rightarrow> Config) \<Rightarrow> (nat \<Rightarrow> string \<Rightarrow> PutAppendArgs \<Rightarrow> PutAppendReply option) \<Rightarrow> PutAppendArgs \<Rightarrow>
     string \<Rightarrow> KVClerk \<Rightarrow> nat \<Rightarrow> nat \<Rightarrow> KVClerk option" where
  "PutAppend_loop 0 query call args key ck i k = None"
| "PutAppend_loop (Suc fuel) query call args key ck i k =
     (let (k1, done) = (case group_of (kc_config ck) key of
                          Some servers \<Rightarrow> PutAppend_servers call args servers k
                        | None \<Rightarrow> (k, False))
      in if done then Some ck
         else PutAppend_loop fuel query call args key (ck\<lparr>kc_config := query i\<rparr>) (i + 1) k1)"

definition PutAppend ::
    "nat \<Rightarrow> int \<Rightarrow> (nat \<Rightarrow> Config) \<Rightarrow> (nat \<Rightarrow> string \<Rightarrow> PutAppendArgs \<Rightarrow> PutAppendReply option) \<Rightarrow> KVClerk \<Rightarrow>
     string \<Rightarrow> string \<Rightarrow> string \<Rightarrow> KVClerk option" where
  "PutAppend fuel now query call ck key value op =
     (let args = \<lparr>pa_Key = key, pa_Value = value, pa_Op = op, pa_ClientId = kc_clientID ck, pa_TimeStamp = now\<rparr>
      in PutAppend_loop fuel query call args key (ck\<lparr>kc_config := query 0\<rparr>) 1 0)"

definition Put where
  "Put fuel now query call ck key value = PutAppend fuel now query call ck key value ''Put''"

definition Append where
  "Append fuel now query call ck key value = PutAppend fuel now query call ck key value ''Append''"

section \<open>Shards\<close>

lemma key2shard_less: "key2shard key < NShards"
  by (simp add: key2shard_def NShards_def)

section \<open>Soundness and progress of the clerk\<close>

lemma Get_servers_sound:
  "Get_servers call args srvs k = (k1, Some v) \<Longrightarrow>
     \<exists>j srv reply. k \<le> j \<and> srv \<in> set srvs \<and> call j srv args = Some reply \<and>
       gr_Err reply \<in> {OK, ErrNoKey} \<and> v = gr_Value reply"
proof (induction srvs arbitrary: k)
  case (Cons srv rest)
  show ?case
  proof (cases "Get_servers call args rest (k + 1) = (k1, Some v)")
    case True
    from Cons.IH [OF this] obtain j srv' reply where "k + 1 \<le> j" and "srv' \<in> set rest"
      and "call j srv' args = Some reply \<and> gr_Err reply \<in> {OK, ErrNoKey} \<and> v = gr_Value reply" by blast
    then show ?thesis by (intro exI [of _ j] exI [of _ srv'] exI [of _ reply]) simp
  next
    case False
    with Cons.prems obtain reply where "call k srv args = Some reply" and "gr_Err reply \<in> {OK, ErrNoKey}"
      and "v = gr_Value reply"
      by (auto split: option.splits if_splits)
    then show ?thesis by (intro exI [of _ k] exI [of _ srv] exI [of _ reply]) simp
  qed
qed simp

lemma Get_loop_sound:
  "Get_loop fuel query call args key ck i k = Some (ck', v) \<Longrightarrow>
     (kc_config ck' = kc_config ck \<or> (\<exists>j \<ge> i. kc_config ck' = query j)) \<and>
     (\<exists>srvs j srv reply. group_of (kc_config ck') key = Some srvs \<and> srv \<in> set srvs \<and>
        call j srv args = Some reply \<and> gr_Err reply \<in> {OK, ErrNoKey} \<and> v = gr_Value reply)"
proof (induction fuel arbitrary: ck i k)
  case (Suc fuel)
  obtain k1 r where round: "(case group_of (kc_config ck) key of
      Some srvs \<Rightarrow> Get_servers call args srvs k | None \<Rightarrow> (k, None)) = (k1, r)" by fastforce
  show ?case
  proof (cases r)
    case None
    with Suc.prems round have "Get_loop fuel query call args key (ck\<lparr>kc_config := query i\<rparr>) (i + 1) k1 = Some (ck', v)"
      by simp
    from Suc.IH [OF this] show ?thesis by (auto intro: Suc_leD)
  next
    case (Some w)
    with Suc.prems round have ck': "ck' = ck" and w: "w = v" by simp_all
    from round Some obtain srvs where "group_of (kc_config ck) key = Some srvs"
      and "Get_servers call args srvs k = (k1, Some v)"
      using w by (auto split: option.splits)
    with Get_servers_sound ck' show ?thesis by blast
  qed
qed simp

text \<open>The configuration used in the \<open>n\<close>-th turn of the loop from here.\<close>

definition config_at :: "(nat \<Rightarrow> Config) \<Rightarrow> KVClerk \<Rightarrow> nat \<Rightarrow> nat \<Rightarrow> Config" where
  "config_at query ck i n = (if n = 0 then kc_config ck else query (i + n - 1))"

lemma config_at_next: "config_at query (ck\<lparr>kc_config := query i\<rparr>) (i + 1) n = config_at query ck i (Suc n)"
  by (simp add: config_at_def)

lemma config_at_start: "config_at query (ck\<lparr>kc_config := query 0\<rparr>) 1 n = query n"
  by (simp add: config_at_def)

lemma Get_loop_progress:
  assumes serves: "\<forall>k. \<exists>reply. call k srv args = Some reply \<and> gr_Err reply \<in> {OK, ErrNoKey}"
  shows "n < fuel \<Longrightarrow> group_of (config_at query ck i n) key = Some (srv # srvs) \<Longrightarrow>
     \<exists>ck' v. Get_loop fuel query call args key ck i k = Some (ck', v)"
proof (induction n arbitrary: fuel ck i k)
  case 0
  then obtain fuel' where fuel: "fuel = Suc fuel'" by (cases fuel) auto
  from serves obtain reply where "call k srv args = Some reply" and "gr_Err reply \<in> {OK, ErrNoKey}" by blast
  with 0 fuel show ?case by (auto simp: config_at_def)
next
  case (Suc n)
  then obtain fuel' where fuel: "fuel = Suc fuel'" by (cases fuel) auto
  have next_rounds: "\<exists>ck' v. Get_loop fuel' query call args key (ck\<lparr>kc_config := query i\<rparr>) (i + 1) k1 = Some (ck', v)" for k1
    by (rule Suc.IH) (use Suc.prems fuel config_at_next in simp_all)
  obtain k1 r where "(case group_of (kc_config ck) key of
      Some srvs \<Rightarrow> Get_servers call args srvs k | None \<Rightarrow> (k, None)) = (k1, r)" by fastforce
  then show ?case using next_rounds [of k1] fuel by (cases r) auto
qed

text \<open>
  A value returned by \<^verbatim>\<open>Get\<close> is the value in a successful or no-such-key reply, to a request for
  this key, of a server of the group that the configuration the clerk holds at the end makes
  responsible for the key's shard. And if some configuration the controller returns names a group
  whose first server serves the key, \<^verbatim>\<open>Get\<close> returns: fuel beyond the number of that configuration is
  enough.
\<close>

theorem Get_sound_and_returns:
  assumes "args = \<lparr>ga_Key = key, ga_ClientId = kc_clientID ck, ga_TimeStamp = now\<rparr>"
  shows "(\<forall>ck' v. Get fuel now query call ck key = Some (ck', v) \<longrightarrow>
       (\<exists>i. kc_config ck' = query i) \<and>
       (\<exists>srvs j srv reply. group_of (kc_config ck') key = Some srvs \<and> srv \<in> set srvs \<and>
          call j srv args = Some reply \<and> gr_Err reply \<in> {OK, ErrNoKey} \<and> v = gr_Value reply)) \<and>
     (\<forall>n srv srvs. n < fuel \<longrightarrow> group_of (query n) key = Some (srv # srvs) \<longrightarrow>
       (\<forall>k. \<exists>reply. call k srv args = Some reply \<and> gr_Err reply \<in> {OK, ErrNoKey}) \<longrightarrow>
       (\<exists>ck' v. Get fuel now query call ck key = Some (ck', v)))"
proof (intro conjI allI impI)
  fix ck' v
  assume "Get fuel now query call ck key = Some (ck', v)"
  then have "Get_loop fuel query call args key (ck\<lparr>kc_config := query 0\<rparr>) 1 0 = Some (ck', v)"
    using assms by (simp add: Get_def)
  from Get_loop_sound [OF this]
  show "\<exists>i. kc_config ck' = query i"
    and "\<exists>srvs j srv reply. group_of (kc_config ck') key = Some srvs \<and> srv \<in> set srvs \<and>
          call j srv args = Some reply \<and> gr_Err reply \<in> {OK, ErrNoKey} \<and> v = gr_Value reply"
    by auto
next
  fix n srv srvs
  assume n: "n < fuel" and group: "group_of (query n) key = Some (srv # srvs)"
    and serves: "\<forall>k. \<exists>reply. call k srv args = Some reply \<and> gr_Err reply \<in> {OK, ErrNoKey}"
  have "\<exists>ck' v. Get_loop fuel query call args key (ck\<lparr>kc_config := query 0\<rparr>) 1 0 = Some (ck', v)"
    by (rule Get_loop_progress [where call = call and args = args and srv = srv, OF serves n]) (use group in \<open>simp only: config_at_start\<close>)
  with assms
  show "\<exists>ck' v. Get fuel now query call ck key = Some (ck', v)" by (simp add: Get_def)
qed

definition example_kv_config :: Config where
  "example_kv_config = \<lparr>Num = 1, Shards = replicate NShards 7, Groups = [7 \<mapsto> [''s1'', ''s2'']]\<rparr>"

lemma Get_sound_and_returns_witness:
  "\<exists>ck' v srvs j srv reply. Get 2 5 (\<lambda>i. if i = 0 then initial_config else example_kv_config)
       (\<lambda>k srv args. Some \<lparr>gr_Err = OK, gr_Value = ''x''\<rparr>)
       \<lparr>kc_config = initial_config, kc_clientID = 3\<rparr> ''key'' = Some (ck', v) \<and>
     group_of (kc_config ck') ''key'' = Some srvs \<and> srv \<in> set srvs \<and>
     (\<lambda>k srv args. Some \<lparr>gr_Err = OK, gr_Value = ''x''\<rparr>) (j :: nat) (srv :: string)
        \<lparr>ga_Key = ''key'', ga_ClientId = 3, ga_TimeStamp = 5\<rparr> = Some reply \<and> v = gr_Value reply"
proof -
  let ?query = "\<lambda>i :: nat. if i = 0 then initial_config else example_kv_config"
  let ?call = "\<lambda>(k :: nat) (srv :: string) (args :: GetArgs). Some \<lparr>gr_Err = OK, gr_Value = ''x''\<rparr>"
  let ?ck = "\<lparr>kc_config = initial_config, kc_clientID = 3\<rparr>"
  let ?args = "\<lparr>ga_Key = ''key'', ga_ClientId = 3, ga_TimeStamp = 5\<rparr>"
  have args: "?args = \<lparr>ga_Key = ''key'', ga_ClientId = kc_clientID ?ck, ga_TimeStamp = 5\<rparr>" by simp
  have group: "group_of (?query 1) ''key'' = Some [''s1'', ''s2'']"
    using key2shard_less [of "''key''"] by (simp add: group_of_def example_kv_config_def)
  have "\<exists>ck' v. Get 2 5 ?query ?call ?ck ''key'' = Some (ck', v)"
    by (rule conjunct2 [OF Get_sound_and_returns [OF args, of 2 ?query ?call],
          rule_format, of 1 "''s1''" "[''s2'']"]) (use group in simp_all)
  then obtain ck' v where run: "Get 2 5 ?query ?call ?ck ''key'' = Some (ck', v)" by blast
  have "\<exists>srvs j srv reply. group_of (kc_config ck') ''key'' = Some srvs \<and> srv \<in> set srvs \<and>
      ?call j srv ?args = Some reply \<and> gr_Err reply \<in> {OK, ErrNoKey} \<and> v = gr_Value reply"
    using conjunct1 [OF Get_sound_and_returns [OF args, of 2 ?query ?call]] run by blast
  with run show ?thesis by blast
qed

lemma PutAppend_servers_sound:
  "PutAppend_servers call args srvs k = (k1, True) \<Longrightarrow>
     \<exists>j srv reply. srv \<in> set srvs \<and> call j srv args = Some reply \<and> pr_Err reply = OK"
proof (induction srvs arbitrary: k)
  case (Cons srv rest)
  show ?case
  proof (cases "PutAppend_servers call args rest (k + 1) = (k1, True)")
    case True
    from Cons.IH [OF this] show ?thesis by auto
  next
    case False
    with Cons.prems show ?thesis by (auto split: option.splits if_splits)
  qed
qed simp

lemma PutAppend_loop_sound:
  "PutAppend_loop fuel query call args key ck i k = Some ck' \<Longrightarrow>
     \<exists>srvs j srv reply. group_of (kc_config ck') key = Some srvs \<and> srv \<in> set srvs \<and>
        call j srv args = Some reply \<and> pr_Err reply = OK"
proof (induction fuel arbitrary: ck i k)
  case (Suc fuel)
  obtain k1 ok where round: "(case group_of (kc_config ck) key of
      Some srvs \<Rightarrow> PutAppend_servers call args srvs k | None \<Rightarrow> (k, False)) = (k1, ok)" by fastforce
  show ?case
  proof (cases ok)
    case False
    with Suc.prems round have "PutAppend_loop fuel query call args key (ck\<lparr>kc_config := query i\<rparr>) (i + 1) k1 = Some ck'"
      by simp
    then show ?thesis by (rule Suc.IH)
  next
    case True
    with Suc.prems round have "ck' = ck" by simp
    with round True PutAppend_servers_sound show ?thesis by (fastforce split: option.splits)
  qed
qed simp

lemma PutAppend_loop_progress:
  assumes serves: "\<forall>k. \<exists>reply. call k srv args = Some reply \<and> pr_Err reply = OK"
  shows "n < fuel \<Longrightarrow> group_of (config_at query ck i n) key = Some (srv # srvs) \<Longrightarrow>
     \<exists>ck'. PutAppend_loop fuel query call args key ck i k = Some ck'"
proof (induction n arbitrary: fuel ck i k)
  case 0
  then obtain fuel' where fuel: "fuel = Suc fuel'" by (cases fuel) auto
  from serves obtain reply where "call k srv args = Some reply" and "pr_Err reply = OK" by blast
  with 0 fuel show ?case by (auto simp: config_at_def)
next
  case (Suc n)
  then obtain fuel' where fuel: "fuel = Suc fuel'" by (cases fuel) auto
  have next_rounds: "\<exists>ck'. PutAppend_loop fuel' query call args key (ck\<lparr>kc_config := query i\<rparr>) (i + 1) k1 = Some ck'" for k1
    by (rule Suc.IH) (use Suc.prems fuel config_at_next in simp_all)
  obtain k1 ok where "(case group_of (kc_config ck) key of
      Some srvs \<Rightarrow> PutAppend_servers call args srvs k | None \<Rightarrow> (k, False)) = (k1, ok)" by fastforce
  then show ?case using next_rounds [of k1] fuel by (cases ok) auto
qed

text \<open>
  When an append returns, a server of the group responsible for the key's shard has
  acknowledged a request with this key, value, client and the one time stamp of the call. And if
  some configuration the controller returns names a group whose first server acknowledges, the
  append returns with fuel beyond the number of that configuration.
\<close>

theorem Append_acknowledged_and_returns:
  assumes "args = \<lparr>pa_Key = key, pa_Value = value, pa_Op = ''Append'', pa_ClientId = kc_clientID ck, pa_TimeStamp = now\<rparr>"
  shows "(\<forall>ck'. Append fuel now query call ck key value = Some ck' \<longrightarrow>
       (\<exists>srvs j srv reply. group_of (kc_config ck') key = Some srvs \<and> srv \<in> set srvs \<and>
          call j srv args = Some reply \<and> pr_Err reply = OK)) \<and>
     (\<forall>n srv srvs. n < fuel \<longrightarrow> group_of (query n) key = Some (srv # srvs) \<longrightarrow>
       (\<forall>k. \<exists>reply. call k srv args = Some reply \<and> pr_Err reply = OK) \<longrightarrow>
       (\<exists>ck'. Append fuel now query call ck key value = Some ck'))"
proof (intro conjI allI impI)
  fix ck'
  assume "Append fuel now query call ck key value = Some ck'"
  then have "PutAppend_loop fuel query call args key (ck\<lparr>kc_config := query 0\<rparr>) 1 0 = Some ck'"
    using assms by (simp add: Append_def PutAppend_def)
  then show "\<exists>srvs j srv reply. group_of (kc_config ck') key = Some srvs \<and> srv \<in> set srvs \<and>
          call j srv args = Some reply \<and> pr_Err reply = OK"
    by (rule PutAppend_loop_sound)
next
  fix n srv srvs
  assume n: "n < fuel" and group: "group_of (query n) key = Some (srv # srvs)"
    and serves: "\<forall>k. \<exists>reply. call k srv args = Some reply \<and> pr_Err reply = OK"
  have "\<exists>ck'. PutAppend_loop fuel query call args key (ck\<lparr>kc_config := query 0\<rparr>) 1 0 = Some ck'"
    by (rule PutAppend_loop_progress [where call = call and args = args and srv = srv, OF serves n])
      (use group in \<open>simp only: config_at_start\<close>)
  with assms
  show "\<exists>ck'. Append fuel now query call ck key value = Some ck'" by (simp add: Append_def PutAppend_def)
qed

lemma Append_acknowledged_and_returns_witness:
  "\<exists>ck' srvs srv. Append 1 5 (\<lambda>i. example_kv_config) (\<lambda>k srv args. Some \<lparr>pr_Config = initial_config, pr_Err = OK\<rparr>)
       \<lparr>kc_config = initial_config, kc_clientID = 3\<rparr> ''key'' ''v'' = Some ck' \<and>
     group_of (kc_config ck') ''key'' = Some srvs \<and> srv \<in> set srvs"
proof -
  let ?query = "\<lambda>i :: nat. example_kv_config"
  let ?call = "\<lambda>(k :: nat) (srv :: string) (args :: PutAppendArgs). Some \<lparr>pr_Config = initial_config, pr_Err = OK\<rparr>"
  let ?ck = "\<lparr>kc_config = initial_config, kc_clientID = 3\<rparr>"
  let ?args = "\<lparr>pa_Key = ''key'', pa_Value = ''v'', pa_Op = ''Append'', pa_ClientId = 3, pa_TimeStamp = 5\<rparr>"
  have args: "?args = \<lparr>pa_Key = ''key'', pa_Value = ''v'', pa_Op = ''Append'',
      pa_ClientId = kc_clientID ?ck, pa_TimeStamp = 5\<rparr>" by simp
  have group: "group_of (?query 0) ''key'' = Some [''s1'', ''s2'']"
    using key2shard_less [of "''key''"] by (simp add: group_of_def example_kv_config_def)
  obtain ck' where run: "Append 1 5 ?query ?call ?ck ''key'' ''v'' = Some ck'"
    using conjunct2 [OF Append_acknowledged_and_returns [OF args, of 1 ?query ?call]] group by fastforce
  with conjunct1 [OF Append_acknowledged_and_returns [OF args, of 1 ?query ?call]] show ?thesis by blast
qed

end
