(* ===== verification/ShardKV.thy ===== *)
theory ShardKV
  imports ShardCtrler_Clerk ShardKV_Clerk
begin

text \<open>
  The server of the sharded key/value service, \<^verbatim>\<open>src/shardkv/server.go\<close>, as far as the sources show it:
  its data, \<^verbatim>\<open>sendToRaftAndWait\<close>, \<^verbatim>\<open>Kill\<close>, \<^verbatim>\<open>killed\<close> and \<^verbatim>\<open>StartServer\<close>. Parameters stand for the functions whose
  bodies are left out: \<^verbatim>\<open>isOpMatched\<close> and \<^verbatim>\<open>decodeSnapshot\<close>. What the apply loop
  sends into the channel of an index is the environment of the waiting requests, as the code of its
  cases is left out too; the loop around them is in the theory \<open>KVLifecycle\<close>.

  Shown here: whatever the loop sends and in whatever order requests come, time out and are served,
  the operations that requests receive at an index are those sent there, in order and each once, and
  a request that succeeds received an operation that matches its own.
\<close>

section \<open>Data\<close>

record KVOp =
  kop_Op :: string
  kop_Key :: string
  kop_Value :: string
  kop_ClientId :: int
  kop_TimeStamp :: int
  kop_Config :: Config
  kop_ShardId :: int
  kop_ConfigNum :: int
  kop_ShardIds :: "int list"
  kop_ShardData :: "(string \<rightharpoonup> string) list"
  kop_Ack :: "int \<rightharpoonup> int"

record ShardKV =
  kv_me :: int
  kv_dead :: "32 word"
  kv_gid :: int
  kv_ctrlers :: "ClientEnd list"
  kv_maxraftstate :: int
  commitChan :: "int \<rightharpoonup> KVOp list"
  kv_sm :: "ClientEnd Clerk"
  kv_config :: Config
  kv_prevConfig :: Config
  kv_data :: "(string \<rightharpoonup> string) list"
  kv_ack :: "int \<rightharpoonup> int"

record TransferShardArgs =
  ts_Num :: int
  ts_ShardIds :: "int list"

record TransferShardReply =
  tr_Err :: Err
  tr_ShardData :: "(string \<rightharpoonup> string) list"
  tr_Ack :: "int \<rightharpoonup> int"

record DeleteShardArgs =
  ds_Num :: int
  ds_ShardIds :: "int list"

record DeleteShardReply =
  dr_Err :: Err

definition zero_config :: Config where
  "zero_config = \<lparr>Num = 0, Shards = replicate NShards 0, Groups = Map.empty\<rparr>"

text \<open>A new clerk of the service, with the clerk of the controller it keeps; \<open>r1\<close> and \<open>r2\<close> are the draws of their identities.\<close>

definition kv_MakeClerk :: "'srv list \<Rightarrow> nat \<Rightarrow> nat \<Rightarrow> 'srv Clerk \<times> KVClerk" where
  "kv_MakeClerk ctrlers r1 r2 = (MakeClerk ctrlers r1, \<lparr>kc_config = zero_config, kc_clientID = nrand r2\<rparr>)"

section \<open>Starting and killing\<close>

text \<open>
  \<open>snapshot\<close> is what \<^verbatim>\<open>rf.ReadSnapshot()\<close> returns, \<open>r\<close> the draw of the new clerk's identity. \<^verbatim>\<open>config\<close> and
  \<^verbatim>\<open>prevConfig\<close> keep their zero values, \<^verbatim>\<open>Groups\<close> being nil, which reads as empty.
\<close>

definition kv_StartServer ::
    "(gbytes \<Rightarrow> ShardKV \<Rightarrow> ShardKV) \<Rightarrow> nat \<Rightarrow> int \<Rightarrow> gbytes \<Rightarrow> int \<Rightarrow> int \<Rightarrow> ClientEnd list \<Rightarrow> ShardKV" where
  "kv_StartServer decodeSnapshot r me snapshot maxraftstate gid ctrlers =
     decodeSnapshot snapshot
       \<lparr>kv_me = me, kv_dead = 0, kv_gid = gid, kv_ctrlers = ctrlers, kv_maxraftstate = maxraftstate,
        commitChan = Map.empty, kv_sm = MakeClerk ctrlers r, kv_config = zero_config,
        kv_prevConfig = zero_config, kv_data = replicate NShards Map.empty, kv_ack = Map.empty\<rparr>"

text \<open>\<^verbatim>\<open>Kill\<close> kills the Raft instance and leaves the server as it is.\<close>

definition kv_Kill :: "ShardKV \<times> 'c Raft \<Rightarrow> ShardKV \<times> 'c Raft" where
  "kv_Kill = (\<lambda>(kv, rf). (kv, Raft_Kill rf))"

definition kv_killed :: "ShardKV \<Rightarrow> bool" where
  "kv_killed kv = (kv_dead kv = 1)"

section \<open>Requests\<close>

datatype kv_waiter =
    KWaiting int KVOp
  | KReturned bool KVOp

definition kv_chan :: "ShardKV \<Rightarrow> int \<Rightarrow> KVOp list" where
  "kv_chan kv index = (case commitChan kv index of None \<Rightarrow> [] | Some b \<Rightarrow> b)"

text \<open>
  \<^verbatim>\<open>sendToRaftAndWait\<close> up to the \<^verbatim>\<open>select\<close>, and the two ways out of it. \<open>started\<close> is what \<^verbatim>\<open>rf.Start\<close>
  returned: None when this server is not the leader.
\<close>

definition kv_send_begin :: "int option \<Rightarrow> KVOp \<Rightarrow> ShardKV \<Rightarrow> ShardKV \<times> kv_waiter" where
  "kv_send_begin started op kv =
     (case started of
        None \<Rightarrow> (kv, KReturned False op)
      | Some index \<Rightarrow>
          (case commitChan kv index of
             Some _ \<Rightarrow> (kv, KWaiting index op)
           | None \<Rightarrow> (kv\<lparr>commitChan := (commitChan kv)(index \<mapsto> [])\<rparr>, KWaiting index op)))"

definition kv_send_receive ::
    "(KVOp \<Rightarrow> KVOp \<Rightarrow> bool) \<Rightarrow> int \<Rightarrow> KVOp \<Rightarrow> ShardKV \<Rightarrow> (ShardKV \<times> kv_waiter) option" where
  "kv_send_receive isOpMatched index op kv =
     (case kv_chan kv index of
        [] \<Rightarrow> None
      | from_raft # rest \<Rightarrow>
          Some (kv\<lparr>commitChan := (commitChan kv)(index \<mapsto> rest)\<rparr>, KReturned (isOpMatched op from_raft) from_raft))"

definition kv_send_timeout :: "KVOp \<Rightarrow> kv_waiter" where
  "kv_send_timeout op = KReturned False op"

section \<open>Schedules\<close>

record kvs =
  ks_kv :: ShardKV
  ks_waiters :: "kv_waiter list"

text \<open>
  \<open>KSend\<close> is a send of the apply loop into the channel of an index, which has room for one operation;
  a send into a full channel does not happen until it is empty.
\<close>

datatype kv_act =
    KSend int KVOp
  | KRequest "int option" KVOp
  | KRecv nat
  | KTimeout nat

datatype kv_out =
    KNothing
  | KSent int KVOp
  | KReceived nat int KVOp bool KVOp
  | KFailed nat KVOp

definition kvs_exec :: "(KVOp \<Rightarrow> KVOp \<Rightarrow> bool) \<Rightarrow> kvs \<Rightarrow> kv_act \<Rightarrow> (kvs \<times> kv_out) go" where
  "kvs_exec isOpMatched s act =
     Inr (case act of
        KSend index op \<Rightarrow>
          if kv_chan (ks_kv s) index = []
          then (s\<lparr>ks_kv := (ks_kv s)\<lparr>commitChan := (commitChan (ks_kv s))(index \<mapsto> [op])\<rparr>\<rparr>, KSent index op)
          else (s, KNothing)
      | KRequest started op \<Rightarrow>
          (let (kv, w) = kv_send_begin started op (ks_kv s)
           in (s\<lparr>ks_kv := kv, ks_waiters := ks_waiters s @ [w]\<rparr>,
               case w of KReturned _ r \<Rightarrow> KFailed (length (ks_waiters s)) r | KWaiting _ _ \<Rightarrow> KNothing))
      | KRecv t \<Rightarrow>
          if t < length (ks_waiters s)
          then (case ks_waiters s ! t of
                  KWaiting index op \<Rightarrow>
                    (case kv_send_receive isOpMatched index op (ks_kv s) of
                       Some (kv, KReturned b r) \<Rightarrow>
                         (s\<lparr>ks_kv := kv, ks_waiters := (ks_waiters s)[t := KReturned b r]\<rparr>, KReceived t index op b r)
                     | _ \<Rightarrow> (s, KNothing))
                | KReturned _ _ \<Rightarrow> (s, KNothing))
          else (s, KNothing)
      | KTimeout t \<Rightarrow>
          if t < length (ks_waiters s)
          then (case ks_waiters s ! t of
                  KWaiting index op \<Rightarrow> (s\<lparr>ks_waiters := (ks_waiters s)[t := kv_send_timeout op]\<rparr>, KFailed t op)
                | KReturned _ _ \<Rightarrow> (s, KNothing))
          else (s, KNothing))"

section \<open>Replies reach the requests of their index\<close>

fun sent_at :: "int \<Rightarrow> kv_out list \<Rightarrow> KVOp list" where
  "sent_at index [] = []"
| "sent_at index (KSent i op # os) = (if i = index then [op] else []) @ sent_at index os"
| "sent_at index (_ # os) = sent_at index os"

fun received_at :: "int \<Rightarrow> kv_out list \<Rightarrow> KVOp list" where
  "received_at index [] = []"
| "received_at index (KReceived t i op b r # os) = (if i = index then [r] else []) @ received_at index os"
| "received_at index (_ # os) = received_at index os"

lemma sent_at_snoc: "sent_at index (os @ [out]) = sent_at index os @ sent_at index [out]"
  by (induction index os rule: sent_at.induct) auto

lemma received_at_snoc: "received_at index (os @ [out]) = received_at index os @ received_at index [out]"
  by (induction index os rule: received_at.induct) auto

text \<open>The number of times a request has come back.\<close>

fun ended :: "nat \<Rightarrow> kv_out \<Rightarrow> bool" where
  "ended t (KReceived u _ _ _ _) \<longleftrightarrow> u = t"
| "ended t (KFailed u _) \<longleftrightarrow> u = t"
| "ended t _ \<longleftrightarrow> False"

definition kvs_hist :: "(KVOp \<Rightarrow> KVOp \<Rightarrow> bool) \<Rightarrow> kvs \<Rightarrow> kv_out list \<Rightarrow> bool" where
  "kvs_hist isOpMatched s os \<longleftrightarrow>
     (\<forall>index. received_at index os @ kv_chan (ks_kv s) index = sent_at index os) \<and>
     (\<forall>index. length (kv_chan (ks_kv s) index) \<le> 1) \<and>
     (\<forall>t index op b r. KReceived t index op b r \<in> set os \<longrightarrow> b = isOpMatched op r) \<and>
     (\<forall>t. length (filter (ended t) os) =
        (if t < length (ks_waiters s) then case ks_waiters s ! t of KReturned _ _ \<Rightarrow> 1 | KWaiting _ _ \<Rightarrow> 0 else 0))"


lemma kv_chan_update:
  "kv_chan (kv\<lparr>commitChan := (commitChan kv)(i \<mapsto> b)\<rparr>) index = (if index = i then b else kv_chan kv index)"
  by (simp add: kv_chan_def)

lemma kv_chan_begin: "kv_chan (fst (kv_send_begin started op kv)) index = kv_chan kv index"
  by (auto simp: kv_send_begin_def kv_chan_def split: option.splits)

lemma kvs_hist_silent:
  "kvs_hist isOpMatched s os \<Longrightarrow> kvs_hist isOpMatched s (os @ [KNothing])"
  by (simp add: kvs_hist_def sent_at_snoc received_at_snoc)

lemma kvs_histD:
  assumes "kvs_hist isOpMatched s os"
  shows "received_at index os @ kv_chan (ks_kv s) index = sent_at index os" and "length (kv_chan (ks_kv s) index) \<le> 1"
    and "KReceived t index op b r \<in> set os \<Longrightarrow> b = isOpMatched op r"
    and "length (filter (ended t) os) =
        (if t < length (ks_waiters s) then case ks_waiters s ! t of KReturned _ _ \<Rightarrow> 1 | KWaiting _ _ \<Rightarrow> 0 else 0)"
  using assms unfolding kvs_hist_def by blast+

lemma kvs_hist_send:
  assumes h: "kvs_hist isOpMatched s os" and "kv_chan (ks_kv s) i = []"
  shows "kvs_hist isOpMatched (s\<lparr>ks_kv := (ks_kv s)\<lparr>commitChan := (commitChan (ks_kv s))(i \<mapsto> [op])\<rparr>\<rparr>) (os @ [KSent i op])"
  unfolding kvs_hist_def
proof (intro conjI allI impI)
  fix index
  show "received_at index (os @ [KSent i op]) @
      kv_chan (ks_kv (s\<lparr>ks_kv := (ks_kv s)\<lparr>commitChan := (commitChan (ks_kv s))(i \<mapsto> [op])\<rparr>\<rparr>)) index =
      sent_at index (os @ [KSent i op])"
    using kvs_histD(1) [OF h, of index] assms(2) by (auto simp: sent_at_snoc received_at_snoc kv_chan_update)
qed (use kvs_histD [OF h] in \<open>auto simp: kv_chan_update\<close>)

lemma kvs_hist_request:
  assumes h: "kvs_hist isOpMatched s os" and begin_req: "kv_send_begin started op (ks_kv s) = (kv, w)"
  shows "kvs_hist isOpMatched (s\<lparr>ks_kv := kv, ks_waiters := ks_waiters s @ [w]\<rparr>)
     (os @ [case w of KReturned _ r \<Rightarrow> KFailed (length (ks_waiters s)) r | KWaiting _ _ \<Rightarrow> KNothing])"
proof -
  have "kv_chan kv index = kv_chan (ks_kv s) index" for index
    using kv_chan_begin [of started op "ks_kv s" index] begin_req by simp
  then show ?thesis
    unfolding kvs_hist_def
    by (intro conjI allI impI)
      (use kvs_histD [OF h] in \<open>auto simp: sent_at_snoc received_at_snoc nth_append less_Suc_eq split: kv_waiter.splits\<close>)
qed

lemma kvs_hist_receive:
  assumes h: "kvs_hist isOpMatched s os" and t: "t < length (ks_waiters s)" "ks_waiters s ! t = KWaiting i op"
    and r: "kv_chan (ks_kv s) i = r # rest"
  shows "kvs_hist isOpMatched
     (s\<lparr>ks_kv := (ks_kv s)\<lparr>commitChan := (commitChan (ks_kv s))(i \<mapsto> rest)\<rparr>,
        ks_waiters := (ks_waiters s)[t := KReturned (isOpMatched op r) r]\<rparr>)
     (os @ [KReceived t i op (isOpMatched op r) r])"
  unfolding kvs_hist_def
proof (intro conjI allI impI)
  fix index
  show "received_at index (os @ [KReceived t i op (isOpMatched op r) r]) @ kv_chan (ks_kv
      (s\<lparr>ks_kv := (ks_kv s)\<lparr>commitChan := (commitChan (ks_kv s))(i \<mapsto> rest)\<rparr>,
         ks_waiters := (ks_waiters s)[t := KReturned (isOpMatched op r) r]\<rparr>)) index =
      sent_at index (os @ [KReceived t i op (isOpMatched op r) r])"
    using kvs_histD(1) [OF h, of index] r by (auto simp: sent_at_snoc received_at_snoc kv_chan_update)
  show "length (kv_chan (ks_kv (s\<lparr>ks_kv := (ks_kv s)\<lparr>commitChan := (commitChan (ks_kv s))(i \<mapsto> rest)\<rparr>,
         ks_waiters := (ks_waiters s)[t := KReturned (isOpMatched op r) r]\<rparr>)) index) \<le> 1"
    using kvs_histD(2) [OF h, of index] kvs_histD(2) [OF h, of i] r by (auto simp: kv_chan_update)
next
  fix u
  show "length (filter (ended u) (os @ [KReceived t i op (isOpMatched op r) r])) =
      (if u < length (ks_waiters (s\<lparr>ks_kv := (ks_kv s)\<lparr>commitChan := (commitChan (ks_kv s))(i \<mapsto> rest)\<rparr>,
             ks_waiters := (ks_waiters s)[t := KReturned (isOpMatched op r) r]\<rparr>))
       then case ks_waiters (s\<lparr>ks_kv := (ks_kv s)\<lparr>commitChan := (commitChan (ks_kv s))(i \<mapsto> rest)\<rparr>,
             ks_waiters := (ks_waiters s)[t := KReturned (isOpMatched op r) r]\<rparr>) ! u of
          KReturned _ _ \<Rightarrow> 1 | KWaiting _ _ \<Rightarrow> 0 else 0)"
    using kvs_histD(4) [OF h, of u] t by (cases "u = t") auto
qed (use kvs_histD(3) [OF h] in auto)

lemma kvs_hist_timeout:
  assumes h: "kvs_hist isOpMatched s os" and t: "t < length (ks_waiters s)" "ks_waiters s ! t = KWaiting i op"
  shows "kvs_hist isOpMatched (s\<lparr>ks_waiters := (ks_waiters s)[t := KReturned False op]\<rparr>) (os @ [KFailed t op])"
  unfolding kvs_hist_def
proof (intro conjI allI impI)
  fix u
  show "length (filter (ended u) (os @ [KFailed t op])) =
      (if u < length (ks_waiters (s\<lparr>ks_waiters := (ks_waiters s)[t := KReturned False op]\<rparr>))
       then case ks_waiters (s\<lparr>ks_waiters := (ks_waiters s)[t := KReturned False op]\<rparr>) ! u of
          KReturned _ _ \<Rightarrow> 1 | KWaiting _ _ \<Rightarrow> 0 else 0)"
    using kvs_histD(4) [OF h, of u] t by (cases "u = t") auto
qed (use kvs_histD [OF h] in \<open>auto simp: sent_at_snoc received_at_snoc\<close>)

lemma kvs_hist_exec:
  assumes h: "kvs_hist isOpMatched s os" and exec: "kvs_exec isOpMatched s act = Inr (s', out)"
  shows "kvs_hist isOpMatched s' (os @ [out])"
proof (cases act)
  case (KSend i op)
  with exec kvs_hist_send [OF h, of i op] kvs_hist_silent [OF h] show ?thesis
    by (auto simp: kvs_exec_def split: if_splits)
next
  case (KRequest started op)
  obtain kv w where b: "kv_send_begin started op (ks_kv s) = (kv, w)" by fastforce
  with exec KRequest kvs_hist_request [OF h b] show ?thesis by (auto simp: kvs_exec_def)
next
  case (KRecv t)
  show ?thesis
  proof (cases "t < length (ks_waiters s)")
    case True
    show ?thesis
    proof (cases "ks_waiters s ! t")
      case (KWaiting i op)
      show ?thesis
      proof (cases "kv_chan (ks_kv s) i")
        case Nil
        with exec KRecv True KWaiting kvs_hist_silent [OF h] show ?thesis by (simp add: kvs_exec_def kv_send_receive_def)
      next
        case (Cons r rest)
        with exec KRecv True KWaiting kvs_hist_receive [OF h True KWaiting Cons] show ?thesis
          by (simp add: kvs_exec_def kv_send_receive_def)
      qed
    qed (use exec KRecv True kvs_hist_silent [OF h] in \<open>simp add: kvs_exec_def\<close>)
  qed (use exec KRecv kvs_hist_silent [OF h] in \<open>simp add: kvs_exec_def\<close>)
next
  case (KTimeout t)
  show ?thesis
  proof (cases "t < length (ks_waiters s)")
    case True
    show ?thesis
    proof (cases "ks_waiters s ! t")
      case (KWaiting i op)
      with exec KTimeout True kvs_hist_timeout [OF h True KWaiting] show ?thesis
        by (simp add: kvs_exec_def kv_send_timeout_def)
    qed (use exec KTimeout True kvs_hist_silent [OF h] in \<open>simp add: kvs_exec_def\<close>)
  qed (use exec KTimeout kvs_hist_silent [OF h] in \<open>simp add: kvs_exec_def\<close>)
qed

interpretation kvs: go_history "kvs_exec isOpMatched" "kvs_hist isOpMatched" "\<lambda>_ _. True" for isOpMatched
  by unfold_locales (rule kvs_hist_exec)



definition example_kvop :: "string \<Rightarrow> KVOp" where
  "example_kvop v = \<lparr>kop_Op = ''Put'', kop_Key = ''k'', kop_Value = v, kop_ClientId = 1, kop_TimeStamp = 1,
     kop_Config = zero_config, kop_ShardId = 0, kop_ConfigNum = 0, kop_ShardIds = [], kop_ShardData = [],
     kop_Ack = Map.empty\<rparr>"

definition example_kv :: ShardKV where
  "example_kv = kv_StartServer (\<lambda>_ kv. kv) 7 0 [] (-1) 100 []"

definition example_match :: "KVOp \<Rightarrow> KVOp \<Rightarrow> bool" where
  "example_match a b \<longleftrightarrow> kop_Value a = kop_Value b"

text \<open>Another leader's operation comes back at the index of the first request; the second times out.\<close>

definition example_kvacts :: "kv_act list" where
  "example_kvacts = [KRequest (Some 1) (example_kvop ''x''), KSend 1 (example_kvop ''y''), KRequest (Some 2) (example_kvop ''z''),
     KRecv 0, KTimeout 1]"


end
