(* ===== verification/KVClient.thy ===== *)
theory KVClient
  imports ShardKV
begin

text \<open>
  The whole client of the sharded service: the clerk of \<^verbatim>\<open>src/shardkv/client.go\<close> with the clerk of
  \<^verbatim>\<open>src/shardctrler/client.go\<close> that it keeps in \<^verbatim>\<open>sm\<close>. The system they talk to is a state that every call and every sleep may change, and the clock
  is read from it: what a server answers depends on all that was sent before, by this client and by others. In the theories of the two clerks the environment is
  given call by call and the controller by the configurations it returns; here both clerks run against one system.

  Shown here: a value that \<^verbatim>\<open>Get\<close> returns was given by a server of the group that a reply of a controller made responsible
  for the key, and the same for the acknowledgement of a \<^verbatim>\<open>Put\<close> or \<^verbatim>\<open>Append\<close>; and once the system settles, the operations return.
\<close>

section \<open>The system and the loops\<close>

record ('w, 'srv) system =
  sys_now :: "'w \<Rightarrow> int"
  sys_sleep :: "'w \<Rightarrow> 'w"
  sys_query :: "'w \<Rightarrow> 'srv \<Rightarrow> QueryArgs \<Rightarrow> 'w \<times> QueryReply option"
  sys_get :: "'w \<Rightarrow> string \<Rightarrow> GetArgs \<Rightarrow> 'w \<times> GetReply option"
  sys_put :: "'w \<Rightarrow> string \<Rightarrow> PutAppendArgs \<Rightarrow> 'w \<times> PutAppendReply option"

text \<open>What the loop over servers does with a reply: return, break off, or go on.\<close>

datatype verdict = Return | Break | Go_on

fun ask_servers ::
    "('w \<Rightarrow> 'srv \<Rightarrow> 'a \<Rightarrow> 'w \<times> 'r option) \<Rightarrow> ('r \<Rightarrow> verdict) \<Rightarrow> 'a \<Rightarrow> 'srv list \<Rightarrow> 'w \<Rightarrow> 'w \<times> 'r option" where
  "ask_servers call judge args [] w = (w, None)"
| "ask_servers call judge args (srv # rest) w =
     (case call w srv args of
        (w1, None) \<Rightarrow> ask_servers call judge args rest w1
      | (w1, Some reply) \<Rightarrow>
          (case judge reply of
             Return \<Rightarrow> (w1, Some reply)
           | Break \<Rightarrow> (w1, None)
           | Go_on \<Rightarrow> ask_servers call judge args rest w1))"

definition judge_query :: "QueryReply \<Rightarrow> verdict" where
  "judge_query reply = (if \<not> qr_WrongLeader reply then Return else Go_on)"

definition judge_get :: "GetReply \<Rightarrow> verdict" where
  "judge_get reply =
     (if gr_Err reply = OK \<or> gr_Err reply = ErrNoKey then Return
      else if gr_Err reply = ErrWrongGroup then Break else Go_on)"

definition judge_put :: "PutAppendReply \<Rightarrow> verdict" where
  "judge_put reply =
     (if pr_Err reply = OK then Return else if pr_Err reply = ErrWrongGroup then Break else Go_on)"

fun Query_rounds :: "nat \<Rightarrow> ('w, 'srv) system \<Rightarrow> QueryArgs \<Rightarrow> 'srv list \<Rightarrow> 'w \<Rightarrow> ('w \<times> Config) option" where
  "Query_rounds 0 sys args servers w = None"
| "Query_rounds (Suc fuel) sys args servers w =
     (case ask_servers (sys_query sys) judge_query args servers w of
        (w1, Some reply) \<Rightarrow> Some (w1, qr_Config reply)
      | (w1, None) \<Rightarrow> Query_rounds fuel sys args servers (sys_sleep sys w1))"

definition sm_Query :: "nat \<Rightarrow> ('w, 'srv) system \<Rightarrow> 'srv Clerk \<Rightarrow> int \<Rightarrow> 'w \<Rightarrow> ('w \<times> Config) option" where
  "sm_Query fuel sys sm num w =
     Query_rounds fuel sys \<lparr>qa_Num = num, qa_ClientId = ck_clientID sm, qa_TimeStamp = sys_now sys w\<rparr> (ck_servers sm) w"

text \<open>
  The endless loop of \<^verbatim>\<open>Get\<close> and of \<^verbatim>\<open>PutAppend\<close>: the group in charge by the configuration the clerk holds, a sleep, and the latest configuration.
\<close>

fun group_rounds ::
    "nat \<Rightarrow> ('w, 'srv) system \<Rightarrow> ('w \<Rightarrow> string \<Rightarrow> 'a \<Rightarrow> 'w \<times> 'r option) \<Rightarrow> ('r \<Rightarrow> verdict) \<Rightarrow> 'a \<Rightarrow> string \<Rightarrow>
     'srv Clerk \<Rightarrow> KVClerk \<Rightarrow> 'w \<Rightarrow> ('w \<times> KVClerk \<times> 'r) option" where
  "group_rounds 0 sys call judge args key sm ck w = None"
| "group_rounds (Suc fuel) sys call judge args key sm ck w =
     (case (case group_of (kc_config ck) key of
              Some servers \<Rightarrow> ask_servers call judge args servers w
            | None \<Rightarrow> (w, None)) of
        (w1, Some reply) \<Rightarrow> Some (w1, ck, reply)
      | (w1, None) \<Rightarrow>
          (case sm_Query fuel sys sm (-1) (sys_sleep sys w1) of
             None \<Rightarrow> None
           | Some (w2, cfg) \<Rightarrow> group_rounds fuel sys call judge args key sm (ck\<lparr>kc_config := cfg\<rparr>) w2))"

definition client_run ::
    "nat \<Rightarrow> ('w, 'srv) system \<Rightarrow> ('w \<Rightarrow> string \<Rightarrow> 'a \<Rightarrow> 'w \<times> 'r option) \<Rightarrow> ('r \<Rightarrow> verdict) \<Rightarrow> 'a \<Rightarrow> string \<Rightarrow>
     'srv Clerk \<Rightarrow> KVClerk \<Rightarrow> 'w \<Rightarrow> ('w \<times> KVClerk \<times> 'r) option" where
  "client_run fuel sys call judge args key sm ck w =
     (case sm_Query fuel sys sm (-1) w of
        None \<Rightarrow> None
      | Some (w1, cfg) \<Rightarrow> group_rounds fuel sys call judge args key sm (ck\<lparr>kc_config := cfg\<rparr>) w1)"

definition client_Get ::
    "nat \<Rightarrow> ('w, 'srv) system \<Rightarrow> 'srv Clerk \<times> KVClerk \<Rightarrow> string \<Rightarrow> 'w \<Rightarrow> ('w \<times> KVClerk \<times> string) option" where
  "client_Get fuel sys c key w =
     (let args = \<lparr>ga_Key = key, ga_ClientId = kc_clientID (snd c), ga_TimeStamp = sys_now sys w\<rparr>
      in map_option (\<lambda>(w', ck, reply). (w', ck, gr_Value reply))
           (client_run fuel sys (sys_get sys) judge_get args key (fst c) (snd c) w))"

definition client_PutAppend ::
    "nat \<Rightarrow> ('w, 'srv) system \<Rightarrow> 'srv Clerk \<times> KVClerk \<Rightarrow> string \<Rightarrow> string \<Rightarrow> string \<Rightarrow> 'w \<Rightarrow> ('w \<times> KVClerk) option" where
  "client_PutAppend fuel sys c key value op w =
     (let args = \<lparr>pa_Key = key, pa_Value = value, pa_Op = op, pa_ClientId = kc_clientID (snd c), pa_TimeStamp = sys_now sys w\<rparr>
      in map_option (\<lambda>(w', ck, reply). (w', ck))
           (client_run fuel sys (sys_put sys) judge_put args key (fst c) (snd c) w))"

section \<open>Where an answer comes from\<close>

text \<open>What calls keep, and the call that gave the answer.\<close>

lemma ask_servers_keeps:
  assumes "\<forall>w srv. I w \<longrightarrow> I (fst (call w srv args))"
  shows "I w \<Longrightarrow> I (fst (ask_servers call judge args srvs w))"
proof (induction srvs arbitrary: w)
  case (Cons srv rest)
  obtain w1 r where c: "call w srv args = (w1, r)" by fastforce
  with assms Cons.prems have "I w1" by (metis fst_conv)
  with Cons.IH [of w1] c show ?case by (auto split: option.splits verdict.splits)
qed simp

lemma ask_servers_sound:
  assumes keep: "\<forall>w srv. I w \<longrightarrow> I (fst (call w srv args))"
  shows "ask_servers call judge args srvs w = (w', Some reply) \<Longrightarrow> I w \<Longrightarrow>
     \<exists>w1 srv. I w1 \<and> srv \<in> set srvs \<and> call w1 srv args = (w', Some reply) \<and> judge reply = Return"
proof (induction srvs arbitrary: w)
  case (Cons srv rest)
  obtain w1 r where c: "call w srv args = (w1, r)" by fastforce
  show ?case
  proof (cases "ask_servers call judge args rest w1 = (w', Some reply)")
    case True
    have "I w1" using keep Cons.prems(2) c by (metis fst_conv)
    from Cons.IH [OF True this] obtain w2 s where "I w2" "s \<in> set rest" "call w2 s args = (w', Some reply)" "judge reply = Return" by blast
    then show ?thesis by (intro exI [of _ w2] exI [of _ s]) simp
  next
    case False
    with Cons.prems(1) c have "r = Some reply \<and> judge reply = Return \<and> w1 = w'" by (auto split: option.splits verdict.splits)
    with c Cons.prems(2) show ?thesis by (intro exI [of _ w] exI [of _ srv]) simp
  qed
qed simp

lemmas ask_servers_from = ask_servers_sound [where I = "\<lambda>_. True", simplified]

text \<open>A configuration that a server of the controller has given without disclaiming leadership.\<close>

definition controller_said :: "('w, 'srv) system \<Rightarrow> 'srv Clerk \<Rightarrow> Config \<Rightarrow> bool" where
  "controller_said sys sm cfg \<longleftrightarrow>
     (\<exists>w w' srv args r. srv \<in> set (ck_servers sm) \<and> qa_ClientId args = ck_clientID sm \<and> qa_Num args = -1 \<and>
        sys_query sys w srv args = (w', Some r) \<and> \<not> qr_WrongLeader r \<and> qr_Config r = cfg)"

lemma Query_rounds_sound:
  "Query_rounds fuel sys args servers w = Some (w', cfg) \<Longrightarrow>
     \<exists>w1 srv r. srv \<in> set servers \<and> sys_query sys w1 srv args = (w', Some r) \<and> \<not> qr_WrongLeader r \<and> qr_Config r = cfg"
proof (induction fuel arbitrary: w)
  case (Suc fuel)
  obtain w1 r where t: "ask_servers (sys_query sys) judge_query args servers w = (w1, r)" by fastforce
  show ?case
  proof (cases r)
    case None
    with Suc.prems t have "Query_rounds fuel sys args servers (sys_sleep sys w1) = Some (w', cfg)" by simp
    then show ?thesis by (rule Suc.IH)
  next
    case (Some reply)
    with Suc.prems t have "w' = w1" "cfg = qr_Config reply" by simp_all
    with ask_servers_from [OF t [unfolded Some]] show ?thesis by (auto simp: judge_query_def split: if_splits)
  qed
qed simp

lemma sm_Query_sound: "sm_Query fuel sys sm (-1) w = Some (w', cfg) \<Longrightarrow> controller_said sys sm cfg"
  unfolding sm_Query_def controller_said_def by (drule Query_rounds_sound) force

lemma group_rounds_sound:
  "group_rounds fuel sys call judge args key sm ck w = Some (w', ck', reply) \<Longrightarrow> controller_said sys sm (kc_config ck) \<Longrightarrow>
     controller_said sys sm (kc_config ck') \<and> kc_clientID ck' = kc_clientID ck \<and>
     (\<exists>srvs w1. group_of (kc_config ck') key = Some srvs \<and> (\<exists>srv \<in> set srvs. call w1 srv args = (w', Some reply)) \<and> judge reply = Return)"
proof (induction fuel arbitrary: ck w)
  case (Suc fuel)
  obtain w1 r where t: "(case group_of (kc_config ck) key of
      Some servers \<Rightarrow> ask_servers call judge args servers w | None \<Rightarrow> (w, None)) = (w1, r)" by fastforce
  show ?case
  proof (cases r)
    case None
    with Suc.prems(1) t obtain w2 cfg where q: "sm_Query fuel sys sm (-1) (sys_sleep sys w1) = Some (w2, cfg)"
      and rest: "group_rounds fuel sys call judge args key sm (ck\<lparr>kc_config := cfg\<rparr>) w2 = Some (w', ck', reply)"
      by (auto split: option.splits)
    from Suc.IH [OF rest] sm_Query_sound [OF q] show ?thesis by simp
  next
    case (Some reply')
    with Suc.prems(1) t have "ck' = ck" "reply' = reply" "w1 = w'" by simp_all
    with t Some obtain srvs where "group_of (kc_config ck) key = Some srvs" "ask_servers call judge args srvs w = (w', Some reply)"
      by (auto split: option.splits)
    with ask_servers_from [of call judge args srvs w w' reply] Suc.prems(2) \<open>ck' = ck\<close> show ?thesis by auto
  qed
qed simp

lemma client_run_sound:
  assumes "client_run fuel sys call judge args key sm ck w = Some (w', ck', reply)"
  shows "controller_said sys sm (kc_config ck') \<and> kc_clientID ck' = kc_clientID ck \<and>
     (\<exists>srvs w1. group_of (kc_config ck') key = Some srvs \<and> (\<exists>srv \<in> set srvs. call w1 srv args = (w', Some reply)) \<and> judge reply = Return)"
proof -
  from assms obtain w1 cfg where q: "sm_Query fuel sys sm (-1) w = Some (w1, cfg)"
    and run: "group_rounds fuel sys call judge args key sm (ck\<lparr>kc_config := cfg\<rparr>) w1 = Some (w', ck', reply)"
    by (auto simp: client_run_def split: option.splits)
  from group_rounds_sound [OF run] sm_Query_sound [OF q] show ?thesis by simp
qed

section \<open>When the system settles\<close>

text \<open>
  \<open>level w\<close> bounds the number of sleeps until the system has settled. Calls do not raise it. In a settled system some server of the controller answers as
  leader, every such answer is a configuration that names a group for the key, none of its servers says that
  the group is wrong, and one of them serves requests for the key.
\<close>

definition settles ::
    "('w, 'srv) system \<Rightarrow> ('w \<Rightarrow> string \<Rightarrow> 'a \<Rightarrow> 'w \<times> 'r option) \<Rightarrow> ('r \<Rightarrow> verdict) \<Rightarrow> 'a \<Rightarrow> string \<Rightarrow> 'srv Clerk \<Rightarrow> ('w \<Rightarrow> nat) \<Rightarrow> bool" where
  "settles sys call judge args key sm level \<longleftrightarrow>
     (\<forall>w srv a. level (fst (sys_query sys w srv a)) \<le> level w) \<and> (\<forall>w srv. level (fst (call w srv args)) \<le> level w) \<and>
     (\<forall>w. level (sys_sleep sys w) \<le> level w - 1) \<and>
     (\<exists>srv \<in> set (ck_servers sm). \<forall>w a. level w = 0 \<longrightarrow> (\<exists>r. snd (sys_query sys w srv a) = Some r \<and> \<not> qr_WrongLeader r)) \<and>
     (\<forall>w srv a r. level w = 0 \<longrightarrow> snd (sys_query sys w srv a) = Some r \<longrightarrow> \<not> qr_WrongLeader r \<longrightarrow>
        (\<exists>srvs. group_of (qr_Config r) key = Some srvs \<and>
           (\<forall>w. level w = 0 \<longrightarrow> (\<forall>srv \<in> set srvs. \<forall>r. snd (call w srv args) = Some r \<longrightarrow> judge r \<noteq> Break)) \<and>
           (\<exists>srv \<in> set srvs. \<forall>w. level w = 0 \<longrightarrow> (\<exists>r. snd (call w srv args) = Some r \<and> judge r = Return))))"

lemma settles_levels:
  assumes "settles sys call judge args key sm level"
  shows "\<forall>w srv. level w \<le> n \<longrightarrow> level (fst (sys_query sys w srv a)) \<le> n" "\<forall>w srv. level w \<le> n \<longrightarrow> level (fst (call w srv args)) \<le> n"
    "level (sys_sleep sys w) \<le> level w - 1"
  using assms unfolding settles_def by (blast intro: le_trans)+

lemma settles_leader:
  assumes "settles sys call judge args key sm level"
  shows "\<exists>srv \<in> set (ck_servers sm). \<forall>w. level w \<le> 0 \<longrightarrow> (\<exists>r. snd (sys_query sys w srv a) = Some r \<and> judge_query r = Return)"
proof -
  from assms obtain srv where srv: "srv \<in> set (ck_servers sm)"
    and ans: "\<forall>w a. level w = 0 \<longrightarrow> (\<exists>r. snd (sys_query sys w srv a) = Some r \<and> \<not> qr_WrongLeader r)"
    unfolding settles_def by blast
  have "\<exists>r. snd (sys_query sys w srv a) = Some r \<and> judge_query r = Return" if "level w \<le> 0" for w
    using ans [rule_format, of w a] that by (auto simp: judge_query_def)
  with srv show ?thesis by blast
qed

lemma settles_group:
  assumes "settles sys call judge args key sm level" and "level w \<le> 0" and "snd (sys_query sys w srv a) = Some r" and "judge_query r = Return"
  shows "\<exists>srvs. group_of (qr_Config r) key = Some srvs \<and>
     (\<forall>w. level w \<le> 0 \<longrightarrow> (\<forall>srv \<in> set srvs. \<forall>r. snd (call w srv args) = Some r \<longrightarrow> judge r \<noteq> Break)) \<and>
     (\<exists>srv \<in> set srvs. \<forall>w. level w \<le> 0 \<longrightarrow> (\<exists>r. snd (call w srv args) = Some r \<and> judge r = Return))"
proof -
  have "level w = 0" "\<not> qr_WrongLeader r" using assms(2,4) by (simp_all add: judge_query_def split: if_splits)
  with assms(1,3) show ?thesis unfolding settles_def le_zero_eq by blast
qed

lemma ask_servers_answer:
  assumes keep: "\<forall>w srv. I w \<longrightarrow> I (fst (call w srv args))"
    and srv: "\<forall>w. I w \<longrightarrow> (\<exists>r. snd (call w srv args) = Some r \<and> judge r = Return)"
  shows "I w \<Longrightarrow> srv \<in> set srvs \<Longrightarrow> \<forall>w. I w \<longrightarrow> (\<forall>srv \<in> set srvs. \<forall>r. snd (call w srv args) = Some r \<longrightarrow> judge r \<noteq> Break) \<Longrightarrow>
     \<exists>w' r. ask_servers call judge args srvs w = (w', Some r)"
proof (induction srvs arbitrary: w)
  case (Cons s rest)
  obtain w1 r where c: "call w s args = (w1, r)" by fastforce
  with keep Cons.prems(1) have w1: "I w1" by (metis fst_conv)
  have no_break: "judge reply \<noteq> Break" if "r = Some reply" for reply
    using Cons.prems(1,3) c that by (metis list.set_intros(1) snd_conv)
  show ?case
  proof (cases "\<exists>reply. r = Some reply \<and> judge reply = Return")
    case False
    with srv Cons.prems(1,2) c have "srv \<in> set rest" by (metis set_ConsD snd_conv)
    from Cons.IH [OF w1 this] Cons.prems(3) have "\<exists>w' r. ask_servers call judge args rest w1 = (w', Some r)" by simp
    with False c no_break show ?thesis by (auto split: option.splits verdict.splits)
  qed (use c in auto)
qed simp

lemma leader_answers:
  assumes s: "settles sys call judge args key sm level" and w: "level w \<le> 0"
  shows "\<exists>w' r. ask_servers (sys_query sys) judge_query a (ck_servers sm) w = (w', Some r)"
proof -
  obtain srv where srv: "srv \<in> set (ck_servers sm)"
    and ans: "\<forall>w. level w \<le> 0 \<longrightarrow> (\<exists>r. snd (sys_query sys w srv a) = Some r \<and> judge_query r = Return)" using settles_leader [OF s] by blast
  show ?thesis
    by (rule ask_servers_answer [where call = "sys_query sys" and args = a and I = "\<lambda>w. level w \<le> 0", OF settles_levels(1) [OF s] ans w srv]) (simp add: judge_query_def)
qed

lemma Query_rounds_returns:
  assumes s: "settles sys call judge args key sm level"
  shows "level w < fuel \<Longrightarrow> \<exists>w' cfg. Query_rounds fuel sys a (ck_servers sm) w = Some (w', cfg) \<and> level w' \<le> level w"
proof (induction fuel arbitrary: w)
  case (Suc fuel)
  obtain w1 r where t: "ask_servers (sys_query sys) judge_query a (ck_servers sm) w = (w1, r)" by fastforce
  have w1: "level w1 \<le> level w"
    using ask_servers_keeps [where call = "sys_query sys" and args = a and I = "\<lambda>x. level x \<le> level w", OF settles_levels(1) [OF s], of w judge_query "ck_servers sm"] t by simp
  show ?case
  proof (cases r)
    case None
    then have "level w \<noteq> 0" using leader_answers [OF s, of w a] t by auto
    with settles_levels(3) [OF s, of w1] w1 Suc.prems have less: "level (sys_sleep sys w1) < fuel" "level (sys_sleep sys w1) \<le> level w" by linarith+
    from Suc.IH [OF less(1)] less(2) t None show ?thesis by (auto intro: le_trans)
  qed (use t w1 in simp)
qed simp

text \<open>In a settled system the configuration leads to an answer.\<close>

lemma settled_config:
  assumes s: "settles sys call judge args key sm level" and w: "level w \<le> 0" and q: "sm_Query fuel sys sm num w = Some (w1, cfg)"
    and w2: "level w2 \<le> 0"
  shows "\<exists>srvs w' r. group_of cfg key = Some srvs \<and> ask_servers call judge args srvs w2 = (w', Some r)"
proof -
  let ?a = "\<lparr>qa_Num = num, qa_ClientId = ck_clientID sm, qa_TimeStamp = sys_now sys w\<rparr>"
  obtain w' r where t: "ask_servers (sys_query sys) judge_query ?a (ck_servers sm) w = (w', Some r)" using leader_answers [OF s w] by blast
  from q obtain f where "fuel = Suc f" by (cases fuel) (simp_all add: sm_Query_def)
  with q t have cfg: "cfg = qr_Config r" by (simp add: sm_Query_def)
  from ask_servers_sound [where call = "sys_query sys" and args = ?a and I = "\<lambda>x. level x \<le> 0", OF settles_levels(1) [OF s] t w]
  obtain w0 srv where "level w0 \<le> 0" "sys_query sys w0 srv ?a = (w', Some r)" "judge_query r = Return" by blast
  then obtain srvs srv' where srvs: "group_of cfg key = Some srvs"
    "\<forall>w. level w \<le> 0 \<longrightarrow> (\<forall>srv \<in> set srvs. \<forall>r. snd (call w srv args) = Some r \<longrightarrow> judge r \<noteq> Break)"
    "srv' \<in> set srvs" "\<forall>w. level w \<le> 0 \<longrightarrow> (\<exists>r. snd (call w srv' args) = Some r \<and> judge r = Return)"
    using settles_group [OF s, of w0 srv ?a r] cfg by auto
  from ask_servers_answer [where call = call and args = args and I = "\<lambda>x. level x \<le> 0", OF settles_levels(2) [OF s] srvs(4) w2 srvs(3,2)] srvs(1) show ?thesis by blast
qed

lemma group_rounds_settled:
  assumes "settles sys call judge args key sm level" and "level w \<le> 0" and "sm_Query f sys sm num w = Some (w1, cfg)" and "level w1 \<le> 0"
  shows "\<exists>w' ck' r. group_rounds (Suc fuel) sys call judge args key sm (ck\<lparr>kc_config := cfg\<rparr>) w1 = Some (w', ck', r)"
  using settled_config [OF assms] by auto

lemma group_rounds_returns:
  assumes s: "settles sys call judge args key sm level"
  shows "level w + 1 < fuel \<Longrightarrow> \<exists>w' ck' r. group_rounds fuel sys call judge args key sm ck w = Some (w', ck', r)"
proof (induction fuel arbitrary: ck w)
  case (Suc fuel)
  obtain w1 r where t: "(case group_of (kc_config ck) key of
      Some servers \<Rightarrow> ask_servers call judge args servers w | None \<Rightarrow> (w, None)) = (w1, r)" by fastforce
  have w1: "level w1 \<le> level w"
    using ask_servers_keeps [where call = call and args = args and I = "\<lambda>x. level x \<le> level w", OF settles_levels(2) [OF s], of w judge] t
    by (auto split: option.splits) (metis fst_conv)
  show ?case
  proof (cases r)
    case None
    let ?w = "sys_sleep sys w1"
    have slept: "level ?w \<le> level w - 1" using settles_levels(3) [OF s, of w1] w1 by linarith
    obtain w2 cfg where q: "sm_Query fuel sys sm (-1) ?w = Some (w2, cfg)" and w2: "level w2 \<le> level ?w"
      using Query_rounds_returns [OF s, of ?w fuel] slept Suc.prems unfolding sm_Query_def by fastforce
    have "\<exists>w' ck' r. group_rounds fuel sys call judge args key sm (ck\<lparr>kc_config := cfg\<rparr>) w2 = Some (w', ck', r)"
    proof (cases "level w = 0")
      case True
      then obtain f where "fuel = Suc f" using Suc.prems by (cases fuel) auto
      with True slept w2 group_rounds_settled [OF s _ q] show ?thesis by simp
    next
      case False
      show ?thesis by (rule Suc.IH) (use False slept w2 Suc.prems in linarith)
    qed
    with t None q show ?thesis by simp
  qed (use t in simp)
qed simp

lemma client_run_returns:
  assumes s: "settles sys call judge args key sm level" and fuel: "level w + 1 < fuel"
  shows "\<exists>w' ck' r. client_run fuel sys call judge args key sm ck w = Some (w', ck', r)"
proof -
  obtain w1 cfg where q: "sm_Query fuel sys sm (-1) w = Some (w1, cfg)" and w1: "level w1 \<le> level w"
    using Query_rounds_returns [OF s, of w fuel] fuel unfolding sm_Query_def by fastforce
  have "level w1 + 1 < fuel" using fuel w1 by simp
  from group_rounds_returns [OF s this] q show ?thesis by (simp add: client_run_def)
qed

text \<open>
  C14: Reading through the whole client. A value that \<^verbatim>\<open>Get\<close> returns is the value in a reply that says success or no such
  key, of a server of the group which the configuration the clerk holds makes responsible for the key, and this
  configuration was in a reply of a server of the controller that did not disclaim leadership. And \<^verbatim>\<open>Get\<close> returns once the system settles: with
  a controller that answers as leader and a group that serves the key after at most \<open>level w\<close> sleeps, \<open>level w + 2\<close> rounds are enough
  for every loop, a configuration that is out of date at that time included.
\<close>

theorem client_Get_sound_and_returns:
  assumes "args = \<lparr>ga_Key = key, ga_ClientId = kc_clientID ck, ga_TimeStamp = sys_now sys w\<rparr>"
  shows "(client_Get fuel sys (sm, ck) key w = Some (w', ck', v) \<longrightarrow>
       controller_said sys sm (kc_config ck') \<and>
       (\<exists>srvs srv w1 reply. group_of (kc_config ck') key = Some srvs \<and> srv \<in> set srvs \<and> sys_get sys w1 srv args = (w', Some reply) \<and>
          gr_Err reply \<in> {OK, ErrNoKey} \<and> v = gr_Value reply)) \<and>
     (settles sys (sys_get sys) judge_get args key sm level \<longrightarrow> level w + 1 < fuel \<longrightarrow>
       (\<exists>w' ck' v. client_Get fuel sys (sm, ck) key w = Some (w', ck', v)))"
proof (intro conjI impI)
  assume "client_Get fuel sys (sm, ck) key w = Some (w', ck', v)"
  then obtain reply where run: "client_run fuel sys (sys_get sys) judge_get args key sm ck w = Some (w', ck', reply)" and v: "v = gr_Value reply"
    using assms by (auto simp: client_Get_def)
  have good: "gr_Err reply \<in> {OK, ErrNoKey}" if "judge_get reply = Return" using that by (simp add: judge_get_def split: if_splits)
  from client_run_sound [OF run] good v show "controller_said sys sm (kc_config ck')"
    and "\<exists>srvs srv w1 reply. group_of (kc_config ck') key = Some srvs \<and> srv \<in> set srvs \<and> sys_get sys w1 srv args = (w', Some reply) \<and>
          gr_Err reply \<in> {OK, ErrNoKey} \<and> v = gr_Value reply" by blast+
next
  assume "settles sys (sys_get sys) judge_get args key sm level" and "level w + 1 < fuel"
  from client_run_returns [OF this] assms show "\<exists>w' ck' v. client_Get fuel sys (sm, ck) key w = Some (w', ck', v)"
    by (fastforce simp: client_Get_def)
qed

text \<open>
  C15: Writing through the whole client. When \<^verbatim>\<open>Put\<close> or \<^verbatim>\<open>Append\<close> returns, a server of the group in charge, by a configuration that the controller
  has given, has acknowledged the request with this key, value and operation and the time stamp of the call, which all attempts share; and it returns once
  the system settles.
\<close>

theorem client_PutAppend_sound_and_returns:
  assumes "args = \<lparr>pa_Key = key, pa_Value = value, pa_Op = op, pa_ClientId = kc_clientID ck, pa_TimeStamp = sys_now sys w\<rparr>"
  shows "(client_PutAppend fuel sys (sm, ck) key value op w = Some (w', ck') \<longrightarrow>
       controller_said sys sm (kc_config ck') \<and>
       (\<exists>srvs srv w1 reply. group_of (kc_config ck') key = Some srvs \<and> srv \<in> set srvs \<and> sys_put sys w1 srv args = (w', Some reply) \<and>
          pr_Err reply = OK)) \<and>
     (settles sys (sys_put sys) judge_put args key sm level \<longrightarrow> level w + 1 < fuel \<longrightarrow>
       (\<exists>w' ck'. client_PutAppend fuel sys (sm, ck) key value op w = Some (w', ck')))"
proof (intro conjI impI)
  assume "client_PutAppend fuel sys (sm, ck) key value op w = Some (w', ck')"
  then obtain reply where run: "client_run fuel sys (sys_put sys) judge_put args key sm ck w = Some (w', ck', reply)"
    using assms by (auto simp: client_PutAppend_def)
  have good: "pr_Err reply = OK" if "judge_put reply = Return" using that by (simp add: judge_put_def split: if_splits)
  from client_run_sound [OF run] good show "controller_said sys sm (kc_config ck')"
    and "\<exists>srvs srv w1 reply. group_of (kc_config ck') key = Some srvs \<and> srv \<in> set srvs \<and> sys_put sys w1 srv args = (w', Some reply) \<and>
          pr_Err reply = OK" by blast+
next
  assume "settles sys (sys_put sys) judge_put args key sm level" and "level w + 1 < fuel"
  from client_run_returns [OF this] assms show "\<exists>w' ck'. client_PutAppend fuel sys (sm, ck) key value op w = Some (w', ck')"
    by (fastforce simp: client_PutAppend_def)
qed

section \<open>A system that settles\<close>

text \<open>The state is the number of sleeps until it has settled. The second server of the controller is its leader, the second one of the group serves.\<close>

definition example_system :: "(nat, nat) system" where
  "example_system =
     \<lparr>sys_now = \<lambda>w. 5, sys_sleep = \<lambda>w. w - 1,
      sys_query = \<lambda>w srv a. (w, if w = 0 then Some \<lparr>qr_WrongLeader = srv \<noteq> 1, qr_Err = [], qr_Config = example_kv_config\<rparr> else None),
      sys_get = \<lambda>w srv a. (w, Some \<lparr>gr_Err = (if srv = ''s2'' then OK else ErrWrongLeader), gr_Value = ''x''\<rparr>),
      sys_put = \<lambda>w srv a. (w, Some \<lparr>pr_Config = initial_config, pr_Err = (if srv = ''s2'' then OK else ErrWrongLeader)\<rparr>)\<rparr>"

definition example_clerk :: "nat Clerk \<times> KVClerk" where
  "example_clerk = kv_MakeClerk [0, 1] 8 9"

lemma example_group: "group_of example_kv_config ''key'' = Some [''s1'', ''s2'']"
  using key2shard_less [of "''key''"] by (simp add: group_of_def example_kv_config_def)

lemma example_settles:
  "settles example_system (sys_get example_system) judge_get a ''key'' (fst example_clerk) id"
  "settles example_system (sys_put example_system) judge_put b ''key'' (fst example_clerk) id"
  by (auto simp: settles_def example_system_def example_clerk_def kv_MakeClerk_def MakeClerk_def judge_get_def judge_put_def example_group)

lemma client_Get_sound_and_returns_witness:
  "\<exists>w' ck' v srvs. client_Get 5 example_system example_clerk ''key'' 3 = Some (w', ck', v) \<and>
     controller_said example_system (fst example_clerk) (kc_config ck') \<and> group_of (kc_config ck') ''key'' = Some srvs"
proof -
  have "\<exists>w' ck' v. client_Get 5 example_system (fst example_clerk, snd example_clerk) ''key'' 3 = Some (w', ck', v)"
    by (rule client_Get_sound_and_returns [OF refl, THEN conjunct2, rule_format, OF example_settles(1)]) simp
  then obtain w' ck' v where run: "client_Get 5 example_system (fst example_clerk, snd example_clerk) ''key'' 3 = Some (w', ck', v)" by blast
  from client_Get_sound_and_returns [OF refl, THEN conjunct1, rule_format, OF run] run show ?thesis by auto
qed

lemma client_PutAppend_sound_and_returns_witness:
  "\<exists>w' ck' srvs. client_PutAppend 5 example_system example_clerk ''key'' ''v'' ''Append'' 3 = Some (w', ck') \<and>
     controller_said example_system (fst example_clerk) (kc_config ck') \<and> group_of (kc_config ck') ''key'' = Some srvs"
proof -
  have "\<exists>w' ck'. client_PutAppend 5 example_system (fst example_clerk, snd example_clerk) ''key'' ''v'' ''Append'' 3 = Some (w', ck')"
    by (rule client_PutAppend_sound_and_returns [OF refl, THEN conjunct2, rule_format, OF example_settles(2)]) simp
  then obtain w' ck' where run: "client_PutAppend 5 example_system (fst example_clerk, snd example_clerk) ''key'' ''v'' ''Append'' 3 = Some (w', ck')" by blast
  from client_PutAppend_sound_and_returns [OF refl, THEN conjunct1, rule_format, OF run] run show ?thesis by auto
qed

section \<open>Systems that look the same\<close>

text \<open>Two systems whose states are related and whose calls give the same replies and related states.\<close>

definition alike :: "('w \<Rightarrow> 's \<Rightarrow> bool) \<Rightarrow> 'srv set \<Rightarrow> ('w \<Rightarrow> 'srv \<Rightarrow> 'a \<Rightarrow> 'w \<times> 'r option) \<Rightarrow> ('s \<Rightarrow> 'srv \<Rightarrow> 'a \<Rightarrow> 's \<times> 'r option) \<Rightarrow> bool" where
  "alike R S callA callB \<longleftrightarrow> (\<forall>w s srv a. R w s \<longrightarrow> srv \<in> S \<longrightarrow> rel_prod R (=) (callA w srv a) (callB s srv a))"

definition looks_like :: "('w \<Rightarrow> 's \<Rightarrow> bool) \<Rightarrow> 'srv set \<Rightarrow> ('w, 'srv) system \<Rightarrow> ('s, 'srv) system \<Rightarrow> bool" where
  "looks_like R S A B \<longleftrightarrow>
     (\<forall>w s. R w s \<longrightarrow> sys_now A w = sys_now B s \<and> R (sys_sleep A w) (sys_sleep B s)) \<and>
     alike R S (sys_query A) (sys_query B) \<and> alike R UNIV (sys_get A) (sys_get B) \<and> alike R UNIV (sys_put A) (sys_put B)"

lemma ask_servers_alike:
  assumes call: "alike R S callA callB"
  shows "R w s \<Longrightarrow> set srvs \<subseteq> S \<Longrightarrow> rel_prod R (=) (ask_servers callA judge args srvs w) (ask_servers callB judge args srvs s)"
proof (induction srvs arbitrary: w s)
  case (Cons srv rest)
  obtain w1 r where A: "callA w srv args = (w1, r)" by fastforce
  moreover have "rel_prod R (=) (callA w srv args) (callB s srv args)" using call Cons.prems by (simp add: alike_def)
  with A obtain s1 where B: "callB s srv args = (s1, r)" and R: "R w1 s1" by (cases "callB s srv args") auto
  moreover have "rel_prod R (=) (ask_servers callA judge args rest w1) (ask_servers callB judge args rest s1)"
    by (rule Cons.IH [OF R]) (use Cons.prems in simp)
  ultimately show ?case by (simp split: option.split verdict.split)
qed simp

lemma looks_like_parts:
  assumes "looks_like R S A B"
  shows "alike R S (sys_query A) (sys_query B)" and "alike R UNIV (sys_get A) (sys_get B)" and "alike R UNIV (sys_put A) (sys_put B)"
    and "R w s \<Longrightarrow> sys_now A w = sys_now B s" and "R w s \<Longrightarrow> R (sys_sleep A w) (sys_sleep B s)"
  using assms unfolding looks_like_def by blast+

lemma Query_rounds_alike:
  assumes like: "looks_like R S A B" and srvs: "set srvs \<subseteq> S"
  shows "R w s \<Longrightarrow> rel_option (rel_prod R (=)) (Query_rounds fuel A args srvs w) (Query_rounds fuel B args srvs s)"
proof (induction fuel arbitrary: w s)
  case (Suc fuel)
  obtain w1 r where A: "ask_servers (sys_query A) judge_query args srvs w = (w1, r)" by fastforce
  with ask_servers_alike [OF looks_like_parts(1) [OF like] Suc.prems srvs, of judge_query args]
  obtain s1 where B: "ask_servers (sys_query B) judge_query args srvs s = (s1, r)" and R: "R w1 s1"
    by (cases "ask_servers (sys_query B) judge_query args srvs s") auto
  from Suc.IH [OF looks_like_parts(5) [OF like R]] A B R show ?case by (simp split: option.split)
qed simp

lemma sm_Query_alike:
  assumes "looks_like R S A B" and "set (ck_servers sm) \<subseteq> S" and "R w s"
  shows "rel_option (rel_prod R (=)) (sm_Query fuel A sm num w) (sm_Query fuel B sm num s)"
  unfolding sm_Query_def looks_like_parts(4) [OF assms(1,3)] by (rule Query_rounds_alike [OF assms])

lemma group_rounds_alike:
  assumes like: "looks_like R S A B" and srvs: "set (ck_servers sm) \<subseteq> S"
    and call: "alike R UNIV callA callB"
  shows "R w s \<Longrightarrow> rel_option (rel_prod R (=)) (group_rounds fuel A callA judge args key sm ck w) (group_rounds fuel B callB judge args key sm ck s)"
proof (induction fuel arbitrary: ck w s)
  case (Suc fuel)
  let ?ask = "\<lambda>call w. case group_of (kc_config ck) key of Some servers \<Rightarrow> ask_servers call judge args servers w | None \<Rightarrow> (w, None)"
  have "rel_prod R (=) (?ask callA w) (?ask callB s)"
    using ask_servers_alike [OF call Suc.prems, of _ judge] Suc.prems by (simp split: option.split)
  moreover obtain w1 r where A: "?ask callA w = (w1, r)" by fastforce
  ultimately obtain s1 where B: "?ask callB s = (s1, r)" and R: "R w1 s1" by (cases "?ask callB s") auto
  have Q: "rel_option (rel_prod R (=)) (sm_Query fuel A sm (-1) (sys_sleep A w1)) (sm_Query fuel B sm (-1) (sys_sleep B s1))"
    by (rule sm_Query_alike [OF like srvs looks_like_parts(5) [OF like R]])
  show ?case
  proof (cases r)
    case None
    show ?thesis
    proof (cases "sm_Query fuel A sm (-1) (sys_sleep A w1)")
      case None
      with Q A B \<open>r = None\<close> show ?thesis by simp
    next
      case (Some x)
      then obtain w2 cfg where x: "sm_Query fuel A sm (-1) (sys_sleep A w1) = Some (w2, cfg)" by (cases x) simp
      with Q obtain s2 where "sm_Query fuel B sm (-1) (sys_sleep B s1) = Some (s2, cfg)" "R w2 s2"
        by (cases "sm_Query fuel B sm (-1) (sys_sleep B s1)") auto
      with x Suc.IH A B \<open>r = None\<close> show ?thesis by simp
    qed
  qed (use A B R in simp)
qed simp

lemma client_run_alike:
  assumes like: "looks_like R S A B" and srvs: "set (ck_servers sm) \<subseteq> S" and R: "R w s"
    and call: "alike R UNIV callA callB"
  shows "rel_option (rel_prod R (=)) (client_run fuel A callA judge args key sm ck w) (client_run fuel B callB judge args key sm ck s)"
proof (cases "sm_Query fuel A sm (-1) w")
  case None
  with sm_Query_alike [OF like srvs R, of fuel "-1"] show ?thesis by (simp add: client_run_def)
next
  case (Some x)
  then obtain w1 cfg where x: "sm_Query fuel A sm (-1) w = Some (w1, cfg)" by (cases x) simp
  with sm_Query_alike [OF like srvs R, of fuel "-1"] obtain s1 where "sm_Query fuel B sm (-1) s = Some (s1, cfg)" "R w1 s1"
    by (cases "sm_Query fuel B sm (-1) s") auto
  with x group_rounds_alike [OF like srvs call] show ?thesis by (simp add: client_run_def)
qed

lemma client_Get_alike:
  assumes "looks_like R S A B" and "set (ck_servers (fst c)) \<subseteq> S" and "R w s"
  shows "rel_option (rel_prod R (=)) (client_Get fuel A c key w) (client_Get fuel B c key s)"
  using client_run_alike [OF assms looks_like_parts(2) [OF assms(1)], of fuel judge_get
      "\<lparr>ga_Key = key, ga_ClientId = kc_clientID (snd c), ga_TimeStamp = sys_now B s\<rparr>" key "snd c"] looks_like_parts(4) [OF assms(1,3)]
  by (auto simp: client_Get_def option.rel_map elim!: option.rel_mono_strong)

lemma client_PutAppend_alike:
  assumes "looks_like R S A B" and "set (ck_servers (fst c)) \<subseteq> S" and "R w s"
  shows "rel_option (rel_prod R (=)) (client_PutAppend fuel A c key value op w) (client_PutAppend fuel B c key value op s)"
  using client_run_alike [OF assms looks_like_parts(3) [OF assms(1)], of fuel judge_put
      "\<lparr>pa_Key = key, pa_Value = value, pa_Op = op, pa_ClientId = kc_clientID (snd c), pa_TimeStamp = sys_now B s\<rparr>" key "snd c"] looks_like_parts(4) [OF assms(1,3)]
  by (auto simp: client_PutAppend_def option.rel_map elim!: option.rel_mono_strong)

end
