(* ===== verification/KVNetwork.thy ===== *)
theory KVNetwork
  imports KVClient Labrpc "HOL-Library.Countable"
begin

text \<open>
  The client of the sharded service over the simulated network: the calls of the two clerks go through \<^verbatim>\<open>ClientEnd.Call\<close>, the goroutines and the dispatch
  of \<^verbatim>\<open>src/labrpc/labrpc.go\<close>, to the methods of the servers. The bodies of these methods are not part of the sources: they are in the
  servers of the network, any functions of the arguments and the state behind them. The record \<open>coders\<close> stands for the gob coders.

  Shown here: a reliable network is transparent. A client over it gets the same results, and leaves the same state behind the servers, as one whose
  calls go straight to the methods; calls to a server that is down come back without a reply.
\<close>

section \<open>Calls over the network\<close>

datatype kv_args = AQuery QueryArgs | AGet GetArgs | APut PutAppendArgs

datatype kv_reply = RQuery QueryReply | RGet GetReply | RPut PutAppendReply

type_synonym 's kvlab = "(kv_args, 's, kv_reply) lab"

record coders =
  cd_enc :: "kv_args \<Rightarrow> gbytes option"
  cd_decode :: "string \<Rightarrow> gbytes \<Rightarrow> kv_args"
  cd_encode :: "kv_reply \<Rightarrow> gbytes"
  cd_dec :: "gbytes \<Rightarrow> kv_reply option"

text \<open>What the library promises: what was encoded is decoded. A map of Go is finite; replies with other maps do not exist.\<close>

fun codable :: "kv_reply \<Rightarrow> bool" where
  "codable (RQuery q) = finite (dom (Groups (qr_Config q)))"
| "codable (RGet g) = True"
| "codable (RPut p) = finite (dom (Groups (pr_Config p)))"

definition coders_ok :: "coders \<Rightarrow> bool" where
  "coders_ok cd \<longleftrightarrow> (\<forall>a. \<exists>bs. cd_enc cd a = Some bs \<and> (\<forall>t. cd_decode cd t bs = a)) \<and> (\<forall>v. codable v \<longrightarrow> cd_dec cd (cd_encode cd v) = Some v)"

fun type_name :: "kv_args \<Rightarrow> string" where
  "type_name (AQuery _) = ''QueryArgs''"
| "type_name (AGet _) = ''GetArgs''"
| "type_name (APut _) = ''PutAppendArgs''"

text \<open>
  One call from start to end, with no other goroutine between: the request is taken, processed, handled and answered, or found to go nowhere and
  answered by the timer. \<open>r\<close> is a draw for every place that asks for one. With a network that was cleaned up the call gives no reply. Where the code
  panics or stops the process, because a value cannot be encoded or decoded or a server lacks the method, the call of the model gives no reply either; the
  theorem below is about networks on which this does not happen.
\<close>

definition net_call :: "coders \<Rightarrow> nat \<Rightarrow> 's kvlab \<Rightarrow> ClientEnd \<Rightarrow> string \<Rightarrow> kv_args \<Rightarrow> 's kvlab \<times> kv_reply option" where
  "net_call cd r L e svcMeth args =
     (case go_bind (Call_request (cd_enc cd) e svcMeth (type_name args) args) (\<lambda>req.
             let i = length (l_procs L)
             in go_bind (go_run (lab_exec (cd_decode cd) (cd_encode cd)) L
                          [Accept req, Begin i r, Handle i, Receive i, End i r r, Fire i]) (\<lambda>(L', outs).
                go_bind (Call_finish (cd_dec cd) (hd (replied_of i outs))) (\<lambda>v. Inr (L', v)))) of
        Inl _ \<Rightarrow> (L, None)
      | Inr x \<Rightarrow> x)"

text \<open>The caller decodes the bytes into a variable of the type it expects.\<close>

definition query_reply :: "kv_reply option \<Rightarrow> QueryReply option" where
  "query_reply v = (case v of Some (RQuery q) \<Rightarrow> Some q | _ \<Rightarrow> None)"

definition get_reply :: "kv_reply option \<Rightarrow> GetReply option" where
  "get_reply v = (case v of Some (RGet q) \<Rightarrow> Some q | _ \<Rightarrow> None)"

definition put_reply :: "kv_reply option \<Rightarrow> PutAppendReply option" where
  "put_reply v = (case v of Some (RPut q) \<Rightarrow> Some q | _ \<Rightarrow> None)"

text \<open>\<open>mke\<close> is the function \<^verbatim>\<open>make_end\<close> of the clerk; the clock and what happens during a sleep are part of the state behind the servers.\<close>

definition net_system ::
    "coders \<Rightarrow> nat \<Rightarrow> (string \<Rightarrow> ClientEnd) \<Rightarrow> ('s \<Rightarrow> int) \<Rightarrow> ('s \<Rightarrow> 's) \<Rightarrow> ('s kvlab, ClientEnd) system" where
  "net_system cd r mke now sleep =
     \<lparr>sys_now = \<lambda>L. now (l_app L), sys_sleep = \<lambda>L. L\<lparr>l_app := sleep (l_app L)\<rparr>,
      sys_query = \<lambda>L e a. apsnd query_reply (net_call cd r L e ''ShardCtrler.Query'' (AQuery a)),
      sys_get = \<lambda>L srv a. apsnd get_reply (net_call cd r L (mke srv) ''ShardKV.Get'' (AGet a)),
      sys_put = \<lambda>L srv a. apsnd put_reply (net_call cd r L (mke srv) ''ShardKV.PutAppend'' (APut a))\<rparr>"

section \<open>Calls without a network\<close>

text \<open>The live server that an end leads to, and the method a call finds there.\<close>

definition reached :: "'s kvlab \<Rightarrow> ClientEnd \<Rightarrow> nat option" where
  "reached L e = (if enabled_at (l_net L) (ce_endname e)
     then Option.bind (connection_at (l_net L) (ce_endname e)) (server_at (l_net L)) else None)"

definition method_at :: "'s kvlab \<Rightarrow> ClientEnd \<Rightarrow> string \<Rightarrow> string \<Rightarrow> (kv_args, 's, kv_reply) rmethod option" where
  "method_at L e svcn meth =
     Option.bind (reached L e) (\<lambda>a. Option.bind (services (l_heap L ! a) svcn) (\<lambda>svc. svc_methods svc meth))"

definition direct_call :: "(kv_args, 's, kv_reply) rmethod option \<Rightarrow> 's \<Rightarrow> kv_args \<Rightarrow> 's \<times> kv_reply option" where
  "direct_call m s args = (case m of None \<Rightarrow> (s, None) | Some f \<Rightarrow> apsnd Some (m_func f args s))"

definition direct_system ::
    "'s kvlab \<Rightarrow> (string \<Rightarrow> ClientEnd) \<Rightarrow> ('s \<Rightarrow> int) \<Rightarrow> ('s \<Rightarrow> 's) \<Rightarrow> ('s, ClientEnd) system" where
  "direct_system L mke now sleep =
     \<lparr>sys_now = now, sys_sleep = sleep,
      sys_query = \<lambda>s e a. apsnd query_reply (direct_call (method_at L e ''ShardCtrler'' ''Query'') s (AQuery a)),
      sys_get = \<lambda>s srv a. apsnd get_reply (direct_call (method_at L (mke srv) ''ShardKV'' ''Get'') s (AGet a)),
      sys_put = \<lambda>s srv a. apsnd put_reply (direct_call (method_at L (mke srv) ''ShardKV'' ''PutAppend'') s (APut a))\<rparr>"

section \<open>A reliable network is transparent\<close>

text \<open>The part of the network that calls do not change, and a network in order: a live server that an end leads to has the method.\<close>

definition same_wiring :: "'s kvlab \<Rightarrow> 's kvlab \<Rightarrow> bool" where
  "same_wiring L0 L \<longleftrightarrow> net_enabled (l_net L) = net_enabled (l_net L0) \<and> net_connections (l_net L) = net_connections (l_net L0) \<and>
     net_servers (l_net L) = net_servers (l_net L0) \<and> reliable (l_net L) = reliable (l_net L0) \<and>
     longReordering (l_net L) = longReordering (l_net L0) \<and> l_running L = l_running L0 \<and>
     map services (l_heap L) = map services (l_heap L0)"

definition serves :: "'s kvlab \<Rightarrow> ClientEnd \<Rightarrow> string \<Rightarrow> string \<Rightarrow> bool" where
  "serves L e svcn meth \<longleftrightarrow> (\<forall>a. reached L e = Some a \<longrightarrow> a < length (l_heap L) \<and>
     (\<exists>m. method_at L e svcn meth = Some m \<and> (\<forall>args s. codable (snd (m_func m args s)))))"

definition in_order :: "'s kvlab \<Rightarrow> bool" where
  "in_order L \<longleftrightarrow> reliable (l_net L) \<and> \<not> longReordering (l_net L) \<and> l_running L"

lemma same_wiring_reached:
  assumes "same_wiring L0 L"
  shows "reached L e = reached L0 e"
proof -
  have "server_at (l_net L) = server_at (l_net L0)" using assms by (intro ext) (simp add: same_wiring_def server_at_def)
  moreover have "enabled_at (l_net L) n = enabled_at (l_net L0) n" "connection_at (l_net L) n = connection_at (l_net L0) n" for n
    using assms by (simp_all add: same_wiring_def enabled_at_def connection_at_def)
  ultimately show ?thesis by (simp add: reached_def)
qed

lemma same_wiring_services:
  assumes "same_wiring L0 L"
  shows "length (l_heap L) = length (l_heap L0)" and "a < length (l_heap L0) \<Longrightarrow> services (l_heap L ! a) = services (l_heap L0 ! a)"
proof -
  have maps: "map services (l_heap L) = map services (l_heap L0)" using assms by (simp add: same_wiring_def)
  then show len: "length (l_heap L) = length (l_heap L0)" by (rule map_eq_imp_length_eq)
  show "services (l_heap L ! a) = services (l_heap L0 ! a)" if "a < length (l_heap L0)"
    using arg_cong [OF maps, of "\<lambda>xs. xs ! a"] that len by simp
qed

text \<open>Taking a request changes counters only.\<close>

lemma accept_request_at [simp]:
  "enabled_at (accept_request req rn) e = enabled_at rn e" "connection_at (accept_request req rn) e = connection_at rn e"
  "server_at (accept_request req rn) s = server_at rn s" "reliable (accept_request req rn) = reliable rn"
  "longReordering (accept_request req rn) = longReordering rn" "net_enabled (accept_request req rn) = net_enabled rn"
  "net_connections (accept_request req rn) = net_connections rn" "net_servers (accept_request req rn) = net_servers rn"
  by (simp_all add: accept_request_def AddBytes_def enabled_at_def connection_at_def server_at_def)

lemmas call_steps = lab_exec_def lab_step_proc_def act_proc_def processReq_receive_def processReq_end_def reply_out_def Let_def go_nth_def

lemma run_down:
  fixes L :: "'s kvlab"
  assumes "reached L e = None" and "l_running L" and "rq_endname req = ce_endname e"
  shows "\<exists>L' outs. go_run (lab_exec decode encode) L
       [Accept req, Begin (length (l_procs L)) r, Handle (length (l_procs L)), Receive (length (l_procs L)),
        End (length (l_procs L)) r r, Fire (length (l_procs L))] = Inr (L', outs) \<and>
     replied_of (length (l_procs L)) outs = [noReply] \<and> same_wiring L L' \<and> l_app L' = l_app L"
proof -
  have start: "processReq_begin r (accept_request req (l_net L)) req = (PTimeout, HNone, None)"
    using assms(1,3) by (auto simp: processReq_begin_def readEndnameInfo_def reached_def bind_eq_None_conv Let_def split: option.splits if_splits)
  show ?thesis using assms(2) start by (simp add: call_steps same_wiring_def nth_append)
qed

lemma run_up:
  fixes L :: "'s kvlab"
  assumes reach: "reached L e = Some a" and ok: "in_order L" and req: "rq_endname req = ce_endname e"
    and a: "a < length (l_heap L)" and dispatch: "Server_dispatch decode encode (l_heap L ! a) req (l_app L) = Inr (rs, s, reply)"
    and svc: "services rs = services (l_heap L ! a)"
  shows "\<exists>L' outs. go_run (lab_exec decode encode) L
       [Accept req, Begin (length (l_procs L)) r, Handle (length (l_procs L)), Receive (length (l_procs L)),
        End (length (l_procs L)) r r, Fire (length (l_procs L))] = Inr (L', outs) \<and>
     replied_of (length (l_procs L)) outs = [reply] \<and> same_wiring L L' \<and> l_app L' = s"
proof -
  from reach obtain n where n: "enabled_at (l_net L) (ce_endname e)" "connection_at (l_net L) (ce_endname e) = Some n" "server_at (l_net L) n = Some a"
    by (auto simp: reached_def bind_eq_Some_conv split: if_splits)
  let ?pin = "\<lparr>pi_servername = n, pi_server = a, pi_reliable = True, pi_longreordering = False\<rparr>"
  have start: "processReq_begin r (accept_request req (l_net L)) req = (PWait ?pin, HReady a, None)"
    using n ok req by (simp add: processReq_begin_def readEndnameInfo_def in_order_def)
  have alive: "\<not> isServerDead (accept_request req (l_net L)) (ce_endname e) n a" using n by (simp add: isServerDead_def)
  have heap: "map services ((l_heap L)[a := rs]) = map services (l_heap L)"
    using svc a by (simp add: map_update list_update_same_conv)
  have run: "l_running L" using ok by (simp add: in_order_def)
  show ?thesis
    using start alive heap run req a dispatch by (simp add: call_steps same_wiring_def nth_append AddBytes_def)
qed

lemma net_call_direct:
  fixes L L0 :: "'s kvlab"
  assumes cd: "coders_ok cd" and wiring: "same_wiring L0 L" and ok: "in_order L0" and srv: "serves L0 e svcn meth"
    and name: "split_svcMeth name = Inr (svcn, meth)"
  shows "\<exists>L'. net_call cd r L e name args = (L', snd (direct_call (method_at L0 e svcn meth) (l_app L) args)) \<and>
     same_wiring L0 L' \<and> l_app L' = fst (direct_call (method_at L0 e svcn meth) (l_app L) args)"
proof -
  from cd obtain bs where bs: "cd_enc cd args = Some bs" "\<forall>t. cd_decode cd t bs = args" unfolding coders_ok_def by blast
  let ?req = "\<lparr>rq_endname = ce_endname e, rq_svcMeth = name, rq_argsType = type_name args, rq_args = bs\<rparr>"
  have req: "Call_request (cd_enc cd) e name (type_name args) args = Inr ?req" by (simp add: Call_request_def bs)
  have up: "in_order L" "l_running L" using ok wiring by (simp_all add: in_order_def same_wiring_def)
  have trans: "same_wiring L0 L'" if "same_wiring L L'" for L' using that wiring by (simp add: same_wiring_def)
  show ?thesis
  proof (cases "reached L0 e")
    case None
    have "reached L e = None" using None same_wiring_reached [OF wiring] by simp
    from run_down [OF this up(2), of ?req "cd_decode cd" "cd_encode cd" r] obtain L' outs where
      "go_run (lab_exec (cd_decode cd) (cd_encode cd)) L
         [Accept ?req, Begin (length (l_procs L)) r, Handle (length (l_procs L)), Receive (length (l_procs L)),
          End (length (l_procs L)) r r, Fire (length (l_procs L))] = Inr (L', outs)"
      "replied_of (length (l_procs L)) outs = [noReply]" "same_wiring L L'" "l_app L' = l_app L" by auto
    with None trans show ?thesis by (simp add: net_call_def req Let_def Call_finish_def noReply_def method_at_def direct_call_def)
  next
    case (Some a)
    have reach: "reached L e = Some a" using Some same_wiring_reached [OF wiring] by simp
    from srv Some obtain m where a0: "a < length (l_heap L0)" and m: "method_at L0 e svcn meth = Some m"
      and fin: "\<forall>args s. codable (snd (m_func m args s))" by (auto simp: serves_def)
    note svcs = same_wiring_services [OF wiring]
    have a: "a < length (l_heap L)" using a0 svcs(1) by simp
    from m Some obtain svc where svc: "services (l_heap L0 ! a) svcn = Some svc" "svc_methods svc meth = Some m"
      by (auto simp: method_at_def bind_eq_Some_conv)
    obtain s v where mf: "m_func m args (l_app L) = (s, v)" by fastforce
    let ?rs = "(l_heap L ! a)\<lparr>srv_count := srv_count (l_heap L ! a) + 1\<rparr>"
    have dispatch: "Server_dispatch (cd_decode cd) (cd_encode cd) (l_heap L ! a) ?req (l_app L) =
        Inr (?rs, s, \<lparr>rp_ok = True, rp_reply = cd_encode cd v\<rparr>)"
      using svc svcs(2) [OF a0] mf name by (simp add: Server_dispatch_def Service_dispatch_def bs)
    from run_up [OF reach up(1) _ a dispatch, of r] obtain L' outs where
      "go_run (lab_exec (cd_decode cd) (cd_encode cd)) L
         [Accept ?req, Begin (length (l_procs L)) r, Handle (length (l_procs L)), Receive (length (l_procs L)),
          End (length (l_procs L)) r r, Fire (length (l_procs L))] = Inr (L', outs)"
      "replied_of (length (l_procs L)) outs = [\<lparr>rp_ok = True, rp_reply = cd_encode cd v\<rparr>]" "same_wiring L L'" "l_app L' = s" by auto
    moreover have "cd_dec cd (cd_encode cd v) = Some v" using cd fin [rule_format, of args "l_app L"] mf by (simp add: coders_ok_def)
    ultimately show ?thesis using m mf trans by (simp add: net_call_def req Let_def Call_finish_def direct_call_def)
  qed
qed

lemma method_names:
  "split_svcMeth ''ShardCtrler.Query'' = Inr (''ShardCtrler'', ''Query'')" "split_svcMeth ''ShardKV.Get'' = Inr (''ShardKV'', ''Get'')"
  "split_svcMeth ''ShardKV.PutAppend'' = Inr (''ShardKV'', ''PutAppend'')"
  using split_svcMeth_dot [of "''Query''" "''ShardCtrler''"] split_svcMeth_dot [of "''Get''" "''ShardKV''"]
    split_svcMeth_dot [of "''PutAppend''" "''ShardKV''"] by simp_all

lemma net_call_alike:
  assumes "coders_ok cd" and "in_order L0" and "same_wiring L0 L" and "serves L0 e svcn meth" and "split_svcMeth name = Inr (svcn, meth)"
  shows "rel_prod (\<lambda>L s. same_wiring L0 L \<and> l_app L = s) (=) (apsnd f (net_call cd r L e name args))
     (apsnd f (direct_call (method_at L0 e svcn meth) (l_app L) args))"
proof -
  from net_call_direct [OF assms(1,3,2,4,5), of r args] obtain L' where
    "net_call cd r L e name args = (L', snd (direct_call (method_at L0 e svcn meth) (l_app L) args))"
    "same_wiring L0 L'" "l_app L' = fst (direct_call (method_at L0 e svcn meth) (l_app L) args)" by blast
  then show ?thesis by (cases "direct_call (method_at L0 e svcn meth) (l_app L) args") simp
qed

text \<open>The network and the servers behind it look like the servers alone.\<close>

lemma net_looks_direct:
  assumes cd: "coders_ok cd" and ok: "in_order L0" and ctl: "\<forall>e \<in> E. serves L0 e ''ShardCtrler'' ''Query''"
    and kv: "\<forall>srv. serves L0 (mke srv) ''ShardKV'' ''Get'' \<and> serves L0 (mke srv) ''ShardKV'' ''PutAppend''"
  shows "looks_like (\<lambda>L s. same_wiring L0 L \<and> l_app L = s) E (net_system cd r mke now sleep) (direct_system L0 mke now sleep)"
proof -
  have sleep: "same_wiring L0 (L\<lparr>l_app := s\<rparr>) = same_wiring L0 L" for L s by (simp add: same_wiring_def)
  show ?thesis
    unfolding looks_like_def alike_def net_system_def direct_system_def
    using ctl kv by (auto simp: sleep intro!: net_call_alike [OF cd ok] method_names)
qed

lemma alike_app: "rel_option (rel_prod (\<lambda>L s. P L \<and> l_app L = s) (=)) x y \<Longrightarrow> map_option (apfst l_app) x = y"
  by (cases x; cases y) auto

text \<open>
  C11: A reliable network is transparent to the clients. On a network that is reliable, without long reordering and still running, whose live servers have the methods
  that are called on them, \<^verbatim>\<open>Get\<close> through both clerks, the ends, the goroutines of the network and the dispatch by service and method
  name gives exactly what it gives when the calls go straight to the methods and a call to a server that is not there gives no reply: the same
  value, the same configuration in the clerk, the same state behind the servers, or no end of the loop in either. The same holds for \<^verbatim>\<open>Put\<close> and \<^verbatim>\<open>Append\<close>.
\<close>

theorem reliable_network_transparent:
  assumes "coders_ok cd" and "in_order L" and "\<forall>e \<in> set (ck_servers (fst c)). serves L e ''ShardCtrler'' ''Query''"
    and "\<forall>srv. serves L (mke srv) ''ShardKV'' ''Get'' \<and> serves L (mke srv) ''ShardKV'' ''PutAppend''"
  shows "map_option (apfst l_app) (client_Get fuel (net_system cd r mke now sleep) c key L) =
       client_Get fuel (direct_system L mke now sleep) c key (l_app L) \<and>
     map_option (apfst l_app) (client_PutAppend fuel (net_system cd r mke now sleep) c key value op L) =
       client_PutAppend fuel (direct_system L mke now sleep) c key value op (l_app L)"
proof -
  let ?R = "\<lambda>L' s. same_wiring L L' \<and> l_app L' = s"
  note like = net_looks_direct [OF assms, of r now sleep]
  have R: "?R L (l_app L)" by (simp add: same_wiring_def)
  show ?thesis
    using client_Get_alike [OF like order_refl R, of fuel key] client_PutAppend_alike [OF like order_refl R, of fuel key "value" op]
    by (blast intro: alike_app)
qed

section \<open>A network with two servers\<close>

text \<open>Coders that number the values: a value is as many bytes as its number says.\<close>

fun args_tuple :: "kv_args \<Rightarrow> (int \<times> int \<times> int) + (string \<times> int \<times> int) + (string \<times> string \<times> string \<times> int \<times> int)" where
  "args_tuple (AQuery q) = Inl (qa_Num q, qa_ClientId q, qa_TimeStamp q)"
| "args_tuple (AGet g) = Inr (Inl (ga_Key g, ga_ClientId g, ga_TimeStamp g))"
| "args_tuple (APut p) = Inr (Inr (pa_Key p, pa_Value p, pa_Op p, pa_ClientId p, pa_TimeStamp p))"

fun tuple_args :: "(int \<times> int \<times> int) + (string \<times> int \<times> int) + (string \<times> string \<times> string \<times> int \<times> int) \<Rightarrow> kv_args" where
  "tuple_args (Inl (n, c, t)) = AQuery \<lparr>qa_Num = n, qa_ClientId = c, qa_TimeStamp = t\<rparr>"
| "tuple_args (Inr (Inl (k, c, t))) = AGet \<lparr>ga_Key = k, ga_ClientId = c, ga_TimeStamp = t\<rparr>"
| "tuple_args (Inr (Inr (k, v, op, c, t))) = APut \<lparr>pa_Key = k, pa_Value = v, pa_Op = op, pa_ClientId = c, pa_TimeStamp = t\<rparr>"

type_synonym config_row = "int \<times> int list \<times> (int \<times> string list) list"

definition config_tuple :: "Config \<Rightarrow> config_row" where
  "config_tuple cfg = (Num cfg, Shards cfg, map (\<lambda>g. (g, the (Groups cfg g))) (sorted_list_of_set (dom (Groups cfg))))"

fun tuple_config :: "config_row \<Rightarrow> Config" where
  "tuple_config (n, s, g) = \<lparr>Num = n, Shards = s, Groups = map_of g\<rparr>"

fun reply_tuple :: "kv_reply \<Rightarrow> (bool \<times> string \<times> config_row) + (string \<times> string) + (config_row \<times> string)" where
  "reply_tuple (RQuery q) = Inl (qr_WrongLeader q, qr_Err q, config_tuple (qr_Config q))"
| "reply_tuple (RGet g) = Inr (Inl (gr_Err g, gr_Value g))"
| "reply_tuple (RPut p) = Inr (Inr (config_tuple (pr_Config p), pr_Err p))"

fun tuple_reply :: "(bool \<times> string \<times> config_row) + (string \<times> string) + (config_row \<times> string) \<Rightarrow> kv_reply" where
  "tuple_reply (Inl (w, e, c)) = RQuery \<lparr>qr_WrongLeader = w, qr_Err = e, qr_Config = tuple_config c\<rparr>"
| "tuple_reply (Inr (Inl (e, v))) = RGet \<lparr>gr_Err = e, gr_Value = v\<rparr>"
| "tuple_reply (Inr (Inr (c, e))) = RPut \<lparr>pr_Config = tuple_config c, pr_Err = e\<rparr>"

definition example_coders :: coders where
  "example_coders =
     \<lparr>cd_enc = \<lambda>a. Some (replicate (to_nat (args_tuple a)) 0), cd_decode = \<lambda>t bs. tuple_args (from_nat (length bs)),
      cd_encode = \<lambda>v. replicate (to_nat (reply_tuple v)) 0, cd_dec = \<lambda>bs. Some (tuple_reply (from_nat (length bs)))\<rparr>"

lemma tuple_config_inverse:
  assumes "finite (dom (Groups cfg))"
  shows "tuple_config (config_tuple cfg) = cfg"
proof -
  have "map_of (map (\<lambda>g. (g, the (Groups cfg g))) (sorted_list_of_set (dom (Groups cfg)))) = Groups cfg"
    using assms by (intro ext) (auto simp: map_of_map_restrict restrict_map_def domIff)
  then show ?thesis by (simp add: config_tuple_def)
qed

lemma example_coders_ok: "coders_ok example_coders"
proof -
  have "tuple_args (args_tuple a) = a" for a by (cases a) simp_all
  moreover have "tuple_reply (reply_tuple v) = v" if "codable v" for v using that by (cases v) (simp_all add: tuple_config_inverse)
  ultimately show ?thesis by (simp add: coders_ok_def example_coders_def)
qed

text \<open>A controller, and one key/value server under the name \<open>s1\<close>, whose state is the value of all keys; the second server of the group is not there.\<close>

abbreviation "kv_method name f \<equiv> \<lparr>m_name = name, m_pkgPath = [], m_numIn = 3, m_in2Ptr = True, m_numOut = 0, m_func = f\<rparr>"

definition example_net :: "string kvlab" where
  "example_net =
     \<lparr>l_net = MakeNetwork\<lparr>net_enabled := [NStr ''c'' \<mapsto> True, NStr ''s1'' \<mapsto> True], net_servers := [NInt 0 \<mapsto> Some 0, NInt 1 \<mapsto> Some 1],
        net_connections := [NStr ''c'' \<mapsto> Some (NInt 0), NStr ''s1'' \<mapsto> Some (NInt 1)]\<rparr>,
      l_heap = [AddService (MakeService ''ShardCtrler'' [kv_method ''Query'' (\<lambda>a s. (s, RQuery \<lparr>qr_WrongLeader = False, qr_Err = [], qr_Config = example_kv_config\<rparr>))]) MakeServer,
        AddService (MakeService ''ShardKV'' [kv_method ''Get'' (\<lambda>a s. (s, RGet \<lparr>gr_Err = OK, gr_Value = s\<rparr>)),
          kv_method ''PutAppend'' (\<lambda>a s. ((case a of APut p \<Rightarrow> pa_Value p | _ \<Rightarrow> s), RPut \<lparr>pr_Config = example_kv_config, pr_Err = OK\<rparr>))]) MakeServer],
      l_app = ''old'', l_procs = [], l_running = True\<rparr>"

abbreviation "end_to srv \<equiv> \<lparr>ce_endname = NStr srv\<rparr>"

lemmas example_net_defs = example_net_def MakeNetwork_def AddService_def MakeService_def MakeServer_def suitable_method_def
  enabled_at_def connection_at_def server_at_def

lemma example_net_reached:
  "reached example_net (end_to srv) = (if srv = ''c'' then Some 0 else if srv = ''s1'' then Some 1 else None)"
  by (simp add: reached_def example_net_defs)

lemma example_net_serves:
  "serves example_net (end_to ''c'') ''ShardCtrler'' ''Query''"
  "srv \<noteq> ''c'' \<Longrightarrow> serves example_net (end_to srv) ''ShardKV'' ''Get''" "srv \<noteq> ''c'' \<Longrightarrow> serves example_net (end_to srv) ''ShardKV'' ''PutAppend''"
  unfolding serves_def method_at_def example_net_reached by (simp_all add: example_net_defs example_kv_config_def)

definition example_end :: "string \<Rightarrow> ClientEnd" where
  "example_end srv = end_to (if srv = ''s1'' then ''s1'' else ''nowhere'')"

lemma reliable_network_transparent_witness:
  "\<exists>L' ck. client_Get 1 (net_system example_coders 4 example_end (\<lambda>s. 5) id) (kv_MakeClerk [end_to ''c''] 8 9) ''key'' example_net = Some (L', ck, ''old'') \<and>
     l_app L' = ''old''"
proof -
  let ?c = "kv_MakeClerk [end_to ''c''] 8 9"
  have ctl: "\<forall>e \<in> set (ck_servers (fst ?c)). serves example_net e ''ShardCtrler'' ''Query''"
    using example_net_serves(1) by (simp add: kv_MakeClerk_def MakeClerk_def)
  have kv: "\<forall>srv. serves example_net (example_end srv) ''ShardKV'' ''Get'' \<and> serves example_net (example_end srv) ''ShardKV'' ''PutAppend''"
    unfolding example_end_def by (intro allI conjI example_net_serves) simp_all
  have ok: "in_order example_net" by (simp add: in_order_def example_net_defs)
  have query: "method_at example_net (end_to ''c'') ''ShardCtrler'' ''Query'' =
      Some (kv_method ''Query'' (\<lambda>a s. (s, RQuery \<lparr>qr_WrongLeader = False, qr_Err = [], qr_Config = example_kv_config\<rparr>)))"
    and get: "method_at example_net (end_to ''s1'') ''ShardKV'' ''Get'' = Some (kv_method ''Get'' (\<lambda>a s. (s, RGet \<lparr>gr_Err = OK, gr_Value = s\<rparr>)))"
    unfolding method_at_def example_net_reached by (simp_all add: example_net_defs)
  have app: "l_app example_net = ''old''" by (simp add: example_net_def)
  let ?D = "direct_system example_net example_end (\<lambda>s. 5) id"
  have q: "sm_Query 1 ?D (fst ?c) (-1) ''old'' = Some (''old'', example_kv_config)"
    by (simp add: sm_Query_def kv_MakeClerk_def MakeClerk_def direct_system_def direct_call_def query query_reply_def judge_query_def)
  have "\<exists>ck. client_Get 1 ?D ?c ''key'' ''old'' = Some (''old'', ck, ''old'')"
    using q by (simp add: client_Get_def client_run_def example_group direct_system_def direct_call_def example_end_def get get_reply_def judge_get_def)
  then obtain ck where "client_Get 1 ?D ?c ''key'' (l_app example_net) = Some (''old'', ck, ''old'')" unfolding app by blast
  with reliable_network_transparent [OF example_coders_ok ok ctl kv, THEN conjunct1, of 1 4 "\<lambda>s. 5" id "''key''"]
  have "map_option (apfst l_app) (client_Get 1 (net_system example_coders 4 example_end (\<lambda>s. 5) id) ?c ''key'' example_net) = Some (''old'', ck, ''old'')"
    by (rule trans)
  then show ?thesis by auto
qed

end
