(* ===== verification/ShardKVConfig.thy ===== *)
theory ShardKVConfig
  imports ShardKV Tester Restart "HOL-Library.Countable"
begin

text \<open>
  The tester of the sharded key/value service, \<^verbatim>\<open>src/shardkv/config.go\<close>: the controller service, the
  groups of servers with their ends and persisters, and the clerks.

  As in the other testers, instances and persisters live on heaps; a \<^verbatim>\<open>labrpc.Server\<close> is known by a
  number. \<open>mk\<close> stands for \<^verbatim>\<open>raft.Make\<close> and \<open>decodeSnapshot\<close> for the method of that name, whose bodies are not
  part of the sources; \<open>kp_clerk\<close> is the draw of the identity of the clerk that a new server makes.

  Shown here: a restarted server decodes the snapshot that was persisted when it was shut down; the
  name of a server leads to its running instance, or nowhere when it is shut down, and the names that
  \<^verbatim>\<open>joinm\<close> tells the controller are these; the tester works for exactly three servers in a group.
\<close>

section \<open>State\<close>

record kinst =
  ki_kv :: ShardKV
  ki_rf :: "KVOp Raft"
  ki_ps :: nat
  ki_srv :: nat

record kgroup =
  gg_gid :: int
  gg_servers :: "nat option list"
  gg_saved :: "nat option list"
  gg_endnames :: "string list option list"
  gg_mendnames :: "string list option list"

record ctrler =
  cs_n :: nat
  cs_servers :: "(ShardCtrler \<times> Op Raft) option list"
  cs_names :: "string list"
  cs_ck :: "ClientEnd Clerk option"

record kconfig =
  kg_net :: Network
  kg_ctl :: ctrler
  kg_ngroups :: nat
  kg_n :: nat
  kg_groups :: "kgroup list"
  kg_clerks :: "nat \<rightharpoonup> string list"
  kg_nextClientId :: int
  kg_maxraftstate :: int
  kg_pt :: pstate
  kg_insts :: "kinst list"
  kg_nsrv :: nat

text \<open>What the sources leave out.\<close>

record kparams =
  kp_make :: "ClientEnd list \<Rightarrow> int \<Rightarrow> nat \<Rightarrow> KVOp Raft"
  kp_ctlmake :: "ClientEnd list \<Rightarrow> int \<Rightarrow> nat \<Rightarrow> Op Raft"
  kp_decodeSnapshot :: "gbytes \<Rightarrow> ShardKV \<Rightarrow> ShardKV"
  kp_clerk :: nat

section \<open>Names\<close>

definition ctrlername :: "ctrler \<Rightarrow> nat \<Rightarrow> string go" where
  "ctrlername ctl i = go_nth (cs_names ctl) (int i)"

definition servername :: "int \<Rightarrow> nat \<Rightarrow> string" where
  "servername gid i = ''server-'' @ itoa gid @ ''-'' @ itoa (int i)"

text \<open>A loop over the replicas of the controller that makes an enabled end to each.\<close>

fun ctrler_ends :: "ctrler \<Rightarrow> (nat \<Rightarrow> string) \<Rightarrow> nat list \<Rightarrow> Network \<Rightarrow> (Network \<times> ClientEnd list) go" where
  "ctrler_ends ctl rnd [] net = Inr (net, [])"
| "ctrler_ends ctl rnd (j # js) net =
     go_bind (MakeEnd (NStr (rnd j)) net) (\<lambda>(net1, e).
     go_bind (ctrlername ctl j) (\<lambda>name.
     go_bind (ctrler_ends ctl rnd js (Enable (NStr (rnd j)) True (Connect (NStr (rnd j)) (NStr name) net1)))
       (\<lambda>(net2, es). Inr (net2, e # es))))"

section \<open>The servers of a group\<close>

text \<open>\<^verbatim>\<open>rnd\<close> draws the names of the ends to the group, \<^verbatim>\<open>rndm\<close> those to the controller.\<close>

definition kv_start ::
    "kparams \<Rightarrow> (nat \<Rightarrow> string) \<Rightarrow> (nat \<Rightarrow> string) \<Rightarrow> nat \<Rightarrow> nat \<Rightarrow> kconfig \<Rightarrow> kconfig go" where
  "kv_start ps rnd rndm gi i cfg =
     go_bind (go_nth (kg_groups cfg) (int gi)) (\<lambda>gg.
     go_bind (go_update (gg_endnames gg) (int i) (Some (map rnd [0..<kg_n cfg]))) (\<lambda>ens.
     go_bind (make_ends rnd (\<lambda>j. NStr (servername (gg_gid gg) j)) True [0..<kg_n cfg] (kg_net cfg)) (\<lambda>(net1, ends).
     go_bind (go_update (gg_mendnames gg) (int i) (Some (map rndm [0..<cs_n (kg_ctl cfg)]))) (\<lambda>mens.
     go_bind (ctrler_ends (kg_ctl cfg) rndm [0..<cs_n (kg_ctl cfg)] net1) (\<lambda>(net2, mends).
     go_bind (go_nth (gg_saved gg) (int i)) (\<lambda>x.
     go_bind (copy_or_make (kg_pt cfg) x) (\<lambda>(pt1, a).
     go_bind (pexec pt1 (CallReadSnapshot a)) (\<lambda>(pt2, out).
       let snapshot = (case out of OReadSnapshot _ bs \<Rightarrow> bs | _ \<Rightarrow> []);
           kv = kv_StartServer (kp_decodeSnapshot ps) (kp_clerk ps) (int i) snapshot (kg_maxraftstate cfg) (gg_gid gg) mends;
           inst = \<lparr>ki_kv = kv, ki_rf = kp_make ps ends (int i) a, ki_ps = a, ki_srv = kg_nsrv cfg\<rparr>
       in go_bind (go_update (gg_servers gg) (int i) (Some (length (kg_insts cfg)))) (\<lambda>srv.
            Inr (cfg\<lparr>kg_net := AddServer (NStr (servername (gg_gid gg) i)) (kg_nsrv cfg) net2,
                     kg_groups := (kg_groups cfg)[gi := gg\<lparr>gg_endnames := ens, gg_mendnames := mens,
                       gg_saved := (gg_saved gg)[i := Some a], gg_servers := srv\<rparr>],
                     kg_pt := pt2, kg_insts := kg_insts cfg @ [inst], kg_nsrv := kg_nsrv cfg + 1\<rparr>))))))))))"

definition kv_kill_instance :: "nat \<Rightarrow> kinst list \<Rightarrow> kinst list" where
  "kv_kill_instance k insts =
     (let (kv, rf) = kv_Kill (ki_kv (insts ! k), ki_rf (insts ! k))
      in insts[k := (insts ! k)\<lparr>ki_kv := kv, ki_rf := rf\<rparr>])"

definition kv_shutdown :: "nat \<Rightarrow> nat \<Rightarrow> kconfig \<Rightarrow> kconfig go" where
  "kv_shutdown gi i cfg =
     go_bind (go_nth (kg_groups cfg) (int gi)) (\<lambda>gg.
     go_bind (enable_ends (\<lambda>_. True) (endname_at (gg_endnames gg) i) False [0..<length (gg_servers gg)] (kg_net cfg)) (\<lambda>net1.
     go_bind (go_nth (gg_mendnames gg) (int i)) (\<lambda>mens.
     go_bind (enable_ends (\<lambda>_. True) (endname_at (gg_mendnames gg) i) False
               [0..<length (case mens of None \<Rightarrow> [] | Some ns \<Rightarrow> ns)] net1) (\<lambda>net2.
     go_bind (go_nth (gg_saved gg) (int i)) (\<lambda>x.
     go_bind (copy_saved (kg_pt cfg) x) (\<lambda>(pt, x').
     go_bind (go_nth (gg_servers gg) (int i)) (\<lambda>kv.
       Inr (cfg\<lparr>kg_net := DeleteServer (NStr (servername (gg_gid gg) i)) net2,
                kg_groups := (kg_groups cfg)[gi := gg\<lparr>gg_saved := (gg_saved gg)[i := x'],
                  gg_servers := (gg_servers gg)[i := None]\<rparr>],
                kg_pt := pt,
                kg_insts := (case kv of None \<Rightarrow> kg_insts cfg | Some k \<Rightarrow> kv_kill_instance k (kg_insts cfg))\<rparr>))))))))"

fun shutdown_each :: "nat \<Rightarrow> nat list \<Rightarrow> kconfig \<Rightarrow> kconfig go" where
  "shutdown_each gi [] cfg = Inr cfg"
| "shutdown_each gi (i # is) cfg = go_bind (kv_shutdown gi i cfg) (shutdown_each gi is)"

definition ShutdownGroup :: "nat \<Rightarrow> kconfig \<Rightarrow> kconfig go" where
  "ShutdownGroup gi cfg = shutdown_each gi [0..<kg_n cfg] cfg"

text \<open>\<open>draws gi i\<close> are the two sources of names for a start of server \<open>i\<close> of group \<open>gi\<close>.\<close>

type_synonym draws = "nat \<Rightarrow> nat \<Rightarrow> (nat \<Rightarrow> string) \<times> (nat \<Rightarrow> string)"

fun kv_start_each :: "kparams \<Rightarrow> draws \<Rightarrow> nat \<Rightarrow> nat list \<Rightarrow> kconfig \<Rightarrow> kconfig go" where
  "kv_start_each ps draws gi [] cfg = Inr cfg"
| "kv_start_each ps draws gi (i # is) cfg =
     go_bind (kv_start ps (fst (draws gi i)) (snd (draws gi i)) gi i cfg) (kv_start_each ps draws gi is)"

definition StartGroup :: "kparams \<Rightarrow> draws \<Rightarrow> nat \<Rightarrow> kconfig \<Rightarrow> kconfig go" where
  "StartGroup ps draws gi cfg = kv_start_each ps draws gi [0..<kg_n cfg] cfg"

section \<open>The controller service\<close>

definition StartCtrlerServer :: "kparams \<Rightarrow> (nat \<Rightarrow> string) \<Rightarrow> nat \<Rightarrow> kconfig \<Rightarrow> kconfig go" where
  "StartCtrlerServer ps rnd i cfg =
     (let ctl = kg_ctl cfg
      in go_bind (ctrler_ends ctl rnd [0..<cs_n ctl] (kg_net cfg)) (\<lambda>(net, ends).
         go_bind (pexec (kg_pt cfg) CallMake) (\<lambda>(pt, _).
         go_bind (go_update (cs_servers ctl) (int i)
                   (Some (StartServer (int i), kp_ctlmake ps ends (int i) (length (pt_ps (kg_pt cfg)))))) (\<lambda>srv.
         go_bind (ctrlername ctl i) (\<lambda>name.
           Inr (cfg\<lparr>kg_net := AddServer (NStr name) (kg_nsrv cfg) net, kg_ctl := ctl\<lparr>cs_servers := srv\<rparr>,
                    kg_pt := pt, kg_nsrv := kg_nsrv cfg + 1\<rparr>))))))"

fun start_ctrlers :: "kparams \<Rightarrow> (nat \<Rightarrow> nat \<Rightarrow> string) \<Rightarrow> nat list \<Rightarrow> kconfig \<Rightarrow> kconfig go" where
  "start_ctrlers ps rnd [] cfg = Inr cfg"
| "start_ctrlers ps rnd (i # is) cfg = go_bind (StartCtrlerServer ps (rnd i) i cfg) (start_ctrlers ps rnd is)"

definition ctrlerclerk :: "(nat \<Rightarrow> string) \<Rightarrow> nat \<Rightarrow> kconfig \<Rightarrow> (kconfig \<times> ClientEnd Clerk) go" where
  "ctrlerclerk rnd r cfg =
     go_bind (ctrler_ends (kg_ctl cfg) rnd [0..<cs_n (kg_ctl cfg)] (kg_net cfg)) (\<lambda>(net, ends).
       Inr (cfg\<lparr>kg_net := net\<rparr>, MakeClerk ends r))"

text \<open>\<open>rndn\<close> draws the names of the replicas, \<open>rnd\<close> those of their ends and \<open>rndc\<close> those of the clerk's ends.\<close>

definition StartCtrlerService ::
    "kparams \<Rightarrow> (nat \<Rightarrow> string) \<Rightarrow> (nat \<Rightarrow> nat \<Rightarrow> string) \<Rightarrow> (nat \<Rightarrow> string) \<Rightarrow> nat \<Rightarrow> kconfig \<Rightarrow> kconfig go" where
  "StartCtrlerService ps rndn rnd rndc r cfg =
     (let ctl = \<lparr>cs_n = 3, cs_servers = replicate 3 None, cs_names = map (\<lambda>i. ''ctlr-'' @ rndn i) [0..<3], cs_ck = None\<rparr>
      in go_bind (start_ctrlers ps rnd [0..<3] (cfg\<lparr>kg_ctl := ctl\<rparr>)) (\<lambda>cfg1.
         go_bind (ctrlerclerk rndc r cfg1) (\<lambda>(cfg2, ck).
           Inr (cfg2\<lparr>kg_ctl := (kg_ctl cfg2)\<lparr>cs_ck := Some ck\<rparr>\<rparr>))))"

section \<open>Making a configuration\<close>

text \<open>The sizes are those of the code: the names of the ends to the controller have room for \<^verbatim>\<open>ctl.n\<close> servers.\<close>

definition new_group :: "nat \<Rightarrow> nat \<Rightarrow> nat \<Rightarrow> kgroup" where
  "new_group n ctln gi = \<lparr>gg_gid = 100 + int gi, gg_servers = replicate n None, gg_saved = replicate n None,
     gg_endnames = replicate n None, gg_mendnames = replicate ctln None\<rparr>"

fun start_groups :: "kparams \<Rightarrow> draws \<Rightarrow> nat list \<Rightarrow> kconfig \<Rightarrow> kconfig go" where
  "start_groups ps draws [] cfg = Inr cfg"
| "start_groups ps draws (gi # gis) cfg = go_bind (StartGroup ps draws gi cfg) (start_groups ps draws gis)"

definition empty_kconfig :: "int \<Rightarrow> kconfig" where
  "empty_kconfig maxraftstate =
     \<lparr>kg_net = MakeNetwork, kg_ctl = \<lparr>cs_n = 0, cs_servers = [], cs_names = [], cs_ck = None\<rparr>, kg_ngroups = 0, kg_n = 0,
      kg_groups = [], kg_clerks = Map.empty, kg_nextClientId = 0, kg_maxraftstate = maxraftstate, kg_pt = pinit,
      kg_insts = [], kg_nsrv = 0\<rparr>"

text \<open>
  \<^verbatim>\<open>make_config\<close> up to the groups, and the rest. A group is allocated just before its servers start, which
  is not told apart from allocating all groups first, as a start looks at its own group only.
\<close>

definition kv_prepare ::
    "kparams \<Rightarrow> (nat \<Rightarrow> string) \<Rightarrow> (nat \<Rightarrow> nat \<Rightarrow> string) \<Rightarrow> (nat \<Rightarrow> string) \<Rightarrow> nat \<Rightarrow> nat \<Rightarrow> int \<Rightarrow> kconfig go" where
  "kv_prepare ps rndn rnd rndc r n maxraftstate =
     go_bind (StartCtrlerService ps rndn rnd rndc r (empty_kconfig maxraftstate)) (\<lambda>cfg.
       Inr (cfg\<lparr>kg_ngroups := 3, kg_n := n, kg_groups := map (new_group n (cs_n (kg_ctl cfg))) [0..<3]\<rparr>))"

definition kv_make_config ::
    "kparams \<Rightarrow> (nat \<Rightarrow> string) \<Rightarrow> (nat \<Rightarrow> nat \<Rightarrow> string) \<Rightarrow> (nat \<Rightarrow> string) \<Rightarrow> nat \<Rightarrow> draws \<Rightarrow> nat \<Rightarrow> bool \<Rightarrow> int \<Rightarrow> kconfig go" where
  "kv_make_config ps rndn rnd rndc r draws n unreliable maxraftstate =
     go_bind (kv_prepare ps rndn rnd rndc r n maxraftstate) (\<lambda>cfg1.
     go_bind (start_groups ps draws [0..<kg_ngroups cfg1] cfg1) (\<lambda>cfg2.
       Inr (cfg2\<lparr>kg_nextClientId := int (kg_n cfg2) + 1000, kg_net := Reliable (\<not> unreliable) (kg_net cfg2)\<rparr>)))"

section \<open>Clerks, groups that join and leave, checks\<close>

text \<open>The slice of names has \<^verbatim>\<open>cfg.n\<close> places, the loop runs over the replicas of the controller.\<close>

fun kv_client_loop ::
    "ctrler \<Rightarrow> (nat \<Rightarrow> string) \<Rightarrow> nat list \<Rightarrow> string list \<Rightarrow> Network \<Rightarrow> (string list \<times> Network \<times> ClientEnd list) go" where
  "kv_client_loop ctl rnd [] endnames net = Inr (endnames, net, [])"
| "kv_client_loop ctl rnd (j # js) endnames net =
     go_bind (go_update endnames (int j) (rnd j)) (\<lambda>endnames1.
     go_bind (MakeEnd (NStr (rnd j)) net) (\<lambda>(net1, e).
     go_bind (ctrlername ctl j) (\<lambda>name.
     go_bind (kv_client_loop ctl rnd js endnames1 (Enable (NStr (rnd j)) True (Connect (NStr (rnd j)) (NStr name) net1)))
       (\<lambda>(ns, net2, es). Inr (ns, net2, e # es)))))"

definition kv_makeClient :: "(nat \<Rightarrow> string) \<Rightarrow> nat \<Rightarrow> kconfig \<Rightarrow> (kconfig \<times> ClientEnd list) go" where
  "kv_makeClient rnd ck cfg =
     go_bind (kv_client_loop (kg_ctl cfg) rnd [0..<cs_n (kg_ctl cfg)] (replicate (kg_n cfg) []) (kg_net cfg)) (\<lambda>(endnames, net, ends).
       Inr (cfg\<lparr>kg_net := net, kg_clerks := (kg_clerks cfg)(ck \<mapsto> endnames),
                kg_nextClientId := kg_nextClientId cfg + 1\<rparr>, ends))"

definition kv_deleteClient :: "nat \<Rightarrow> kconfig \<Rightarrow> kconfig" where
  "kv_deleteClient ck cfg = cfg\<lparr>kg_clerks := (kg_clerks cfg)(ck := None)\<rparr>"

text \<open>The function that makes an end to a named server, given to clerks and servers.\<close>

definition make_end :: "string \<Rightarrow> string \<Rightarrow> kconfig \<Rightarrow> (kconfig \<times> ClientEnd) go" where
  "make_end name servernm cfg =
     go_bind (MakeEnd (NStr name) (kg_net cfg)) (\<lambda>(net, e).
       Inr (cfg\<lparr>kg_net := Enable (NStr name) True (Connect (NStr name) (NStr servernm) net)\<rparr>, e))"

text \<open>What \<^verbatim>\<open>joinm\<close> and \<^verbatim>\<open>leavem\<close> hand to the controller's clerk.\<close>

fun joinm :: "kconfig \<Rightarrow> nat list \<Rightarrow> (int \<rightharpoonup> string list) \<Rightarrow> (int \<rightharpoonup> string list) go" where
  "joinm cfg [] m = Inr m"
| "joinm cfg (g # gis) m =
     go_bind (go_nth (kg_groups cfg) (int g)) (\<lambda>gg.
       joinm cfg gis (m(gg_gid gg \<mapsto> map (servername (gg_gid gg)) [0..<kg_n cfg])))"

fun leavem :: "kconfig \<Rightarrow> nat list \<Rightarrow> int list go" where
  "leavem cfg [] = Inr []"
| "leavem cfg (g # gis) =
     go_bind (go_nth (kg_groups cfg) (int g)) (\<lambda>gg. go_bind (leavem cfg gis) (\<lambda>gids. Inr (gg_gid gg # gids)))"

definition check_saved :: "pstate \<Rightarrow> int \<Rightarrow> nat option \<Rightarrow> unit go" where
  "check_saved pt maxraftstate x =
     (case x of
        None \<Rightarrow> Inl NilDereference
      | Some a \<Rightarrow>
          let raft = RaftStateSize (pt_heap pt) (pt_ps pt ! a);
              (heap, slice) = ReadSnapshot (pt_heap pt) (pt_ps pt ! a);
              snap = length (deref heap slice)
          in if 0 \<le> maxraftstate \<and> int raft > 8 * maxraftstate then Inl (LogFatal ''RaftStateSize too big'')
             else if maxraftstate < 0 \<and> 0 < snap then Inl (LogFatal ''snapshot is non-empty'')
             else Inr ())"

fun check_each :: "pstate \<Rightarrow> int \<Rightarrow> nat option list \<Rightarrow> unit go" where
  "check_each pt maxraftstate [] = Inr ()"
| "check_each pt maxraftstate (x # xs) =
     go_bind (check_saved pt maxraftstate x) (\<lambda>_. check_each pt maxraftstate xs)"

definition checklogs :: "kconfig \<Rightarrow> unit go" where
  "checklogs cfg =
     check_each (kg_pt cfg) (kg_maxraftstate cfg)
       (concat (map (\<lambda>gg. take (kg_n cfg) (gg_saved gg)) (take (kg_ngroups cfg) (kg_groups cfg))))"


section \<open>Names tell the servers apart\<close>

lemma itoa_int_no_dash: "CHR ''-'' \<notin> set (itoa (int k))"
  using itoa_int_digits minus_not_digit by blast

lemma servername_inject:
  assumes "servername (int g) i = servername (int g') i'"
  shows "g = g' \<and> i = i'"
proof -
  have eq: "itoa (int g) @ CHR ''-'' # itoa (int i) = itoa (int g') @ CHR ''-'' # itoa (int i')"
    using assms by (simp add: servername_def)
  have head: "takeWhile (\<lambda>c. c \<noteq> CHR ''-'') (itoa (int k) @ CHR ''-'' # xs) = itoa (int k)" for k xs
  proof -
    have "takeWhile (\<lambda>c. c \<noteq> CHR ''-'') (itoa (int k) @ CHR ''-'' # xs) = itoa (int k) @ takeWhile (\<lambda>c. c \<noteq> CHR ''-'') (CHR ''-'' # xs)"
      by (rule takeWhile_append2) (use itoa_int_no_dash in fastforce)
    then show ?thesis by simp
  qed
  from eq head have "itoa (int g) = itoa (int g')" by metis
  with eq show ?thesis by (simp add: itoa_inject)
qed

section \<open>Sequences of operations\<close>

text \<open>
  \<open>GEnd\<close> is a call of the function \<^verbatim>\<open>make_end\<close> by a clerk or a server, \<open>GInst\<close> a call of an instance, shut
  down or not, to its persister.
\<close>

datatype kg_act =
    GStart nat nat "nat \<Rightarrow> string" "nat \<Rightarrow> string"
  | GShut nat nat
  | GClient "nat \<Rightarrow> string" nat
  | GEnd string string
  | GInst nat pcall

fun kg_exec :: "kparams \<Rightarrow> kconfig \<Rightarrow> kg_act \<Rightarrow> (kconfig \<times> unit) go" where
  "kg_exec ps cfg (GStart gi i rnd rndm) = go_bind (kv_start ps rnd rndm gi i cfg) (\<lambda>cfg'. Inr (cfg', ()))"
| "kg_exec ps cfg (GShut gi i) = go_bind (kv_shutdown gi i cfg) (\<lambda>cfg'. Inr (cfg', ()))"
| "kg_exec ps cfg (GClient rnd ck) = go_bind (kv_makeClient rnd ck cfg) (\<lambda>(cfg', _). Inr (cfg', ()))"
| "kg_exec ps cfg (GEnd name servernm) = go_bind (make_end name servernm cfg) (\<lambda>(cfg', _). Inr (cfg', ()))"
| "kg_exec ps cfg (GInst k call) = go_bind (pexec (kg_pt cfg) call) (\<lambda>(pt, _). Inr (cfg\<lparr>kg_pt := pt\<rparr>, ()))"

text \<open>The entry for server \<open>i\<close> of group \<open>gi\<close> in one of the lists of the groups.\<close>

definition group_slot :: "(kgroup \<Rightarrow> nat option list) \<Rightarrow> kgroup list \<Rightarrow> nat \<times> nat \<Rightarrow> nat option" where
  "group_slot f groups = (\<lambda>(gi, i). if gi < length groups then at_slot (f (groups ! gi)) i else None)"

abbreviation running :: "kconfig \<Rightarrow> nat \<Rightarrow> nat \<Rightarrow> nat option" where
  "running cfg gi i \<equiv> group_slot gg_servers (kg_groups cfg) (gi, i)"

definition kg_disk :: "kconfig \<Rightarrow> (nat \<times> nat) disks" where
  "kg_disk cfg = \<lparr>dk_pt = kg_pt cfg, dk_saved = group_slot gg_saved (kg_groups cfg), dk_inst = map ki_ps (kg_insts cfg),
     dk_live = group_slot gg_servers (kg_groups cfg)\<rparr>"

fun kg_pre :: "kconfig \<Rightarrow> kg_act \<Rightarrow> bool" where
  "kg_pre cfg (GInst k call) \<longleftrightarrow> disk_pre (kg_disk cfg) (Inst k call)"
| "kg_pre cfg _ \<longleftrightarrow> True"

fun kg_effect :: "kg_act \<Rightarrow> (nat \<times> nat) disk_op list set" where
  "kg_effect (GStart gi i rnd rndm) = {[Fresh (gi, i), Peek (gi, i)]}"
| "kg_effect (GShut gi i) = {[Refresh (gi, i)]}"
| "kg_effect (GInst k call) = {[Inst k call]}"
| "kg_effect _ = {[]}"

lemma group_slot_update:
  assumes "gi < length groups" and "i < length (f (groups ! gi))" and "f gg = (f (groups ! gi))[i := v]"
  shows "group_slot f (groups[gi := gg]) = (group_slot f groups)((gi, i) := v)"
  using assms by (auto simp: group_slot_def fun_eq_iff nth_list_update at_slot_def)

lemma group_slot_at:
  "gi < length groups \<Longrightarrow> i < length (f (groups ! gi)) \<Longrightarrow> group_slot f groups (gi, i) = f (groups ! gi) ! i"
  by (simp add: group_slot_def at_slot_def)

lemma kill_instance_fields:
  "map ki_ps (kv_kill_instance k insts) = map ki_ps insts" "map ki_srv (kv_kill_instance k insts) = map ki_srv insts"
  by (simp_all add: kv_kill_instance_def kv_Kill_def map_update_same)

text \<open>What a start and a shutdown that succeed do, in one equation each.\<close>

lemma kv_startD:
  assumes "kv_start ps rnd rndm gi i cfg = Inr cfg'"
  obtains gg ens net1 ends mens net2 mends pt1 a pt2 bs where
    "gi < length (kg_groups cfg)" "gg = kg_groups cfg ! gi" "i < length (gg_saved gg)" "i < length (gg_servers gg)"
    "i < length (gg_mendnames gg)"
    "make_ends rnd (\<lambda>j. NStr (servername (gg_gid gg) j)) True [0..<kg_n cfg] (kg_net cfg) = Inr (net1, ends)"
    "ctrler_ends (kg_ctl cfg) rndm [0..<cs_n (kg_ctl cfg)] net1 = Inr (net2, mends)"
    "copy_or_make (kg_pt cfg) (gg_saved gg ! i) = Inr (pt1, a)"
    "pexec pt1 (CallReadSnapshot a) = Inr (pt2, OReadSnapshot a bs)"
    "cfg' = cfg\<lparr>kg_net := AddServer (NStr (servername (gg_gid gg) i)) (kg_nsrv cfg) net2,
       kg_groups := (kg_groups cfg)[gi := gg\<lparr>gg_endnames := ens, gg_mendnames := mens,
         gg_saved := (gg_saved gg)[i := Some a], gg_servers := (gg_servers gg)[i := Some (length (kg_insts cfg))]\<rparr>],
       kg_pt := pt2, kg_insts := kg_insts cfg @ [\<lparr>ki_kv = kv_StartServer (kp_decodeSnapshot ps) (kp_clerk ps) (int i) bs
           (kg_maxraftstate cfg) (gg_gid gg) mends, ki_rf = kp_make ps ends (int i) a, ki_ps = a, ki_srv = kg_nsrv cfg\<rparr>],
       kg_nsrv := kg_nsrv cfg + 1\<rparr>"
proof -
  let ?inst = "\<lambda>out mends a ends. \<lparr>ki_kv = kv_StartServer (kp_decodeSnapshot ps) (kp_clerk ps) (int i)
      (case out of OReadSnapshot _ bs \<Rightarrow> bs | _ \<Rightarrow> []) (kg_maxraftstate cfg) (gg_gid (kg_groups cfg ! gi)) mends,
      ki_rf = kp_make ps ends (int i) a, ki_ps = a, ki_srv = kg_nsrv cfg\<rparr>"
  from assms obtain gg net1 ends mens net2 mends pt1 a pt2 out ens where
    f: "gi < length (kg_groups cfg)" "gg = kg_groups cfg ! gi" "i < length (gg_saved gg)" "i < length (gg_servers gg)"
    "i < length (gg_mendnames gg)"
    "make_ends rnd (\<lambda>j. NStr (servername (gg_gid gg) j)) True [0..<kg_n cfg] (kg_net cfg) = Inr (net1, ends)"
    "ctrler_ends (kg_ctl cfg) rndm [0..<cs_n (kg_ctl cfg)] net1 = Inr (net2, mends)"
    "copy_or_make (kg_pt cfg) (gg_saved gg ! i) = Inr (pt1, a)"
    and read: "pexec pt1 (CallReadSnapshot a) = Inr (pt2, out)"
    and cfg': "cfg' = cfg\<lparr>kg_net := AddServer (NStr (servername (gg_gid gg) i)) (kg_nsrv cfg) net2,
       kg_groups := (kg_groups cfg)[gi := gg\<lparr>gg_endnames := ens, gg_mendnames := mens,
         gg_saved := (gg_saved gg)[i := Some a], gg_servers := (gg_servers gg)[i := Some (length (kg_insts cfg))]\<rparr>],
       kg_pt := pt2, kg_insts := kg_insts cfg @ [?inst out mends a ends], kg_nsrv := kg_nsrv cfg + 1\<rparr>"
    by (auto simp: kv_start_def go_bind_Inr go_nth_at go_update_at Let_def simp del: pexec.simps)
  from read obtain bs where out: "out = OReadSnapshot a bs"
    by (auto simp: with_ps_def Let_def split: if_splits prod.splits)
  from cfg' have "cfg' = cfg\<lparr>kg_net := AddServer (NStr (servername (gg_gid gg) i)) (kg_nsrv cfg) net2,
       kg_groups := (kg_groups cfg)[gi := gg\<lparr>gg_endnames := ens, gg_mendnames := mens,
         gg_saved := (gg_saved gg)[i := Some a], gg_servers := (gg_servers gg)[i := Some (length (kg_insts cfg))]\<rparr>],
       kg_pt := pt2, kg_insts := kg_insts cfg @ [\<lparr>ki_kv = kv_StartServer (kp_decodeSnapshot ps) (kp_clerk ps) (int i) bs
           (kg_maxraftstate cfg) (gg_gid gg) mends, ki_rf = kp_make ps ends (int i) a, ki_ps = a, ki_srv = kg_nsrv cfg\<rparr>],
       kg_nsrv := kg_nsrv cfg + 1\<rparr>" by (simp add: out f(2))
  from f read [unfolded out] this show thesis by (rule that)
qed

lemma kv_shutdownD:
  assumes "kv_shutdown gi i cfg = Inr cfg'"
  obtains gg net1 net2 pt x where
    "gi < length (kg_groups cfg)" "gg = kg_groups cfg ! gi" "i < length (gg_saved gg)" "i < length (gg_servers gg)"
    "enable_ends (\<lambda>_. True) (endname_at (gg_endnames gg) i) False [0..<length (gg_servers gg)] (kg_net cfg) = Inr net1"
    "enable_ends (\<lambda>_. True) (endname_at (gg_mendnames gg) i) False [0..<length (case gg_mendnames gg ! i of None \<Rightarrow> [] | Some ns \<Rightarrow> ns)] net1 = Inr net2"
    "copy_saved (kg_pt cfg) (gg_saved gg ! i) = Inr (pt, x)"
    "cfg' = cfg\<lparr>kg_net := DeleteServer (NStr (servername (gg_gid gg) i)) net2,
       kg_groups := (kg_groups cfg)[gi := gg\<lparr>gg_saved := (gg_saved gg)[i := x], gg_servers := (gg_servers gg)[i := None]\<rparr>],
       kg_pt := pt, kg_insts := (case gg_servers gg ! i of None \<Rightarrow> kg_insts cfg | Some k \<Rightarrow> kv_kill_instance k (kg_insts cfg))\<rparr>"
proof -
  from assms obtain gg net1 net2 pt x where
    "gi < length (kg_groups cfg)" "gg = kg_groups cfg ! gi" "i < length (gg_saved gg)" "i < length (gg_servers gg)"
    "enable_ends (\<lambda>_. True) (endname_at (gg_endnames gg) i) False [0..<length (gg_servers gg)] (kg_net cfg) = Inr net1"
    "enable_ends (\<lambda>_. True) (endname_at (gg_mendnames gg) i) False [0..<length (case gg_mendnames gg ! i of None \<Rightarrow> [] | Some ns \<Rightarrow> ns)] net1 = Inr net2"
    "copy_saved (kg_pt cfg) (gg_saved gg ! i) = Inr (pt, x)"
    "cfg' = cfg\<lparr>kg_net := DeleteServer (NStr (servername (gg_gid gg) i)) net2,
       kg_groups := (kg_groups cfg)[gi := gg\<lparr>gg_saved := (gg_saved gg)[i := x], gg_servers := (gg_servers gg)[i := None]\<rparr>],
       kg_pt := pt, kg_insts := (case gg_servers gg ! i of None \<Rightarrow> kg_insts cfg | Some k \<Rightarrow> kv_kill_instance k (kg_insts cfg))\<rparr>"
    by (auto simp: kv_shutdown_def go_bind_Inr go_nth_at)
  then show thesis by (rule that)
qed


section \<open>Restarting\<close>

lemma kg_exec_disk:
  assumes "kg_exec ps cfg act = Inr (cfg', u)" and "kg_pre cfg act"
  shows "\<exists>ops us. ops \<in> kg_effect act \<and> go_allowed disk_exec disk_pre (kg_disk cfg) ops \<and>
     go_run disk_exec (kg_disk cfg) ops = Inr (kg_disk cfg', us)"
proof (cases act)
  case (GStart gi i rnd rndm)
  with assms(1) have "kv_start ps rnd rndm gi i cfg = Inr cfg'" by (auto simp: go_bind_Inr)
  from kv_startD [OF this] obtain gg ens net2 ends mens mends pt1 a pt2 bs where
    gi: "gi < length (kg_groups cfg)" "gg = kg_groups cfg ! gi" "i < length (gg_saved gg)" "i < length (gg_servers gg)"
    and make: "copy_or_make (kg_pt cfg) (gg_saved gg ! i) = Inr (pt1, a)"
    and read: "pexec pt1 (CallReadSnapshot a) = Inr (pt2, OReadSnapshot a bs)"
    and cfg': "cfg' = cfg\<lparr>kg_net := AddServer (NStr (servername (gg_gid gg) i)) (kg_nsrv cfg) net2,
       kg_groups := (kg_groups cfg)[gi := gg\<lparr>gg_endnames := ens, gg_mendnames := mens,
         gg_saved := (gg_saved gg)[i := Some a], gg_servers := (gg_servers gg)[i := Some (length (kg_insts cfg))]\<rparr>],
       kg_pt := pt2, kg_insts := kg_insts cfg @ [\<lparr>ki_kv = kv_StartServer (kp_decodeSnapshot ps) (kp_clerk ps) (int i) bs
           (kg_maxraftstate cfg) (gg_gid gg) mends, ki_rf = kp_make ps ends (int i) a, ki_ps = a, ki_srv = kg_nsrv cfg\<rparr>],
       kg_nsrv := kg_nsrv cfg + 1\<rparr>" by metis
  have "group_slot gg_saved (kg_groups cfg') = (group_slot gg_saved (kg_groups cfg))((gi, i) := Some a)"
    "group_slot gg_servers (kg_groups cfg') = (group_slot gg_servers (kg_groups cfg))((gi, i) := Some (length (kg_insts cfg)))"
    using gi by (simp_all add: cfg' group_slot_update)
  moreover have "group_slot gg_saved (kg_groups cfg) (gi, i) = gg_saved gg ! i" using gi by (simp add: group_slot_at)
  ultimately show ?thesis
    using make read GStart by (simp add: kg_disk_def cfg' del: pexec.simps)
next
  case (GShut gi i)
  with assms(1) have "kv_shutdown gi i cfg = Inr cfg'" by (auto simp: go_bind_Inr)
  from kv_shutdownD [OF this] obtain gg net pt x where
    gi: "gi < length (kg_groups cfg)" "gg = kg_groups cfg ! gi" "i < length (gg_saved gg)" "i < length (gg_servers gg)"
    and copy: "copy_saved (kg_pt cfg) (gg_saved gg ! i) = Inr (pt, x)"
    and cfg': "cfg' = cfg\<lparr>kg_net := net,
       kg_groups := (kg_groups cfg)[gi := gg\<lparr>gg_saved := (gg_saved gg)[i := x], gg_servers := (gg_servers gg)[i := None]\<rparr>],
       kg_pt := pt, kg_insts := (case gg_servers gg ! i of None \<Rightarrow> kg_insts cfg | Some k \<Rightarrow> kv_kill_instance k (kg_insts cfg))\<rparr>"
    by metis
  have "group_slot gg_saved (kg_groups cfg') = (group_slot gg_saved (kg_groups cfg))((gi, i) := x)"
    "group_slot gg_servers (kg_groups cfg') = (group_slot gg_servers (kg_groups cfg))((gi, i) := None)"
    using gi by (simp_all add: cfg' group_slot_update)
  moreover have "group_slot gg_saved (kg_groups cfg) (gi, i) = gg_saved gg ! i" using gi by (simp add: group_slot_at)
  moreover have "map ki_ps (kg_insts cfg') = map ki_ps (kg_insts cfg)"
    by (simp add: cfg' kill_instance_fields split: option.splits)
  ultimately show ?thesis using copy GShut by (simp add: kg_disk_def cfg')
next
  case (GInst k call)
  with assms show ?thesis by (auto simp: go_bind_Inr kg_disk_def split: sum.splits)
qed (use assms in \<open>auto simp: go_bind_Inr kg_disk_def kv_makeClient_def make_end_def\<close>)

interpretation kg: restartable "kg_exec ps" "\<lambda>_. True" kg_pre kg_disk kg_effect for ps
  by unfold_locales (use kg_exec_disk in blast)+

text \<open>The state in which \<^verbatim>\<open>make_config\<close> starts the groups.\<close>

lemma StartCtrlerServer_fields:
  assumes "StartCtrlerServer ps rnd i cfg = Inr cfg'"
  shows "kg_groups cfg' = kg_groups cfg" "kg_insts cfg' = kg_insts cfg" "cs_n (kg_ctl cfg') = cs_n (kg_ctl cfg)"
    "kg_maxraftstate cfg' = kg_maxraftstate cfg" "psound (kg_pt cfg) \<Longrightarrow> psound (kg_pt cfg')" "cs_names (kg_ctl cfg') = cs_names (kg_ctl cfg)"
proof -
  have "psound pt'" if "psound pt" "pexec pt CallMake = Inr (pt', out)" for pt pt' out
    using pexec_keeps [OF that(1) _ that(2)] by (simp add: keeps_def)
  with assms show "kg_groups cfg' = kg_groups cfg" "kg_insts cfg' = kg_insts cfg" "cs_n (kg_ctl cfg') = cs_n (kg_ctl cfg)"
    "kg_maxraftstate cfg' = kg_maxraftstate cfg" "psound (kg_pt cfg) \<Longrightarrow> psound (kg_pt cfg')" "cs_names (kg_ctl cfg') = cs_names (kg_ctl cfg)"
    by (auto simp: StartCtrlerServer_def go_bind_Inr Let_def simp del: pexec.simps)
qed

lemma start_ctrlers_fields:
  "start_ctrlers ps rnd is cfg = Inr cfg' \<Longrightarrow> psound (kg_pt cfg) \<Longrightarrow>
     kg_groups cfg' = kg_groups cfg \<and> kg_insts cfg' = kg_insts cfg \<and> cs_n (kg_ctl cfg') = cs_n (kg_ctl cfg) \<and>
     psound (kg_pt cfg') \<and> cs_names (kg_ctl cfg') = cs_names (kg_ctl cfg)"
proof (induction "is" arbitrary: cfg)
  case (Cons i "is")
  then obtain cfg1 where "StartCtrlerServer ps (rnd i) i cfg = Inr cfg1" "start_ctrlers ps rnd is cfg1 = Inr cfg'"
    by (auto simp: go_bind_Inr)
  with Cons.IH [of cfg1] Cons.prems StartCtrlerServer_fields [of ps "rnd i" i cfg cfg1] show ?case by auto
qed simp

lemma kv_prepare_fields:
  assumes "kv_prepare ps rndn rnd rndc r n m = Inr cfg"
  shows "kg_groups cfg = map (new_group n 3) [0..<3]" and "kg_n cfg = n" and "kg_ngroups cfg = 3" and "kg_insts cfg = []"
    and "psound (kg_pt cfg)" and "cs_n (kg_ctl cfg) = 3"
proof -
  let ?ctl = "\<lparr>cs_n = 3, cs_servers = replicate 3 None, cs_names = map (\<lambda>i. ''ctlr-'' @ rndn i) [0..<3], cs_ck = None\<rparr>"
  from assms obtain cfg1 cfg2 ck where start: "start_ctrlers ps rnd [0..<3] ((empty_kconfig m)\<lparr>kg_ctl := ?ctl\<rparr>) = Inr cfg1"
    and clerk: "ctrlerclerk rndc r cfg1 = Inr (cfg2, ck)"
    and cfg: "cfg = cfg2\<lparr>kg_ctl := (kg_ctl cfg2)\<lparr>cs_ck := Some ck\<rparr>, kg_ngroups := 3, kg_n := n,
        kg_groups := map (new_group n (cs_n (kg_ctl cfg2))) [0..<3]\<rparr>"
    by (auto simp: kv_prepare_def StartCtrlerService_def go_bind_Inr Let_def)
  have "psound (kg_pt ((empty_kconfig m)\<lparr>kg_ctl := ?ctl\<rparr>))" by (simp add: empty_kconfig_def psound_pinit)
  from start_ctrlers_fields [OF start this] have one: "cs_n (kg_ctl cfg1) = 3" "kg_insts cfg1 = []" "psound (kg_pt cfg1)"
    by (simp_all add: empty_kconfig_def)
  with clerk have two: "cs_n (kg_ctl cfg2) = 3" "kg_insts cfg2 = []" "psound (kg_pt cfg2)"
    by (auto simp: ctrlerclerk_def go_bind_Inr)
  show "kg_groups cfg = map (new_group n 3) [0..<3]" and "kg_n cfg = n" and "kg_ngroups cfg = 3" and "kg_insts cfg = []"
    and "psound (kg_pt cfg)" and "cs_n (kg_ctl cfg) = 3"
    using two by (simp_all add: cfg)
qed


lemma group_slot_new: "group_slot gg_saved (map (new_group n c) gis) k = None" "group_slot gg_servers (map (new_group n c) gis) k = None"
  by (auto simp: group_slot_def at_slot_def new_group_def split: prod.splits)

lemma prepared_disk_ok:
  assumes "kv_prepare ps rndn rnd rndc r n m = Inr cfg"
  shows "disk_ok (kg_disk cfg)"
  using kv_prepare_fields [OF assms] by (simp add: disk_ok_def kg_disk_def group_slot_new)

lemma running_holds:
  assumes "disk_ok (kg_disk cfg)" and "running cfg gi i = Some j"
  shows "j < length (kg_insts cfg)" and "persisted (kg_disk cfg) (gi, i) = Some (held (kg_pt cfg) (ki_ps (kg_insts cfg ! j)))"
proof -
  have live: "dk_live (kg_disk cfg) (gi, i) = Some j" using assms(2) by (simp add: kg_disk_def)
  show j: "j < length (kg_insts cfg)" using disk_okD(6) [OF assms(1) live] by (simp add: kg_disk_def)
  have "group_slot gg_saved (kg_groups cfg) (gi, i) = Some (ki_ps (kg_insts cfg ! j))"
    using disk_okD(7) [OF assms(1) live] j by (simp add: kg_disk_def)
  then show "persisted (kg_disk cfg) (gi, i) = Some (held (kg_pt cfg) (ki_ps (kg_insts cfg ! j)))"
    by (simp add: persisted_def kg_disk_def)
qed

text \<open>A start hands the new server the snapshot of its persister.\<close>

lemma kv_start_snapshot:
  assumes ok: "disk_ok (kg_disk cfg)" and start: "kv_start ps rnd rndm gi i cfg = Inr cfg'"
  shows "\<exists>mends. running cfg' gi i = Some (length (kg_insts cfg)) \<and>
     ki_kv (kg_insts cfg' ! length (kg_insts cfg)) = kv_StartServer (kp_decodeSnapshot ps) (kp_clerk ps) (int i)
       (snd (held (kg_pt cfg') (ki_ps (kg_insts cfg' ! length (kg_insts cfg))))) (kg_maxraftstate cfg')
       (gg_gid (kg_groups cfg' ! gi)) mends"
proof -
  from kv_startD [OF start] obtain gg ens net2 ends mens mends pt1 a pt2 bs where
    gi: "gi < length (kg_groups cfg)" "gg = kg_groups cfg ! gi" "i < length (gg_saved gg)" "i < length (gg_servers gg)"
    and make: "copy_or_make (kg_pt cfg) (gg_saved gg ! i) = Inr (pt1, a)"
    and read: "pexec pt1 (CallReadSnapshot a) = Inr (pt2, OReadSnapshot a bs)"
    and cfg': "cfg' = cfg\<lparr>kg_net := AddServer (NStr (servername (gg_gid gg) i)) (kg_nsrv cfg) net2,
       kg_groups := (kg_groups cfg)[gi := gg\<lparr>gg_endnames := ens, gg_mendnames := mens,
         gg_saved := (gg_saved gg)[i := Some a], gg_servers := (gg_servers gg)[i := Some (length (kg_insts cfg))]\<rparr>],
       kg_pt := pt2, kg_insts := kg_insts cfg @ [\<lparr>ki_kv = kv_StartServer (kp_decodeSnapshot ps) (kp_clerk ps) (int i) bs
           (kg_maxraftstate cfg) (gg_gid gg) mends, ki_rf = kp_make ps ends (int i) a, ki_ps = a, ki_srv = kg_nsrv cfg\<rparr>],
       kg_nsrv := kg_nsrv cfg + 1\<rparr>" by metis
  have sound: "psound (kg_pt cfg)" using disk_okD(1) [OF ok] by (simp add: kg_disk_def)
  have "\<forall>b \<in> set_option (gg_saved gg ! i). b < length (pt_ps (kg_pt cfg))"
    using disk_okD(4) [OF ok, of "(gi, i)"] gi by (cases "gg_saved gg ! i") (auto simp: kg_disk_def group_slot_at)
  from copy_or_make_replaces [OF sound this] make have pt1: "psound pt1" "a < length (pt_ps pt1)"
    by (auto simp: replaces_def keeps_def)
  have bs: "bs = snd (held pt1 a)"
    using read pt1(2) by (auto simp: with_ps_def held_def contents_def ReadSnapshot_def clone_def deref_def)
  have "held pt2 a = held pt1 a"
    using pexec_keeps [OF pt1(1) _ read] pt1(2) by (simp add: keeps_def)
  then show ?thesis using gi bs by (intro exI [of _ mends]) (simp add: cfg' group_slot_def at_slot_def)
qed

text \<open>
  C19: a server of a group that is shut down and started again decodes, when it starts, the snapshot
  that the instance before held in its persister at the time of the shutdown, and its persister holds
  what that instance had persisted. This is so for every sequence of starts and shutdowns in all groups,
  clerks that are made and ends that are opened, while all instances, those shut down
  included, go on to save into their persisters.
\<close>

theorem kv_restarts_from_snapshot:
  assumes "kv_prepare ps rndn rnd rndc r n m = Inr cfg0"
    and "go_allowed (kg_exec ps) kg_pre cfg0 xs" and "go_run (kg_exec ps) cfg0 xs = Inr (cfg, os1)"
    and "group_slot gg_servers (kg_groups cfg) (gi, i) = Some j"
    and "go_allowed (kg_exec ps) kg_pre cfg (GShut gi i # ys @ [GStart gi i e em])"
    and "go_run (kg_exec ps) cfg (GShut gi i # ys @ [GStart gi i e em]) = Inr (cfg', os2)"
    and "\<forall>d dm. GStart gi i d dm \<notin> set ys"
  shows "\<exists>k mends. group_slot gg_servers (kg_groups cfg') (gi, i) = Some k \<and>
     held (kg_pt cfg') (ki_ps (kg_insts cfg' ! k)) = held (kg_pt cfg) (ki_ps (kg_insts cfg ! j)) \<and>
     ki_kv (kg_insts cfg' ! k) = kv_StartServer (kp_decodeSnapshot ps) (kp_clerk ps) (int i)
       (snd (held (kg_pt cfg) (ki_ps (kg_insts cfg ! j)))) (kg_maxraftstate cfg') (gg_gid (kg_groups cfg' ! gi)) mends"
proof -
  have ok: "disk_ok (kg_disk cfg)" using kg.run_disk_ok [OF TrueI prepared_disk_ok [OF assms(1)] assms(2,3)] .
  have ok': "disk_ok (kg_disk cfg')" using kg.run_disk_ok [OF TrueI ok assms(5,6)] .
  have none: "\<forall>y \<in> set ys. \<forall>ops \<in> kg_effect y. Fresh (gi, i) \<notin> set ops"
  proof (intro ballI notI)
    fix y ops assume "y \<in> set ys" "ops \<in> kg_effect y" "Fresh (gi, i) \<in> set ops"
    with assms(7) show False by (cases y) auto
  qed
  have persisted': "persisted (kg_disk cfg') (gi, i) = Some (held (kg_pt cfg) (ki_ps (kg_insts cfg ! j)))"
    using kg.restart [OF TrueI ok assms(5,6) _ _ none] running_holds(2) [OF ok assms(4)] by simp
  have "go_run (kg_exec ps) cfg ((GShut gi i # ys) @ [GStart gi i e em]) = Inr (cfg', os2)"
    using assms(6) by (simp del: go_run.simps)
  then obtain cfg2 os3 where run2: "go_run (kg_exec ps) cfg (GShut gi i # ys) = Inr (cfg2, os3)"
    and start: "kv_start ps e em gi i cfg2 = Inr cfg'"
    by (auto simp: go_run_snoc_Inr go_bind_Inr simp del: go_run.simps append_Cons)
  have "go_allowed (kg_exec ps) kg_pre cfg (GShut gi i # ys)"
    using assms(5) go_allowed_append [of "kg_exec ps" kg_pre cfg "GShut gi i # ys" "[GStart gi i e em]"] by simp
  from kg.run_disk_ok [OF TrueI ok this run2] have ok2: "disk_ok (kg_disk cfg2)" .
  from kv_start_snapshot [OF ok2 start] obtain k mends where k: "running cfg' gi i = Some k"
    and kv: "ki_kv (kg_insts cfg' ! k) = kv_StartServer (kp_decodeSnapshot ps) (kp_clerk ps) (int i)
       (snd (held (kg_pt cfg') (ki_ps (kg_insts cfg' ! k)))) (kg_maxraftstate cfg') (gg_gid (kg_groups cfg' ! gi)) mends"
    by blast
  from running_holds(2) [OF ok' k] persisted' have "held (kg_pt cfg') (ki_ps (kg_insts cfg' ! k)) = held (kg_pt cfg) (ki_ps (kg_insts cfg ! j))"
    by simp
  with k kv show ?thesis by auto
qed

section \<open>Names lead to running servers\<close>

lemma net_servers_simps [simp]:
  "net_servers (Enable e b net) = net_servers net" "net_servers (Connect e s net) = net_servers net"
  "MakeEnd e net = Inr (net', ce) \<Longrightarrow> net_servers net' = net_servers net"
  by (auto simp: Enable_def Connect_def MakeEnd_def Let_def split: if_splits)

lemma make_ends_servers: "make_ends rnd srv en js net = Inr (net', es) \<Longrightarrow> net_servers net' = net_servers net"
  by (induction js arbitrary: net es) (auto simp: go_bind_Inr Let_def split: if_splits)

lemma ctrler_ends_servers: "ctrler_ends ctl rnd js net = Inr (net', es) \<Longrightarrow> net_servers net' = net_servers net"
  by (induction js arbitrary: net es) (auto simp: go_bind_Inr)

lemma kv_client_loop_servers: "kv_client_loop ctl rnd js ns net = Inr (ns', net', es) \<Longrightarrow> net_servers net' = net_servers net"
  by (induction js arbitrary: ns net es) (auto simp: go_bind_Inr)

lemma enable_ends_servers: "enable_ends g nm b js net = Inr net' \<Longrightarrow> net_servers net' = net_servers net"
  by (induction js arbitrary: net) (auto simp: go_bind_Inr split: if_splits)

lemma server_at_DeleteServer_iff:
  "server_at (AddServer s a net) s' = (if s' = s then Some a else server_at net s')"
  "server_at (DeleteServer s net) s' = (if s' = s then None else server_at net s')"
  by (auto simp: server_at_def AddServer_def DeleteServer_def)

definition names_inv :: "nat \<Rightarrow> kconfig \<Rightarrow> bool" where
  "names_inv n cfg \<longleftrightarrow> kg_n cfg = n \<and> length (kg_groups cfg) = 3 \<and>
     (\<forall>gi < 3. gg_gid (kg_groups cfg ! gi) = 100 + int gi) \<and>
     (\<forall>gi i. gi < 3 \<longrightarrow> (\<forall>k. running cfg gi i = Some k \<longrightarrow> k < length (kg_insts cfg)) \<and>
        server_at (kg_net cfg) (NStr (servername (100 + int gi) i)) = map_option (\<lambda>k. ki_srv (kg_insts cfg ! k)) (running cfg gi i))"

lemma servername_eq: "servername (100 + int g) i = servername (100 + int g') i' \<longleftrightarrow> g = g' \<and> i = i'"
  using servername_inject [of "100 + g" i "100 + g'" i'] by auto

text \<open>One server of one group starts or stops.\<close>

lemma names_inv_update:
  assumes inv: "names_inv n cfg" and gi: "gi < length (kg_groups cfg)" and i: "i < length (gg_servers (kg_groups cfg ! gi))"
    and groups: "kg_groups cfg' = (kg_groups cfg)[gi := gg]" "gg_gid gg = gg_gid (kg_groups cfg ! gi)"
      "gg_servers gg = (gg_servers (kg_groups cfg ! gi))[i := v]"
    and net: "\<And>s. server_at (kg_net cfg') s = (if s = NStr (servername (gg_gid (kg_groups cfg ! gi)) i)
        then map_option (\<lambda>k. ki_srv (kg_insts cfg' ! k)) v else server_at (kg_net cfg) s)"
    and insts: "length (kg_insts cfg) \<le> length (kg_insts cfg')"
      "\<And>k. k < length (kg_insts cfg) \<Longrightarrow> ki_srv (kg_insts cfg' ! k) = ki_srv (kg_insts cfg ! k)"
    and v: "\<And>k. v = Some k \<Longrightarrow> k < length (kg_insts cfg')" and n: "kg_n cfg' = kg_n cfg"
  shows "names_inv n cfg'"
proof -
  have gid: "gg_gid (kg_groups cfg ! gi) = 100 + int gi" using inv gi by (simp add: names_inv_def)
  have slot: "running cfg' g x = (if g = gi \<and> x = i then v else running cfg g x)" for g x
    using group_slot_update [OF gi i groups(3)] by (simp add: groups(1))
  have "(\<forall>k. running cfg' g x = Some k \<longrightarrow> k < length (kg_insts cfg')) \<and>
      server_at (kg_net cfg') (NStr (servername (100 + int g) x)) = map_option (\<lambda>k. ki_srv (kg_insts cfg' ! k)) (running cfg' g x)"
    if "g < 3" for g x
  proof (cases "g = gi \<and> x = i")
    case False
    have "\<forall>k. running cfg g x = Some k \<longrightarrow> k < length (kg_insts cfg)"
      and "server_at (kg_net cfg) (NStr (servername (100 + int g) x)) = map_option (\<lambda>k. ki_srv (kg_insts cfg ! k)) (running cfg g x)"
      using inv that by (simp_all add: names_inv_def)
    with False insts show ?thesis
      by (cases "running cfg g x") (auto simp: slot net gid servername_eq)
  qed (simp add: slot net gid v)
  moreover have "\<forall>g < 3. gg_gid (kg_groups cfg' ! g) = 100 + int g"
    using inv gi groups by (simp add: names_inv_def nth_list_update)
  ultimately show ?thesis using inv n groups(1) by (simp add: names_inv_def)
qed

lemma names_inv_start:
  assumes inv: "names_inv n cfg" and start: "kv_start ps rnd rndm gi i cfg = Inr cfg'"
  shows "names_inv n cfg'"
proof -
  from kv_startD [OF start] obtain gg ens net1 net2 ends mens mends a pt2 bs where
    gi: "gi < length (kg_groups cfg)" "gg = kg_groups cfg ! gi" "i < length (gg_servers gg)"
    and net1: "make_ends rnd (\<lambda>j. NStr (servername (gg_gid gg) j)) True [0..<kg_n cfg] (kg_net cfg) = Inr (net1, ends)"
    and net2: "ctrler_ends (kg_ctl cfg) rndm [0..<cs_n (kg_ctl cfg)] net1 = Inr (net2, mends)"
    and cfg': "cfg' = cfg\<lparr>kg_net := AddServer (NStr (servername (gg_gid gg) i)) (kg_nsrv cfg) net2,
       kg_groups := (kg_groups cfg)[gi := gg\<lparr>gg_endnames := ens, gg_mendnames := mens,
         gg_saved := (gg_saved gg)[i := Some a], gg_servers := (gg_servers gg)[i := Some (length (kg_insts cfg))]\<rparr>],
       kg_pt := pt2, kg_insts := kg_insts cfg @ [\<lparr>ki_kv = kv_StartServer (kp_decodeSnapshot ps) (kp_clerk ps) (int i) bs
           (kg_maxraftstate cfg) (gg_gid gg) mends, ki_rf = kp_make ps ends (int i) a, ki_ps = a, ki_srv = kg_nsrv cfg\<rparr>],
       kg_nsrv := kg_nsrv cfg + 1\<rparr>" by metis
  have "server_at net2 s = server_at (kg_net cfg) s" for s
    using make_ends_servers [OF net1] ctrler_ends_servers [OF net2] by (simp add: server_at_def)
  with gi show ?thesis
    by (intro names_inv_update [OF inv gi(1), of i cfg' "kg_groups cfg' ! gi" "Some (length (kg_insts cfg))"])
      (simp_all add: cfg' server_at_DeleteServer_iff nth_append)
qed

lemma names_inv_shutdown:
  assumes inv: "names_inv n cfg" and shut: "kv_shutdown gi i cfg = Inr cfg'"
  shows "names_inv n cfg'"
proof -
  from kv_shutdownD [OF shut] obtain gg net1 net2 pt x where
    gi: "gi < length (kg_groups cfg)" "gg = kg_groups cfg ! gi" "i < length (gg_servers gg)"
    and net1: "enable_ends (\<lambda>_. True) (endname_at (gg_endnames gg) i) False [0..<length (gg_servers gg)] (kg_net cfg) = Inr net1"
    and net2: "enable_ends (\<lambda>_. True) (endname_at (gg_mendnames gg) i) False [0..<length (case gg_mendnames gg ! i of None \<Rightarrow> [] | Some ns \<Rightarrow> ns)] net1 = Inr net2"
    and cfg': "cfg' = cfg\<lparr>kg_net := DeleteServer (NStr (servername (gg_gid gg) i)) net2,
       kg_groups := (kg_groups cfg)[gi := gg\<lparr>gg_saved := (gg_saved gg)[i := x], gg_servers := (gg_servers gg)[i := None]\<rparr>],
       kg_pt := pt, kg_insts := (case gg_servers gg ! i of None \<Rightarrow> kg_insts cfg | Some k \<Rightarrow> kv_kill_instance k (kg_insts cfg))\<rparr>"
    by metis
  have "server_at net2 s = server_at (kg_net cfg) s" for s
    using enable_ends_servers [OF net1] enable_ends_servers [OF net2] by (simp add: server_at_def)
  moreover have "map ki_srv (kg_insts cfg') = map ki_srv (kg_insts cfg)"
    by (simp add: cfg' kill_instance_fields split: option.splits)
  then have "length (kg_insts cfg') = length (kg_insts cfg)"
    "\<And>k. k < length (kg_insts cfg) \<Longrightarrow> ki_srv (kg_insts cfg' ! k) = ki_srv (kg_insts cfg ! k)"
    by (auto dest: map_eq_imp_length_eq simp: list_eq_iff_nth_eq)
  ultimately show ?thesis
    using gi by (intro names_inv_update [OF inv gi(1), of i cfg' "kg_groups cfg' ! gi" None])
      (simp_all add: cfg' server_at_DeleteServer_iff)
qed

lemma names_inv_exec:
  assumes "names_inv n cfg" and "kg_exec ps cfg act = Inr (cfg', u)"
  shows "names_inv n cfg'"
proof (cases act)
  case (GClient rnd ck)
  with assms(2) obtain ns net es where loop: "kv_client_loop (kg_ctl cfg) rnd [0..<cs_n (kg_ctl cfg)] (replicate (kg_n cfg) []) (kg_net cfg) = Inr (ns, net, es)"
    and cfg': "cfg' = cfg\<lparr>kg_net := net, kg_clerks := (kg_clerks cfg)(ck \<mapsto> ns), kg_nextClientId := kg_nextClientId cfg + 1\<rparr>"
    by (auto simp: kv_makeClient_def go_bind_Inr)
  from kv_client_loop_servers [OF loop] assms(1) show ?thesis by (simp add: cfg' names_inv_def server_at_def)
next
  case (GEnd name servernm)
  with assms show ?thesis by (auto simp: go_bind_Inr make_end_def names_inv_def server_at_def)
next
  case (GInst k call)
  with assms show ?thesis by (auto simp: go_bind_Inr names_inv_def simp del: pexec.simps)
qed (use assms in \<open>auto simp: go_bind_Inr intro: names_inv_start names_inv_shutdown\<close>)

interpretation gn: go_machine "kg_exec ps" "names_inv n" kg_pre for ps n
  by unfold_locales (rule names_inv_exec)

text \<open>The replicas of the controller have other names than the servers of the groups.\<close>

lemma start_ctrlers_servers:
  "start_ctrlers ps rnd is cfg = Inr cfg' \<Longrightarrow> \<forall>name \<in> set (cs_names (kg_ctl cfg)). s \<noteq> NStr name \<Longrightarrow>
     server_at (kg_net cfg') s = server_at (kg_net cfg) s"
proof (induction "is" arbitrary: cfg)
  case (Cons i "is")
  then obtain cfg1 where start: "StartCtrlerServer ps (rnd i) i cfg = Inr cfg1" and rest: "start_ctrlers ps rnd is cfg1 = Inr cfg'"
    by (auto simp: go_bind_Inr)
  from start obtain net es where net: "ctrler_ends (kg_ctl cfg) (rnd i) [0..<cs_n (kg_ctl cfg)] (kg_net cfg) = Inr (net, es)"
    and i: "i < length (cs_names (kg_ctl cfg))" "kg_net cfg1 = AddServer (NStr (cs_names (kg_ctl cfg) ! i)) (kg_nsrv cfg) net"
    by (auto simp: StartCtrlerServer_def ctrlername_def go_bind_Inr go_nth_at Let_def simp del: pexec.simps)
  have "server_at (kg_net cfg1) s = server_at net s" using i Cons.prems(2) by (simp add: server_at_DeleteServer_iff)
  also have "\<dots> = server_at (kg_net cfg) s" using ctrler_ends_servers [OF net] by (simp add: server_at_def)
  finally show ?case using Cons.IH [OF rest] StartCtrlerServer_fields(6) [OF start] Cons.prems(2) by simp
qed simp

lemma names_inv_prepared:
  assumes prep: "kv_prepare ps rndn rnd rndc r n m = Inr cfg"
  shows "names_inv n cfg"
proof -
  let ?ctl = "\<lparr>cs_n = 3, cs_servers = replicate 3 None, cs_names = map (\<lambda>i. ''ctlr-'' @ rndn i) [0..<3], cs_ck = None\<rparr>"
  from prep obtain cfg1 net ends where start: "start_ctrlers ps rnd [0..<3] ((empty_kconfig m)\<lparr>kg_ctl := ?ctl\<rparr>) = Inr cfg1"
    and clerk: "ctrler_ends (kg_ctl cfg1) rndc [0..<cs_n (kg_ctl cfg1)] (kg_net cfg1) = Inr (net, ends)" "kg_net cfg = net"
    by (auto simp: kv_prepare_def StartCtrlerService_def ctrlerclerk_def go_bind_Inr Let_def)
  have "server_at (kg_net cfg) (NStr (servername g i)) = None" for g i
  proof -
    have "server_at (kg_net cfg) (NStr (servername g i)) = server_at (kg_net cfg1) (NStr (servername g i))"
      using ctrler_ends_servers [OF clerk(1)] clerk(2) by (simp add: server_at_def)
    also have "\<dots> = server_at MakeNetwork (NStr (servername g i))"
      using start_ctrlers_servers [OF start, of "NStr (servername g i)"] by (simp add: servername_def empty_kconfig_def)
    finally show ?thesis by (simp add: server_at_def MakeNetwork_def)
  qed
  then show ?thesis using kv_prepare_fields [OF prep] by (simp add: names_inv_def group_slot_new) (simp add: new_group_def)
qed

lemma joinm_names:
  "names_inv n cfg \<Longrightarrow> joinm cfg gis m = Inr m' \<Longrightarrow>
     m' gid = (if \<exists>gi \<in> set gis. gid = 100 + int gi then Some (map (servername gid) [0..<n]) else m gid)"
proof (induction gis arbitrary: m)
  case (Cons g gis)
  then have g: "g < 3" "gg_gid (kg_groups cfg ! g) = 100 + int g" "kg_n cfg = n"
    and rest: "joinm cfg gis (m(100 + int g \<mapsto> map (servername (100 + int g)) [0..<n])) = Inr m'"
    by (auto simp: go_bind_Inr go_nth_at names_inv_def)
  from Cons.IH [OF Cons.prems(1) rest] show ?case by auto
qed simp

lemma joinm_range: "joinm cfg gis m = Inr m' \<Longrightarrow> set gis \<subseteq> {..<length (kg_groups cfg)}"
  by (induction gis arbitrary: m) (auto simp: go_bind_Inr go_nth_at)

lemma make_end_info:
  "make_end e s cfg = Inr (cfg', ce) \<Longrightarrow> readEndnameInfo (kg_net cfg') (ce_endname ce) =
     (True, Some (NStr s), server_at (kg_net cfg) (NStr s), reliable (kg_net cfg), longReordering (kg_net cfg))"
  by (auto simp: make_end_def go_bind_Inr MakeEnd_def Enable_def Connect_def readEndnameInfo_def enabled_at_def
      connection_at_def server_at_def Let_def split: if_splits)

text \<open>
  C20: when groups join, the controller is told, for every group and under its identifier, one name for each
  of its servers, and for no other group anything. An end that \<^verbatim>\<open>make_end\<close> opens to
  the \<open>i\<close>-th of these names is enabled, and the network finds at it the \<^verbatim>\<open>labrpc.Server\<close> of the instance of this
  server that runs, and none when it is shut down, after any sequence of starts and shutdowns.
\<close>

theorem joined_names_lead_to_servers:
  assumes "kv_prepare ps rndn rnd rndc r n m = Inr cfg0"
    and "go_allowed (kg_exec ps) kg_pre cfg0 xs" and "go_run (kg_exec ps) cfg0 xs = Inr (cfg, os)"
    and "joinm cfg gis Map.empty = Inr groups" and "gi \<in> set gis" and "i < n"
    and "make_end e (the (groups (100 + int gi)) ! i) cfg = Inr (cfg', ce)"
  shows "dom groups = (\<lambda>gi. 100 + int gi) ` set gis \<and> length (the (groups (100 + int gi))) = n \<and>
     readEndnameInfo (kg_net cfg') (ce_endname ce) =
       (True, Some (NStr (the (groups (100 + int gi)) ! i)),
        map_option (\<lambda>k. ki_srv (kg_insts cfg ! k)) (group_slot gg_servers (kg_groups cfg) (gi, i)),
        reliable (kg_net cfg), longReordering (kg_net cfg))"
proof -
  have inv: "names_inv n cfg" using gn.run_invar [OF names_inv_prepared [OF assms(1)] assms(2,3)] .
  note names = joinm_names [OF inv assms(4)]
  have "set gis \<subseteq> {..<3}" using joinm_range [OF assms(4)] inv by (simp add: names_inv_def)
  with assms(5) have gi: "gi < 3" by auto
  have names_gi: "the (groups (100 + int gi)) = map (servername (100 + int gi)) [0..<n]" using assms(5) by (auto simp: names)
  have "readEndnameInfo (kg_net cfg') (ce_endname ce) =
      (True, Some (NStr (the (groups (100 + int gi)) ! i)), server_at (kg_net cfg) (NStr (the (groups (100 + int gi)) ! i)),
       reliable (kg_net cfg), longReordering (kg_net cfg))"
    using assms(7) by (rule make_end_info)
  moreover have "server_at (kg_net cfg) (NStr (the (groups (100 + int gi)) ! i)) =
      map_option (\<lambda>k. ki_srv (kg_insts cfg ! k)) (running cfg gi i)"
    using inv gi assms(6) by (simp add: names_gi names_inv_def)
  moreover have "dom groups = (\<lambda>gi. 100 + int gi) ` set gis" by (auto simp: names dom_def split: if_splits)
  ultimately show ?thesis by (simp add: names_gi)
qed


section \<open>When the tester can be set up\<close>

text \<open>Every random name has its place in the run; the names are as good as distinct.\<close>

datatype draw =
    DCtl nat nat
  | DClerk nat
  | DEnd nat nat nat
  | DMend nat nat nat
  | DClient nat

abbreviation end_names :: "(draw \<Rightarrow> string) \<Rightarrow> draw set \<Rightarrow> gname set" where
  "end_names nm U \<equiv> (\<lambda>d. NStr (nm d)) ` U"

lemma make_ends_used:
  assumes nm: "inj nm" and dom: "dom (net_ends net) = end_names nm U" and js: "distinct js" "inj_on f (set js)" "f ` set js \<inter> U = {}"
  shows "\<exists>net' es. make_ends (\<lambda>j. nm (f j)) srv en js net = Inr (net', es) \<and> dom (net_ends net') = end_names nm (U \<union> f ` set js)"
proof -
  have inj: "inj_on (\<lambda>j. nm (f j)) (set js)" using nm js(2) by (auto simp: inj_on_def dest: injD)
  have fresh: "\<forall>j \<in> set js. net_ends net (NStr (nm (f j))) = None"
  proof
    fix j assume j: "j \<in> set js"
    have "NStr (nm (f j)) \<notin> dom (net_ends net)"
      unfolding dom using j js(3) nm by (auto dest: injD)
    then show "net_ends net (NStr (nm (f j))) = None" by blast
  qed
  from make_ends_result [OF js(1) inj fresh, of srv en] dom show ?thesis by (auto simp: image_Un image_image)
qed

lemma ctrler_ends_eq:
  "set js \<subseteq> {..<length (cs_names ctl)} \<Longrightarrow>
     ctrler_ends ctl rnd js net = make_ends rnd (\<lambda>j. NStr (cs_names ctl ! j)) True js net"
  by (induction js arbitrary: net) (auto simp: ctrlername_def go_nth_def Let_def intro!: go_bind_ext)

lemma ctrler_ends_used:
  assumes "inj nm" and "dom (net_ends net) = end_names nm U" and "length (cs_names ctl) = c"
    and "inj_on f {..<c}" and "f ` {..<c} \<inter> U = {}"
  shows "\<exists>net' es. ctrler_ends ctl (\<lambda>j. nm (f j)) [0..<c] net = Inr (net', es) \<and>
     dom (net_ends net') = end_names nm (U \<union> f ` {..<c})"
proof -
  have "ctrler_ends ctl (\<lambda>j. nm (f j)) [0..<c] net =
      make_ends (\<lambda>j. nm (f j)) (\<lambda>j. NStr (cs_names ctl ! j)) True [0..<c] net"
    by (rule ctrler_ends_eq) (simp add: assms(3) atLeast0LessThan)
  then show ?thesis
    using make_ends_used [OF assms(1,2), of "[0..<c]" f "\<lambda>j. NStr (cs_names ctl ! j)" True] assms(4,5)
    by (simp add: atLeast0LessThan)
qed

text \<open>What holds while the configuration is made: the names used, and the sizes of the lists.\<close>

definition used :: "(draw \<Rightarrow> string) \<Rightarrow> draw set \<Rightarrow> kconfig \<Rightarrow> bool" where
  "used nm U cfg \<longleftrightarrow> dom (net_ends (kg_net cfg)) = end_names nm U \<and> length (cs_names (kg_ctl cfg)) = cs_n (kg_ctl cfg)"

lemma StartCtrlerServer_used:
  assumes "inj nm" and "used nm U cfg" and "i < cs_n (kg_ctl cfg)" and "length (cs_servers (kg_ctl cfg)) = cs_n (kg_ctl cfg)"
    and "\<forall>j. DCtl i j \<notin> U"
  shows "\<exists>cfg'. StartCtrlerServer ps (\<lambda>j. nm (DCtl i j)) i cfg = Inr cfg' \<and>
     used nm (U \<union> DCtl i ` {..<cs_n (kg_ctl cfg)}) cfg' \<and>
     length (cs_servers (kg_ctl cfg')) = cs_n (kg_ctl cfg') \<and> cs_n (kg_ctl cfg') = cs_n (kg_ctl cfg)"
proof -
  let ?ctl = "kg_ctl cfg"
  have disj: "DCtl i ` {..<cs_n ?ctl} \<inter> U = {}" using assms(5) by auto
  obtain net es where "ctrler_ends ?ctl (\<lambda>j. nm (DCtl i j)) [0..<cs_n ?ctl] (kg_net cfg) = Inr (net, es)"
    and "dom (net_ends net) = end_names nm (U \<union> DCtl i ` {..<cs_n ?ctl})"
    using ctrler_ends_used [OF assms(1), of "kg_net cfg" U ?ctl "cs_n ?ctl" "DCtl i"] assms(2) disj
    by (auto simp: used_def inj_on_def)
  with assms(2-4) show ?thesis
    by (simp add: StartCtrlerServer_def ctrlername_def go_nth_def go_update_def used_def AddServer_def Let_def)
qed

lemma start_ctrlers_used:
  assumes "inj nm"
  shows "used nm U cfg \<Longrightarrow> length (cs_servers (kg_ctl cfg)) = cs_n (kg_ctl cfg) \<Longrightarrow> set is \<subseteq> {..<cs_n (kg_ctl cfg)} \<Longrightarrow>
     distinct is \<Longrightarrow> \<forall>i \<in> set is. \<forall>j. DCtl i j \<notin> U \<Longrightarrow>
     \<exists>cfg' V. start_ctrlers ps (\<lambda>i j. nm (DCtl i j)) is cfg = Inr cfg' \<and> used nm (U \<union> V) cfg' \<and>
       V \<subseteq> {DCtl i j | i j. True} \<and> cs_n (kg_ctl cfg') = cs_n (kg_ctl cfg)"
proof (induction "is" arbitrary: cfg U)
  case Nil
  then show ?case by (intro exI [of _ cfg] exI [of _ "{}"]) simp
next
  case (Cons i "is")
  obtain cfg1 where c1: "StartCtrlerServer ps (\<lambda>j. nm (DCtl i j)) i cfg = Inr cfg1"
    and u1: "used nm (U \<union> DCtl i ` {..<cs_n (kg_ctl cfg)}) cfg1" "length (cs_servers (kg_ctl cfg1)) = cs_n (kg_ctl cfg1)"
      "cs_n (kg_ctl cfg1) = cs_n (kg_ctl cfg)"
    using StartCtrlerServer_used [OF assms Cons.prems(1) _ Cons.prems(2), of i ps] Cons.prems(3-5) by auto
  have "\<forall>i' \<in> set is. \<forall>j. DCtl i' j \<notin> U \<union> DCtl i ` {..<cs_n (kg_ctl cfg)}" using Cons.prems(4,5) by auto
  with Cons.IH [OF u1(1,2)] Cons.prems(3,4) u1(3) obtain cfg' V
    where c2: "start_ctrlers ps (\<lambda>i j. nm (DCtl i j)) is cfg1 = Inr cfg'"
      and u2: "used nm (U \<union> DCtl i ` {..<cs_n (kg_ctl cfg)} \<union> V) cfg'" "V \<subseteq> {DCtl i j | i j. True}"
        "cs_n (kg_ctl cfg') = cs_n (kg_ctl cfg1)" by auto
  from c1 c2 u1(3) u2 show ?case
    by (intro exI [of _ cfg'] exI [of _ "DCtl i ` {..<cs_n (kg_ctl cfg)} \<union> V"]) (auto simp: Un_assoc)
qed

lemma kv_prepare_ok:
  assumes nm: "inj nm"
  shows "\<exists>cfg V. kv_prepare ps rndn (\<lambda>i j. nm (DCtl i j)) (\<lambda>j. nm (DClerk j)) r n m = Inr cfg \<and> used nm V cfg \<and>
     V \<subseteq> {DCtl i j | i j. True} \<union> range DClerk"
proof -
  let ?ctl = "\<lparr>cs_n = 3, cs_servers = replicate 3 None, cs_names = map (\<lambda>i. ''ctlr-'' @ rndn i) [0..<3], cs_ck = None\<rparr>"
  have "used nm {} ((empty_kconfig m)\<lparr>kg_ctl := ?ctl\<rparr>)" by (simp add: used_def empty_kconfig_def MakeNetwork_def)
  from start_ctrlers_used [OF nm this, of "[0..<3]" ps] obtain cfg1 V
    where start: "start_ctrlers ps (\<lambda>i j. nm (DCtl i j)) [0..<3] ((empty_kconfig m)\<lparr>kg_ctl := ?ctl\<rparr>) = Inr cfg1"
      and u1: "used nm V cfg1" "V \<subseteq> {DCtl i j | i j. True}" "cs_n (kg_ctl cfg1) = 3" by (auto simp: atLeast0LessThan)
  have "DClerk ` {..<3} \<inter> V = {}" using u1(2) by auto
  then obtain net es where "ctrler_ends (kg_ctl cfg1) (\<lambda>j. nm (DClerk j)) [0..<3] (kg_net cfg1) = Inr (net, es)"
    and dom: "dom (net_ends net) = end_names nm (V \<union> DClerk ` {..<3})"
    using ctrler_ends_used [OF nm, of "kg_net cfg1" V "kg_ctl cfg1" 3 DClerk] u1 by (auto simp: used_def inj_on_def)
  with start u1 obtain cfg where "kv_prepare ps rndn (\<lambda>i j. nm (DCtl i j)) (\<lambda>j. nm (DClerk j)) r n m = Inr cfg"
    and "kg_net cfg = net" "length (cs_names (kg_ctl cfg)) = cs_n (kg_ctl cfg)"
    by (auto simp: kv_prepare_def StartCtrlerService_def ctrlerclerk_def used_def Let_def)
  with dom u1(2) show ?thesis
    by (intro exI [of _ cfg] exI [of _ "V \<union> DClerk ` {..<3}"]) (auto simp: used_def)
qed


text \<open>Room in the lists of the groups for the servers below \<open>n\<close>; the names of the ends to the controller have room for three.\<close>

definition sized :: "nat \<Rightarrow> kconfig \<Rightarrow> bool" where
  "sized n cfg \<longleftrightarrow> kg_n cfg = n \<and> cs_n (kg_ctl cfg) = 3 \<and> length (kg_groups cfg) = 3 \<and>
     (\<forall>gg \<in> set (kg_groups cfg). length (gg_servers gg) = n \<and> length (gg_saved gg) = n \<and> length (gg_endnames gg) = n \<and>
        length (gg_mendnames gg) = 3)"

lemma sized_update:
  "sized n cfg \<Longrightarrow> kg_groups cfg' = (kg_groups cfg)[gi := gg] \<Longrightarrow> kg_n cfg' = kg_n cfg \<Longrightarrow> kg_ctl cfg' = kg_ctl cfg \<Longrightarrow>
     length (gg_servers gg) = n \<Longrightarrow> length (gg_saved gg) = n \<Longrightarrow> length (gg_endnames gg) = n \<Longrightarrow>
     length (gg_mendnames gg) = 3 \<Longrightarrow> sized n cfg'"
  by (auto simp: sized_def dest: set_update_subset_insert [THEN subsetD])

lemma sized_at:
  assumes "sized n cfg" and "gi < 3"
  shows "gi < length (kg_groups cfg)" and "length (gg_servers (kg_groups cfg ! gi)) = n"
    and "length (gg_saved (kg_groups cfg ! gi)) = n" and "length (gg_endnames (kg_groups cfg ! gi)) = n"
    and "length (gg_mendnames (kg_groups cfg ! gi)) = 3"
  using assms by (auto simp: sized_def)

text \<open>A start succeeds when the names are new and there is room, for a slot with no persister or one in range.\<close>

lemma kv_start_ok:
  assumes nm: "inj nm" and used: "used nm U cfg" and sz: "sized n cfg" and gi: "gi < 3" and i: "i < n" "i < 3"
    and new: "\<forall>j. DEnd gi x j \<notin> U" "\<forall>j. DMend gi x j \<notin> U" and sound: "psound (kg_pt cfg)"
    and saved: "\<forall>b \<in> set_option (gg_saved (kg_groups cfg ! gi) ! i). b < length (pt_ps (kg_pt cfg))"
  shows "\<exists>cfg'. kv_start ps (\<lambda>j. nm (DEnd gi x j)) (\<lambda>j. nm (DMend gi x j)) gi i cfg = Inr cfg' \<and>
     used nm (U \<union> DEnd gi x ` {..<n} \<union> DMend gi x ` {..<3}) cfg' \<and> sized n cfg' \<and> psound (kg_pt cfg') \<and>
     (\<forall>k. k \<noteq> (gi, i) \<longrightarrow> group_slot gg_saved (kg_groups cfg') k = group_slot gg_saved (kg_groups cfg) k)"
proof -
  let ?gg = "kg_groups cfg ! gi" and ?ctl = "kg_ctl cfg"
  note at = sized_at [OF sz gi]
  have n: "kg_n cfg = n" "cs_n ?ctl = 3" "length (cs_names ?ctl) = 3" using sz used by (auto simp: sized_def used_def)
  have "DEnd gi x ` set [0..<n] \<inter> U = {}" using new(1) by auto
  then obtain net1 ends where e1: "make_ends (\<lambda>j. nm (DEnd gi x j)) (\<lambda>j. NStr (servername (gg_gid ?gg) j)) True [0..<n] (kg_net cfg)
        = Inr (net1, ends)" and d1: "dom (net_ends net1) = end_names nm (U \<union> DEnd gi x ` {..<n})"
    using make_ends_used [OF nm, of "kg_net cfg" U "[0..<n]" "DEnd gi x" "\<lambda>j. NStr (servername (gg_gid ?gg) j)" True] used
    by (auto simp: used_def inj_on_def atLeast0LessThan)
  have "DMend gi x ` {..<3} \<inter> (U \<union> DEnd gi x ` {..<n}) = {}" using new(2) by auto
  then obtain net2 mends where e2: "ctrler_ends ?ctl (\<lambda>j. nm (DMend gi x j)) [0..<3] net1 = Inr (net2, mends)"
    and d2: "dom (net_ends net2) = end_names nm (U \<union> DEnd gi x ` {..<n} \<union> DMend gi x ` {..<3})"
    using ctrler_ends_used [OF nm d1 n(3), of "DMend gi x"] by (auto simp: inj_on_def)
  obtain pt1 a where cm: "copy_or_make (kg_pt cfg) (gg_saved ?gg ! i) = Inr (pt1, a)"
    and "psound pt1" and "a < length (pt_ps pt1)"
    using copy_or_make_replaces [OF sound saved] by (auto simp: replaces_def keeps_def)
  then obtain pt2 out where rd: "pexec pt1 (CallReadSnapshot a) = Inr (pt2, out)" and s2: "psound pt2"
    using pexec_ReadSnapshot [of pt1 a] by (auto simp: keeps_def simp del: pexec.simps)
  obtain cfg' ens mens where start: "kv_start ps (\<lambda>j. nm (DEnd gi x j)) (\<lambda>j. nm (DMend gi x j)) gi i cfg = Inr cfg'"
    and net': "net_ends (kg_net cfg') = net_ends net2"
    and fields: "kg_pt cfg' = pt2" "kg_n cfg' = kg_n cfg" "kg_ctl cfg' = ?ctl"
    and groups: "kg_groups cfg' = (kg_groups cfg)[gi := ?gg\<lparr>gg_endnames := (gg_endnames ?gg)[i := ens],
        gg_mendnames := (gg_mendnames ?gg)[i := mens], gg_saved := (gg_saved ?gg)[i := Some a],
        gg_servers := (gg_servers ?gg)[i := Some (length (kg_insts cfg))]\<rparr>]"
    using at i e1 e2 cm rd
    by (simp add: kv_start_def go_nth_def go_update_def n Let_def AddServer_def del: pexec.simps)
  have "sized n cfg'" by (rule sized_update [OF sz groups fields(2,3)]) (simp_all add: at)
  moreover have "used nm (U \<union> DEnd gi x ` {..<n} \<union> DMend gi x ` {..<3}) cfg'"
    using d2 net' n by (simp add: used_def fields)
  moreover have "group_slot gg_saved (kg_groups cfg') = (group_slot gg_saved (kg_groups cfg))((gi, i) := Some a)"
    using at i by (simp add: groups group_slot_update)
  ultimately show ?thesis using start s2 fields(1) by (intro exI [of _ cfg']) simp
qed


abbreviation place_names :: "(draw \<Rightarrow> string) \<Rightarrow> draws" where
  "place_names nm \<equiv> \<lambda>gi i. (\<lambda>j. nm (DEnd gi i j), \<lambda>j. nm (DMend gi i j))"

definition unused :: "draw set \<Rightarrow> nat \<Rightarrow> nat \<Rightarrow> bool" where
  "unused U gi i \<longleftrightarrow> (\<forall>j. DEnd gi i j \<notin> U \<and> DMend gi i j \<notin> U)"

lemma kv_start_each_ok:
  assumes nm: "inj nm" and gi: "gi < 3"
  shows "used nm U cfg \<Longrightarrow> sized n cfg \<Longrightarrow> psound (kg_pt cfg) \<Longrightarrow> set is \<subseteq> {..<min n 3} \<Longrightarrow> distinct is \<Longrightarrow>
     \<forall>i \<in> set is. unused U gi i \<and> group_slot gg_saved (kg_groups cfg) (gi, i) = None \<Longrightarrow>
     \<exists>cfg' V. kv_start_each ps (place_names nm) gi is cfg = Inr cfg' \<and> used nm (U \<union> V) cfg' \<and> sized n cfg' \<and> psound (kg_pt cfg') \<and>
       V \<subseteq> range (case_prod (DEnd gi)) \<union> range (case_prod (DMend gi)) \<and>
       (\<forall>g i. g \<noteq> gi \<longrightarrow> group_slot gg_saved (kg_groups cfg') (g, i) = group_slot gg_saved (kg_groups cfg) (g, i))"
proof (induction "is" arbitrary: U cfg)
  case Nil
  then show ?case by (intro exI [of _ cfg] exI [of _ "{}"]) (simp add: unused_def)
next
  case (Cons i "is")
  let ?V = "DEnd gi i ` {..<n} \<union> DMend gi i ` {..<3}"
  have i: "i < n" "i < 3" using Cons.prems(4) by auto
  have "gg_saved (kg_groups cfg ! gi) ! i = None"
    using Cons.prems(6) sized_at [OF Cons.prems(2) gi] i by (simp add: group_slot_at)
  then obtain cfg1 where c1: "kv_start ps (\<lambda>j. nm (DEnd gi i j)) (\<lambda>j. nm (DMend gi i j)) gi i cfg = Inr cfg1"
    and u1: "used nm (U \<union> DEnd gi i ` {..<n} \<union> DMend gi i ` {..<3}) cfg1" and s1: "sized n cfg1" "psound (kg_pt cfg1)"
    and slots: "\<forall>k. k \<noteq> (gi, i) \<longrightarrow> group_slot gg_saved (kg_groups cfg1) k = group_slot gg_saved (kg_groups cfg) k"
    using kv_start_ok [OF nm Cons.prems(1,2) gi i, of i ps] Cons.prems(3,6) by (auto simp: unused_def)
  have "unused (U \<union> ?V) gi i' \<and> group_slot gg_saved (kg_groups cfg1) (gi, i') = None" if "i' \<in> set is" for i'
  proof -
    have "(gi, i') \<noteq> (gi, i)" using Cons.prems(5) that by auto
    then show ?thesis using Cons.prems(6) slots that by (auto simp: unused_def)
  qed
  with Cons.IH [of "U \<union> ?V" cfg1] u1 s1 Cons.prems(4,5) obtain cfg' V
    where c2: "kv_start_each ps (place_names nm) gi is cfg1 = Inr cfg'" and u2: "used nm (U \<union> ?V \<union> V) cfg'"
      and s2: "sized n cfg'" "psound (kg_pt cfg')" and un: "V \<subseteq> range (case_prod (DEnd gi)) \<union> range (case_prod (DMend gi))"
      and slots2: "\<forall>g i. g \<noteq> gi \<longrightarrow> group_slot gg_saved (kg_groups cfg') (g, i) = group_slot gg_saved (kg_groups cfg1) (g, i)"
    by (auto simp: Un_assoc)
  have "?V \<union> V \<subseteq> range (case_prod (DEnd gi)) \<union> range (case_prod (DMend gi))" using un by auto
  with c1 c2 u2 s2 slots slots2 show ?case
    by (intro exI [of _ cfg'] exI [of _ "?V \<union> V"]) (simp add: Un_assoc)
qed

lemma start_groups_ok:
  assumes nm: "inj nm" and n: "n \<le> 3"
  shows "used nm U cfg \<Longrightarrow> sized n cfg \<Longrightarrow> psound (kg_pt cfg) \<Longrightarrow> set gis \<subseteq> {..<3} \<Longrightarrow> distinct gis \<Longrightarrow>
     \<forall>gi \<in> set gis. \<forall>i. unused U gi i \<and> group_slot gg_saved (kg_groups cfg) (gi, i) = None \<Longrightarrow> U \<inter> range DClient = {} \<Longrightarrow>
     \<exists>cfg' V. start_groups ps (place_names nm) gis cfg = Inr cfg' \<and> used nm V cfg' \<and> sized n cfg' \<and> V \<inter> range DClient = {}"
proof (induction gis arbitrary: U cfg)
  case Nil
  then show ?case by (intro exI [of _ cfg] exI [of _ U]) simp
next
  case (Cons gi gis)
  have gi: "gi < 3" using Cons.prems(4) by simp
  have "set [0..<kg_n cfg] \<subseteq> {..<min n 3}" using n Cons.prems(2) by (auto simp: sized_def)
  with kv_start_each_ok [OF nm gi Cons.prems(1-3), of "[0..<kg_n cfg]" ps] Cons.prems(6) obtain cfg1 V
    where c1: "kv_start_each ps (place_names nm) gi [0..<kg_n cfg] cfg = Inr cfg1" and u1: "used nm (U \<union> V) cfg1"
      and s1: "sized n cfg1" "psound (kg_pt cfg1)"
      and V: "V \<subseteq> range (case_prod (DEnd gi)) \<union> range (case_prod (DMend gi))"
      and slots: "\<forall>g i. g \<noteq> gi \<longrightarrow> group_slot gg_saved (kg_groups cfg1) (g, i) = group_slot gg_saved (kg_groups cfg) (g, i)"
    by auto
  have "unused (U \<union> V) g i \<and> group_slot gg_saved (kg_groups cfg1) (g, i) = None" if "g \<in> set gis" for g i
  proof -
    have "g \<noteq> gi" using Cons.prems(5) that by auto
    then show ?thesis using Cons.prems(6) slots that V by (auto simp: unused_def)
  qed
  moreover have "(U \<union> V) \<inter> range DClient = {}" using Cons.prems(7) V by auto
  ultimately show ?case using Cons.IH [OF u1 s1] Cons.prems(4,5) c1 by (simp add: StartGroup_def)
qed

text \<open>The loops index the lists: past their ends they panic.\<close>

lemma kv_start_room:
  assumes "kv_start ps rnd rndm gi i cfg = Inr cfg'"
  shows "gi < length (kg_groups cfg)" and "i < length (gg_mendnames (kg_groups cfg ! gi))"
    and "map (\<lambda>gg. length (gg_mendnames gg)) (kg_groups cfg') = map (\<lambda>gg. length (gg_mendnames gg)) (kg_groups cfg)"
  using assms
  by (auto simp: kv_start_def go_bind_Inr go_nth_at go_update_at Let_def map_update_same simp del: pexec.simps)

lemma kv_start_each_room:
  "kv_start_each ps draws gi is cfg = Inr cfg' \<Longrightarrow> map (\<lambda>gg. length (gg_mendnames gg)) (kg_groups cfg) = map (\<lambda>_. c) [0..<3] \<Longrightarrow>
     gi < 3 \<Longrightarrow> i \<in> set is \<Longrightarrow> i < c"
proof (induction "is" arbitrary: cfg)
  case (Cons i' "is")
  from Cons.prems(1) obtain cfg1 where start: "kv_start ps (fst (draws gi i')) (snd (draws gi i')) gi i' cfg = Inr cfg1"
    and rest: "kv_start_each ps draws gi is cfg1 = Inr cfg'" by (auto simp: go_bind_Inr)
  note room = kv_start_room [OF start]
  have "map (\<lambda>gg. length (gg_mendnames gg)) (kg_groups cfg) ! gi = c"
    unfolding Cons.prems(2) using Cons.prems(3) by simp
  with room(1,2) have "i' < c" by simp
  then show ?case using Cons.IH [OF rest] room(3) Cons.prems(2-4) by auto
qed simp

lemma kv_client_loop_room:
  "kv_client_loop ctl rnd js ns net = Inr res \<Longrightarrow> set js \<subseteq> {..<length ns}"
  by (induction js arbitrary: ns net res) (fastforce simp: go_bind_Inr go_update_at)+

lemma kv_client_loop_ok:
  "ctrler_ends ctl rnd js net = Inr (net', es) \<Longrightarrow> set js \<subseteq> {..<length ns} \<Longrightarrow>
     \<exists>ns'. kv_client_loop ctl rnd js ns net = Inr (ns', net', es)"
  by (induction js arbitrary: ns net es) (fastforce simp: go_bind_Inr go_update_at)+

lemma kv_prepare_sized:
  assumes "kv_prepare ps rndn rnd rndc r n m = Inr cfg"
  shows "sized n cfg"
  using kv_prepare_fields [OF assms] by (simp add: sized_def new_group_def)


abbreviation placed_config :: "kparams \<Rightarrow> (draw \<Rightarrow> string) \<Rightarrow> (nat \<Rightarrow> string) \<Rightarrow> nat \<Rightarrow> nat \<Rightarrow> bool \<Rightarrow> int \<Rightarrow> kconfig go" where
  "placed_config ps nm rndn r n unreliable m \<equiv>
     kv_make_config ps rndn (\<lambda>i j. nm (DCtl i j)) (\<lambda>j. nm (DClerk j)) r (place_names nm) n unreliable m"

lemma placed_config_room:
  assumes "placed_config ps nm rndn r n unreliable m = Inr cfg"
  shows "n \<le> 3"
proof -
  from assms obtain cfg0 cfg2 where prep: "kv_prepare ps rndn (\<lambda>i j. nm (DCtl i j)) (\<lambda>j. nm (DClerk j)) r n m = Inr cfg0"
    and "start_groups ps (place_names nm) [0..<kg_ngroups cfg0] cfg0 = Inr cfg2" by (auto simp: kv_make_config_def go_bind_Inr)
  note f0 = kv_prepare_fields [OF prep]
  have "[0..<3] = 0 # [1..<(3::nat)]" by (simp add: upt_rec)
  with \<open>start_groups _ _ _ _ = _\<close> f0(3) obtain cfg1 where "StartGroup ps (place_names nm) 0 cfg0 = Inr cfg1"
    by (auto simp: go_bind_Inr)
  then have "kv_start_each ps (place_names nm) 0 [0..<n] cfg0 = Inr cfg1" by (simp add: StartGroup_def f0)
  from kv_start_each_room [OF this, of 3 3] f0(1) have "\<not> 3 < n" by (auto simp: new_group_def)
  then show ?thesis by simp
qed

lemma placed_config_ok:
  assumes nm: "inj nm" and n: "n \<le> 3"
  shows "\<exists>cfg U. placed_config ps nm rndn r n unreliable m = Inr cfg \<and> used nm U cfg \<and> sized n cfg \<and> U \<inter> range DClient = {}"
proof -
  obtain cfg0 V where prep: "kv_prepare ps rndn (\<lambda>i j. nm (DCtl i j)) (\<lambda>j. nm (DClerk j)) r n m = Inr cfg0"
    and used0: "used nm V cfg0" and V: "V \<subseteq> {DCtl i j | i j. True} \<union> range DClerk"
    using kv_prepare_ok [OF nm] by blast
  note f0 = kv_prepare_fields [OF prep]
  have "\<exists>cfg' U. start_groups ps (place_names nm) [0..<3] cfg0 = Inr cfg' \<and> used nm U cfg' \<and> sized n cfg' \<and> U \<inter> range DClient = {}"
    by (rule start_groups_ok [OF nm n used0 kv_prepare_sized [OF prep] f0(5)])
      (use V in \<open>auto simp: f0(1) group_slot_new unused_def\<close>)
  then obtain cfg' U where "start_groups ps (place_names nm) [0..<3] cfg0 = Inr cfg'" and "used nm U cfg'" "sized n cfg'" "U \<inter> range DClient = {}"
    by blast
  then show ?thesis
    by (intro exI [of _ "cfg'\<lparr>kg_nextClientId := int (kg_n cfg') + 1000, kg_net := Reliable (\<not> unreliable) (kg_net cfg')\<rparr>"] exI [of _ U])
      (simp add: kv_make_config_def prep f0(3) used_def sized_def Reliable_def)
qed

lemma kv_makeClient_iff:
  assumes nm: "inj nm" and "used nm U cfg" and "sized n cfg" and "U \<inter> range DClient = {}"
  shows "(\<exists>res. kv_makeClient (\<lambda>j. nm (DClient j)) ck cfg = Inr res) \<longleftrightarrow> 3 \<le> n"
proof -
  have n: "kg_n cfg = n" "cs_n (kg_ctl cfg) = 3" "length (cs_names (kg_ctl cfg)) = 3" "dom (net_ends (kg_net cfg)) = end_names nm U"
    using assms(2,3) by (auto simp: used_def sized_def)
  have "DClient ` {..<3} \<inter> U = {}" using assms(4) by auto
  then obtain net es where "ctrler_ends (kg_ctl cfg) (\<lambda>j. nm (DClient j)) [0..<3] (kg_net cfg) = Inr (net, es)"
    using ctrler_ends_used [OF nm n(4,3), of DClient] by (auto simp: inj_on_def)
  from kv_client_loop_ok [OF this, of "replicate n []"]
    kv_client_loop_room [of "kg_ctl cfg" "\<lambda>j. nm (DClient j)" "[0..<3]" "replicate n []" "kg_net cfg"]
  show ?thesis by (auto simp: kv_makeClient_def n go_bind_Inr atLeast0LessThan)
qed

text \<open>
  C27: the tester can be set up and a first clerk can be made for exactly one size of the groups, three
  servers, although \<^verbatim>\<open>make_config\<close> takes the size as an argument: with more servers the list of the
  names of their ends to the controller, which has a place per replica of the controller, is too
  short and the program panics; with fewer the list of the names of the ends of the clerk is.
  The names that are drawn are distinct.
\<close>

theorem tester_needs_three_servers:
  assumes "inj nm"
  shows "(\<exists>cfg res. kv_make_config ps rndn (\<lambda>i j. nm (DCtl i j)) (\<lambda>j. nm (DClerk j)) r
        (\<lambda>gi i. (\<lambda>j. nm (DEnd gi i j), \<lambda>j. nm (DMend gi i j))) n unreliable m = Inr cfg \<and>
      kv_makeClient (\<lambda>j. nm (DClient j)) ck cfg = Inr res) \<longleftrightarrow> n = 3"
proof
  assume "\<exists>cfg res. placed_config ps nm rndn r n unreliable m = Inr cfg \<and> kv_makeClient (\<lambda>j. nm (DClient j)) ck cfg = Inr res"
  then obtain cfg res where cfg: "placed_config ps nm rndn r n unreliable m = Inr cfg"
    and res: "kv_makeClient (\<lambda>j. nm (DClient j)) ck cfg = Inr res" by blast
  from placed_config_ok [OF assms placed_config_room [OF cfg], of ps rndn r unreliable m] cfg
  obtain U where "used nm U cfg" "sized n cfg" "U \<inter> range DClient = {}" by auto
  from kv_makeClient_iff [OF assms this, of ck] res have "3 \<le> n" by blast
  with placed_config_room [OF cfg] show "n = 3" by simp
next
  assume n: "n = 3"
  with placed_config_ok [OF assms, of n ps rndn r unreliable m] obtain cfg U where cfg: "placed_config ps nm rndn r n unreliable m = Inr cfg"
    and "used nm U cfg" "sized n cfg" "U \<inter> range DClient = {}" by auto
  from kv_makeClient_iff [OF assms this(2-4)] cfg n
  show "\<exists>cfg res. placed_config ps nm rndn r n unreliable m = Inr cfg \<and> kv_makeClient (\<lambda>j. nm (DClient j)) ck cfg = Inr res" by auto
qed

instance draw :: countable
  by countable_datatype

definition example_draw :: "draw \<Rightarrow> string" where
  "example_draw d = replicate (to_nat d) CHR ''x''"

lemma inj_example_draw: "inj example_draw"
  by (rule injI) (metis example_draw_def length_replicate to_nat_split)

definition idle_raft :: "'c Raft" where
  "idle_raft =
     \<lparr>rf_me = 0, rf_dead = 0, currentTerm = 0, votedFor = -1, logs = [], commitIndex = 0, lastApplied = 0,
      nextIndex = [], matchIndex = [], rf_state = Follower, voteCount = 0, winElectCh = 0, stepDownCh = 0,
      grantVoteCh = 0, heartbeatCh = 0, snapLastIndex = 0, snapLastTerm = 0\<rparr>"

definition example_ps :: kparams where
  "example_ps = \<lparr>kp_make = \<lambda>es me a. idle_raft, kp_ctlmake = \<lambda>es me a. idle_raft, kp_decodeSnapshot = \<lambda>_ kv. kv, kp_clerk = 7\<rparr>"

lemma tester_needs_three_servers_witness:
  "\<exists>cfg res. placed_config example_ps example_draw (\<lambda>i. itoa (int i)) 7 3 False 1000 = Inr cfg \<and>
     kv_makeClient (\<lambda>j. example_draw (DClient j)) 0 cfg = Inr res"
  using tester_needs_three_servers [OF inj_example_draw, of example_ps "\<lambda>i. itoa (int i)" 7 3 False 1000 0] by simp


section \<open>A run\<close>

text \<open>One server starts, saves a snapshot, is shut down and starts again.\<close>

lemma kv_start_names:
  assumes "kv_start ps rnd rndm gi i cfg = Inr cfg'"
  shows "gg_endnames (kg_groups cfg' ! gi) ! i = Some (map rnd [0..<kg_n cfg])"
    and "\<exists>ms. gg_mendnames (kg_groups cfg' ! gi) ! i = Some ms"
  using assms by (auto simp: kv_start_def go_bind_Inr go_nth_at go_update_at Let_def simp del: pexec.simps)

lemma kv_shutdown_returns:
  assumes sz: "sized n cfg" and gi: "gi < 3" and i: "i < n" "i < 3" and sound: "psound (kg_pt cfg)"
    and saved: "gg_saved (kg_groups cfg ! gi) ! i = Some b" "b < length (pt_ps (kg_pt cfg))"
    and ns: "gg_endnames (kg_groups cfg ! gi) ! i = Some ns" "length ns = n" and ms: "gg_mendnames (kg_groups cfg ! gi) ! i = Some ms"
  shows "\<exists>cfg'. kv_shutdown gi i cfg = Inr cfg' \<and> sized n cfg' \<and> net_ends (kg_net cfg') = net_ends (kg_net cfg) \<and> kg_ctl cfg' = kg_ctl cfg"
proof -
  let ?gg = "kg_groups cfg ! gi"
  note at = sized_at [OF sz gi]
  obtain net1 where net1: "enable_ends (\<lambda>_. True) (endname_at (gg_endnames ?gg) i) False [0..<n] (kg_net cfg) = Inr net1"
      "same_but_enabled (kg_net cfg) net1"
    using enable_ends_result [of "[0..<n]" "\<lambda>_. True" "endname_at (gg_endnames ?gg) i" "\<lambda>j. NStr (ns ! j)" False "kg_net cfg"]
      at i ns by (auto simp: endname_at_def go_nth_def)
  obtain net2 where net2: "enable_ends (\<lambda>_. True) (endname_at (gg_mendnames ?gg) i) False [0..<length ms] net1 = Inr net2"
      "same_but_enabled net1 net2"
    using enable_ends_result [of "[0..<length ms]" "\<lambda>_. True" "endname_at (gg_mendnames ?gg) i" "\<lambda>j. NStr (ms ! j)" False net1]
      at i ms by (auto simp: endname_at_def go_nth_def)
  have ends: "net_ends net2 = net_ends (kg_net cfg)" using same_but_enabledD(1) [OF net1(2)] same_but_enabledD(1) [OF net2(2)] by simp
  obtain pt x where "copy_saved (kg_pt cfg) (gg_saved ?gg ! i) = Inr (pt, x)"
    using copy_saved_replaces [OF sound saved(2)] saved(1) by auto
  then obtain cfg' where shut: "kv_shutdown gi i cfg = Inr cfg'" and net: "net_ends (kg_net cfg') = net_ends (kg_net cfg)"
    and groups: "kg_groups cfg' = (kg_groups cfg)[gi := ?gg\<lparr>gg_saved := (gg_saved ?gg)[i := x], gg_servers := (gg_servers ?gg)[i := None]\<rparr>]"
    and fields: "kg_n cfg' = kg_n cfg" "kg_ctl cfg' = kg_ctl cfg"
    using at i net1(1) net2(1) ms ends by (simp add: kv_shutdown_def go_nth_def DeleteServer_def)
  have "sized n cfg'" by (rule sized_update [OF sz groups fields]) (simp_all add: at)
  with shut net fields show ?thesis by simp
qed

lemma kv_shutdown_ok:
  assumes sz: "sized n cfg" and "used nm U cfg" and gi: "gi < 3" and i: "i < n" "i < 3" and sound: "psound (kg_pt cfg)"
    and saved: "gg_saved (kg_groups cfg ! gi) ! i = Some b" "b < length (pt_ps (kg_pt cfg))"
    and ns: "gg_endnames (kg_groups cfg ! gi) ! i = Some ns" "length ns = n" and ms: "gg_mendnames (kg_groups cfg ! gi) ! i = Some ms"
  shows "\<exists>cfg'. kv_shutdown gi i cfg = Inr cfg' \<and> sized n cfg' \<and> used nm U cfg'"
  using kv_shutdown_returns [OF sz gi i sound saved ns ms] assms(2) by (auto simp: used_def)


definition example_start :: "nat \<Rightarrow> kg_act" where
  "example_start x = GStart 0 0 (\<lambda>j. example_draw (DEnd 0 x j)) (\<lambda>j. example_draw (DMend 0 x j))"

abbreviation example_prepare :: "kconfig go" where
  "example_prepare \<equiv> kv_prepare example_ps (\<lambda>i. itoa (int i)) (\<lambda>i j. example_draw (DCtl i j)) (\<lambda>j. example_draw (DClerk j)) 7 3 1000"

lemma example_started:
  obtains cfg0 cfg U where "example_prepare = Inr cfg0" "go_run (kg_exec example_ps) cfg0 [example_start 0] = Inr (cfg, [()])"
    "disk_ok (kg_disk cfg)" "running cfg 0 0 = Some 0" "used example_draw U cfg" "sized 3 cfg" "unused U 0 1" "U \<inter> range DClient = {}"
    "\<exists>ns. gg_endnames (kg_groups cfg ! 0) ! 0 = Some ns \<and> length ns = 3" "\<exists>ms. gg_mendnames (kg_groups cfg ! 0) ! 0 = Some ms"
proof -
  obtain cfg0 V where prep: "example_prepare = Inr cfg0"
    and used0: "used example_draw V cfg0" and V: "V \<subseteq> {DCtl i j | i j. True} \<union> range DClerk"
    using kv_prepare_ok [OF inj_example_draw] by blast
  note f0 = kv_prepare_fields [OF prep]
  let ?U = "V \<union> DEnd 0 0 ` {..<3} \<union> DMend 0 0 ` {..<3}"
  have saved: "gg_saved (kg_groups cfg0 ! 0) ! 0 = None" by (simp add: f0 new_group_def)
  have "DEnd 0 0 j \<notin> V" "DMend 0 0 j \<notin> V" for j using V by auto
  with saved obtain cfg where start: "kv_start example_ps (\<lambda>j. example_draw (DEnd 0 0 j)) (\<lambda>j. example_draw (DMend 0 0 j)) 0 0 cfg0 = Inr cfg"
    and cfg: "used example_draw ?U cfg" "sized 3 cfg"
    using kv_start_ok [OF inj_example_draw used0 kv_prepare_sized [OF prep], of 0 0 0 example_ps] f0(5) by auto
  have run: "go_run (kg_exec example_ps) cfg0 [example_start 0] = Inr (cfg, [()])" using start by (simp add: example_start_def)
  have al: "go_allowed (kg_exec example_ps) kg_pre cfg0 [example_start 0]" by (simp add: example_start_def split: sum.splits)
  have "disk_ok (kg_disk cfg)" using kg.run_disk_ok [OF TrueI prepared_disk_ok [OF prep] al run] .
  moreover have "running cfg 0 0 = Some 0" using kv_start_snapshot [OF prepared_disk_ok [OF prep] start] f0(4) by auto
  moreover have "unused ?U 0 1" "?U \<inter> range DClient = {}" using V by (auto simp: unused_def)
  ultimately show thesis using prep run cfg kv_start_names [OF start] f0(2) by (intro that) auto
qed

lemma joined_names_lead_to_servers_witness:
  "\<exists>cfg0 cfg os groups cfg' ce. example_prepare = Inr cfg0 \<and> go_run (kg_exec example_ps) cfg0 [example_start 0] = Inr (cfg, os) \<and>
     joinm cfg [0, 1] Map.empty = Inr groups \<and> dom groups = {100, 101} \<and>
     make_end (example_draw (DClient 0)) (the (groups 100) ! 0) cfg = Inr (cfg', ce) \<and>
     readEndnameInfo (kg_net cfg') (ce_endname ce) =
       (True, Some (NStr (the (groups 100) ! 0)), Some (ki_srv (kg_insts cfg ! 0)), reliable (kg_net cfg), longReordering (kg_net cfg))"
proof -
  obtain cfg0 cfg U where prep: "example_prepare = Inr cfg0"
    and run: "go_run (kg_exec example_ps) cfg0 [example_start 0] = Inr (cfg, [()])"
    and cfg: "running cfg 0 0 = Some 0" "used example_draw U cfg" "sized 3 cfg" "U \<inter> range DClient = {}"
    using example_started by metis
  have "kg_groups cfg \<noteq> []" "length (kg_groups cfg) = 3" using cfg(3) by (auto simp: sized_def)
  then obtain groups where join: "joinm cfg [0, 1] Map.empty = Inr groups" by (auto simp: go_nth_def)
  have "NStr (example_draw (DClient 0)) \<notin> dom (net_ends (kg_net cfg))"
    using cfg(2,4) inj_example_draw by (auto simp: used_def dest: injD)
  then have "net_ends (kg_net cfg) (NStr (example_draw (DClient 0))) = None" by (simp add: domIff)
  then obtain cfg' ce where made: "make_end (example_draw (DClient 0)) (the (groups 100) ! 0) cfg = Inr (cfg', ce)"
    by (simp add: make_end_def MakeEnd_def Let_def)
  have al: "go_allowed (kg_exec example_ps) kg_pre cfg0 [example_start 0]" by (simp add: example_start_def split: sum.splits)
  from joined_names_lead_to_servers [OF prep al run join, of 0 0] made cfg(1) prep run join show ?thesis by auto
qed


text \<open>The instance allocates a byte string and saves it as its snapshot.\<close>

lemma saves_snapshot:
  assumes ok: "disk_ok (kg_disk cfg)" and live: "running cfg gi i = Some k"
  obtains xs cfg' os where "go_allowed (kg_exec ps) kg_pre cfg xs" "go_run (kg_exec ps) cfg xs = Inr (cfg', os)"
    "\<exists>pt. cfg' = cfg\<lparr>kg_pt := pt\<rparr>" "held (kg_pt cfg') (ki_ps (kg_insts cfg ! k)) = ([], bs)"
proof -
  let ?a = "ki_ps (kg_insts cfg ! k)" and ?h = "length (pt_heap (kg_pt cfg))"
  let ?pt = "(kg_pt cfg)\<lparr>pt_heap := pt_heap (kg_pt cfg) @ [bs], pt_owned := insert ?h (pt_owned (kg_pt cfg))\<rparr>"
  have k: "k < length (kg_insts cfg)" using running_holds(1) [OF ok live] .
  have sound: "psound (kg_pt cfg)" and a: "?a < length (pt_ps (kg_pt cfg))"
    using disk_okD(1) [OF ok] disk_okD(2) [OF ok, of ?a] k by (simp_all add: kg_disk_def)
  have "psound ?pt" using pexec_keeps [OF sound, of "ClientAlloc bs" ?pt OClient] by (simp add: keeps_def)
  from pexec_Save [OF this, of ?a None "Some ?h"] a obtain pt' out
    where save: "pexec ?pt (CallSave ?a None (Some ?h)) = Inr (pt', out)" and held: "held pt' ?a = ([], bs)"
    by (auto simp: deref_def simp del: pexec.simps)
  let ?x = "GInst k (ClientAlloc bs)" and ?y = "GInst k (CallSave ?a None (Some ?h))"
  have pre: "kg_pre cfg ?x" "kg_pre (cfg\<lparr>kg_pt := ?pt\<rparr>) ?y" using k by (simp_all add: kg_disk_def)
  have step: "kg_exec ps cfg ?x = Inr (cfg\<lparr>kg_pt := ?pt\<rparr>, ())" by simp
  have step': "kg_exec ps (cfg\<lparr>kg_pt := ?pt\<rparr>) ?y = Inr (cfg\<lparr>kg_pt := pt'\<rparr>, ())" using save by (simp del: pexec.simps)
  have run: "go_allowed (kg_exec ps) kg_pre cfg [?x, ?y]" "go_run (kg_exec ps) cfg [?x, ?y] = Inr (cfg\<lparr>kg_pt := pt'\<rparr>, [(), ()])"
    using pre by (simp_all add: step step' del: kg_exec.simps kg_pre.simps)
  have ex: "\<exists>pt. cfg\<lparr>kg_pt := pt'\<rparr> = cfg\<lparr>kg_pt := pt\<rparr>" by (rule exI [of _ pt'], rule refl)
  have "held (kg_pt (cfg\<lparr>kg_pt := pt'\<rparr>)) ?a = ([], bs)" using held by simp
  from that [OF run ex this] show thesis .
qed

lemma kv_restarts_from_snapshot_witness:
  "\<exists>cfg0 xs cfg os1 cfg' os2 k mends. example_prepare = Inr cfg0 \<and> go_run (kg_exec example_ps) cfg0 xs = Inr (cfg, os1) \<and>
     go_run (kg_exec example_ps) cfg [GShut 0 0, example_start 1] = Inr (cfg', os2) \<and> running cfg' 0 0 = Some k \<and>
     held (kg_pt cfg') (ki_ps (kg_insts cfg' ! k)) = ([], [5]) \<and>
     ki_kv (kg_insts cfg' ! k) = kv_StartServer (kp_decodeSnapshot example_ps) 7 0 [5] (kg_maxraftstate cfg') (gg_gid (kg_groups cfg' ! 0)) mends"
proof -
  obtain cfg0 cfg1 U ns ms where prep: "example_prepare = Inr cfg0"
    and run1: "go_run (kg_exec example_ps) cfg0 [example_start 0] = Inr (cfg1, [()])"
    and cfg1: "disk_ok (kg_disk cfg1)" "running cfg1 0 0 = Some 0" "used example_draw U cfg1" "sized 3 cfg1" "unused U 0 1"
    and names: "gg_endnames (kg_groups cfg1 ! 0) ! 0 = Some ns" "length ns = 3" "gg_mendnames (kg_groups cfg1 ! 0) ! 0 = Some ms"
    using example_started by metis
  have al1: "go_allowed (kg_exec example_ps) kg_pre cfg0 [example_start 0]" by (simp add: example_start_def split: sum.splits)
  obtain xs cfg os1 pt where al: "go_allowed (kg_exec example_ps) kg_pre cfg1 xs"
    and run: "go_run (kg_exec example_ps) cfg1 xs = Inr (cfg, os1)"
    and same: "cfg = cfg1\<lparr>kg_pt := pt\<rparr>" and held: "held (kg_pt cfg) (ki_ps (kg_insts cfg1 ! 0)) = ([], [5])"
    using saves_snapshot [OF cfg1(1,2)] by metis
  have ok: "disk_ok (kg_disk cfg)" using kg.run_disk_ok [OF TrueI cfg1(1) al run] .
  have cfg: "running cfg 0 0 = Some 0" "used example_draw U cfg" "sized 3 cfg"
    "gg_endnames (kg_groups cfg ! 0) ! 0 = Some ns" "gg_mendnames (kg_groups cfg ! 0) ! 0 = Some ms" "kg_insts cfg = kg_insts cfg1"
    using cfg1(2-4) names unfolding same by (simp_all add: used_def sized_def)
  have saved: "gg_saved (kg_groups cfg ! 0) ! 0 = Some (ki_ps (kg_insts cfg ! 0))"
    and a: "ki_ps (kg_insts cfg ! 0) < length (pt_ps (kg_pt cfg))"
    using disk_okD(7) [OF ok, of "(0, 0)" 0] disk_okD(4) [OF ok, of "(0, 0)" "ki_ps (kg_insts cfg ! 0)"]
      running_holds(1) [OF ok cfg(1)] cfg(1) sized_at [OF cfg(3), of 0] by (simp_all add: kg_disk_def group_slot_at)
  have "psound (kg_pt cfg)" using disk_okD(1) [OF ok] by (simp add: kg_disk_def)
  from kv_shutdown_ok [OF cfg(3,2) _ _ _ this saved a cfg(4) names(2) cfg(5)] obtain cfg2
    where shut: "kv_shutdown 0 0 cfg = Inr cfg2" and cfg2: "sized 3 cfg2" "used example_draw U cfg2" by auto
  have ok2: "disk_ok (kg_disk cfg2)" by (rule kg.run_disk_ok [OF TrueI ok, of example_ps "[GShut 0 0]" cfg2 "[()]"]) (simp_all add: shut)
  have s2: "psound (kg_pt cfg2)" "\<forall>b \<in> set_option (gg_saved (kg_groups cfg2 ! 0) ! 0). b < length (pt_ps (kg_pt cfg2))"
    using disk_okD(1) [OF ok2] disk_okD(4) [OF ok2, of "(0, 0)"] sized_at [OF cfg2(1), of 0] by (auto simp: kg_disk_def group_slot_at)
  obtain cfg' where start: "kv_start example_ps (\<lambda>j. example_draw (DEnd 0 1 j)) (\<lambda>j. example_draw (DMend 0 1 j)) 0 0 cfg2 = Inr cfg'"
    using kv_start_ok [OF inj_example_draw cfg2(2,1) _ _ _ _ _ s2, of 1 example_ps] cfg1(5) by (auto simp: unused_def)
  have run2: "go_run (kg_exec example_ps) cfg (GShut 0 0 # [] @ [example_start 1]) = Inr (cfg', [(), ()])"
    using shut start by (simp add: example_start_def)
  have al2: "go_allowed (kg_exec example_ps) kg_pre cfg (GShut 0 0 # [] @ [example_start 1])"
    by (simp add: example_start_def split: sum.splits)
  have run': "go_run (kg_exec example_ps) cfg0 ([example_start 0] @ xs) = Inr (cfg, [()] @ os1)"
    using run1 run by (simp only: go_run_append) simp
  have al': "go_allowed (kg_exec example_ps) kg_pre cfg0 ([example_start 0] @ xs)"
    using al al1 run1 by (simp only: go_allowed_append) simp
  from kv_restarts_from_snapshot [OF prep al' run' cfg(1) al2 [unfolded example_start_def] run2 [unfolded example_start_def]]
  obtain k mends where "running cfg' 0 0 = Some k" "held (kg_pt cfg') (ki_ps (kg_insts cfg' ! k)) = ([], [5])"
    "ki_kv (kg_insts cfg' ! k) = kv_StartServer (kp_decodeSnapshot example_ps) 7 0 [5] (kg_maxraftstate cfg') (gg_gid (kg_groups cfg' ! 0)) mends"
    using held by (auto simp: cfg(6) example_ps_def)
  with prep run' run2 [unfolded append_Nil] show ?thesis by blast
qed

end
