(* ===== verification/KVLifecycle.thy ===== *)
theory KVLifecycle
  imports ShardKVConfig
begin

text \<open>
  The end of the servers: \<^verbatim>\<open>cleanup\<close> of \<^verbatim>\<open>src/shardkv/config.go\<close>, and the loops it is meant to stop,
  \<^verbatim>\<open>runServer\<close> of \<^verbatim>\<open>src/raft/raft.go\<close> and \<^verbatim>\<open>runKVServer\<close> of \<^verbatim>\<open>src/shardkv/server.go\<close>. The sources show the loops
  with their tests and cases; what the cases do is left out and is a parameter here.

  Shown here: after any sequence of operations \<^verbatim>\<open>cleanup\<close> returns and every Raft instance that was
  ever started leaves its loop, while no key/value server and no controller does.
\<close>

section \<open>Loops\<close>

text \<open>One turn of the loop of Raft: None when it ends.\<close>

record 'c raft_code =
  rc_Leader :: "'c Raft \<Rightarrow> 'c Raft"
  rc_Follower :: "'c Raft \<Rightarrow> 'c Raft"
  rc_Candidate :: "'c Raft \<Rightarrow> 'c Raft"

definition runServer_turn :: "'c raft_code \<Rightarrow> 'c Raft \<Rightarrow> 'c Raft option" where
  "runServer_turn code rf =
     (if Raft_killed rf then None
      else Some (case rf_state rf of
          Leader \<Rightarrow> rc_Leader code rf
        | Follower \<Rightarrow> rc_Follower code rf
        | Candidate \<Rightarrow> rc_Candidate code rf))"

text \<open>
  One turn of the loop of the key/value server, for the message it receives. A message without an
  operation leaves \<^verbatim>\<open>op\<close> at its zero value. The cases may change \<^verbatim>\<open>op\<close> for the code that follows them.
\<close>

record kv_code =
  kc_snapshot :: "KVOp ApplyMsg \<Rightarrow> ShardKV \<Rightarrow> ShardKV"
  kc_Get :: "int \<Rightarrow> KVOp \<times> ShardKV \<Rightarrow> KVOp \<times> ShardKV"
  kc_Put :: "int \<Rightarrow> KVOp \<times> ShardKV \<Rightarrow> KVOp \<times> ShardKV"
  kc_Append :: "int \<Rightarrow> KVOp \<times> ShardKV \<Rightarrow> KVOp \<times> ShardKV"
  kc_Reconfigure :: "int \<Rightarrow> KVOp \<times> ShardKV \<Rightarrow> KVOp \<times> ShardKV"
  kc_DeleteShard :: "int \<Rightarrow> KVOp \<times> ShardKV \<Rightarrow> KVOp \<times> ShardKV"
  kc_after :: "int \<Rightarrow> KVOp \<times> ShardKV \<Rightarrow> ShardKV"
  kc_other :: "KVOp ApplyMsg \<Rightarrow> ShardKV \<Rightarrow> ShardKV"

definition zero_op :: KVOp where
  "zero_op = \<lparr>kop_Op = '''', kop_Key = '''', kop_Value = '''', kop_ClientId = 0, kop_TimeStamp = 0, kop_Config = zero_config,
     kop_ShardId = 0, kop_ConfigNum = 0, kop_ShardIds = [], kop_ShardData = replicate NShards Map.empty, kop_Ack = Map.empty\<rparr>"

definition runKVServer_turn :: "kv_code \<Rightarrow> ShardKV \<Rightarrow> KVOp ApplyMsg \<Rightarrow> ShardKV option" where
  "runKVServer_turn code kv applyMsg =
     (if kv_killed kv then None
      else Some
        (if Command applyMsg = None \<and> SnapshotValid applyMsg then kc_snapshot code applyMsg kv
         else if CommandValid applyMsg
         then let op = (case Command applyMsg of None \<Rightarrow> zero_op | Some op \<Rightarrow> op);
                  index = CommandIndex applyMsg;
                  run = (if kop_Op op = ''Get'' then kc_Get code index
                         else if kop_Op op = ''Put'' then kc_Put code index
                         else if kop_Op op = ''Append'' then kc_Append code index
                         else if kop_Op op = ''Reconfigure'' then kc_Reconfigure code index
                         else if kop_Op op = ''DeleteShard'' then kc_DeleteShard code index
                         else (\<lambda>s. s))
              in kc_after code index (run (op, kv))
         else kc_other code applyMsg kv))"

section \<open>Cleaning up, one group joining or leaving\<close>

fun shutdown_groups :: "nat list \<Rightarrow> kconfig \<Rightarrow> kconfig go" where
  "shutdown_groups [] cfg = Inr cfg"
| "shutdown_groups (gi # gis) cfg = go_bind (ShutdownGroup gi cfg) (shutdown_groups gis)"

fun kill_ctrlers :: "nat list \<Rightarrow> (ShardCtrler \<times> Op Raft) option list \<Rightarrow> (ShardCtrler \<times> Op Raft) option list go" where
  "kill_ctrlers [] srv = Inr srv"
| "kill_ctrlers (i # is) srv =
     go_bind (go_nth srv (int i)) (\<lambda>x.
       case x of None \<Rightarrow> Inl NilDereference | Some s \<Rightarrow> kill_ctrlers is (srv[i := Some (Kill s)]))"

definition kv_cleanup :: "bool \<Rightarrow> int \<Rightarrow> kconfig \<Rightarrow> (kconfig \<times> unit go) go" where
  "kv_cleanup failed elapsed cfg =
     go_bind (shutdown_groups [0..<kg_ngroups cfg] cfg) (\<lambda>cfg1.
     go_bind (kill_ctrlers [0..<cs_n (kg_ctl cfg1)] (cs_servers (kg_ctl cfg1))) (\<lambda>srv.
     go_bind (Cleanup (kg_net cfg1)) (\<lambda>net.
       Inr (cfg1\<lparr>kg_net := net, kg_ctl := (kg_ctl cfg1)\<lparr>cs_servers := srv\<rparr>\<rparr>, checkTimeout failed elapsed))))"

text \<open>What \<^verbatim>\<open>join\<close> and \<^verbatim>\<open>leave\<close> hand to the clerk of the controller.\<close>

definition join_group :: "nat \<Rightarrow> kconfig \<Rightarrow> (int \<rightharpoonup> string list) go" where
  "join_group gi cfg = joinm cfg [gi] Map.empty"

definition leave_group :: "nat \<Rightarrow> kconfig \<Rightarrow> int list go" where
  "leave_group gi cfg = leavem cfg [gi]"

section \<open>What cleaning up relies on\<close>

definition serving :: "(ShardCtrler \<times> Op Raft) option \<Rightarrow> bool" where
  "serving x \<longleftrightarrow> (\<exists>sc rf. x = Some (sc, rf) \<and> \<not> killed sc)"

definition ctl_alive :: "ctrler \<Rightarrow> bool" where
  "ctl_alive ctl \<longleftrightarrow> length (cs_servers ctl) = 3 \<and> (\<forall>x \<in> set (cs_servers ctl). serving x)"

text \<open>An instance is running in its group, or its Raft has been killed; its server never has.\<close>

definition insts_alive :: "kconfig \<Rightarrow> bool" where
  "insts_alive cfg \<longleftrightarrow> (\<forall>k < length (kg_insts cfg). \<not> kv_killed (ki_kv (kg_insts cfg ! k)) \<and>
     (Raft_killed (ki_rf (kg_insts cfg ! k)) \<or> (\<exists>gi i. running cfg gi i = Some k)))"

definition stoppable :: "kconfig \<Rightarrow> bool" where
  "stoppable cfg \<longleftrightarrow> sized 3 cfg \<and> kg_ngroups cfg = 3 \<and> \<not> net_done (kg_net cfg) \<and> disk_ok (kg_disk cfg) \<and>
     ctl_alive (kg_ctl cfg) \<and> insts_alive cfg"

text \<open>A server that has been started has names for its ends and a persister.\<close>

definition named :: "kconfig \<Rightarrow> nat \<Rightarrow> nat \<Rightarrow> bool" where
  "named cfg gi i \<longleftrightarrow> (\<exists>ns ms b. gg_endnames (kg_groups cfg ! gi) ! i = Some ns \<and> length ns = 3 \<and>
     gg_mendnames (kg_groups cfg ! gi) ! i = Some ms \<and> gg_saved (kg_groups cfg ! gi) ! i = Some b)"

definition life_pre :: "kconfig \<Rightarrow> kg_act \<Rightarrow> bool" where
  "life_pre cfg act \<longleftrightarrow> kg_pre cfg act \<and> (case act of GStart gi i _ _ \<Rightarrow> running cfg gi i = None | _ \<Rightarrow> True)"

lemma net_done_simps [simp]:
  "net_done (Enable e b net) = net_done net" "net_done (Connect e s net) = net_done net" "net_done (AddServer s a net) = net_done net"
  "net_done (DeleteServer s net) = net_done net" "net_done (Reliable b net) = net_done net"
  "MakeEnd e net = Inr (net', ce) \<Longrightarrow> net_done net' = net_done net"
  by (auto simp: Enable_def Connect_def MakeEnd_def AddServer_def DeleteServer_def Reliable_def Let_def split: if_splits)

lemma make_ends_done: "make_ends rnd srv en js net = Inr (net', es) \<Longrightarrow> \<not> net_done net \<Longrightarrow> \<not> net_done net'"
  by (induction js arbitrary: net es) (fastforce simp: go_bind_Inr Let_def split: if_splits)+

lemma ctrler_ends_done: "ctrler_ends ctl rnd js net = Inr (net', es) \<Longrightarrow> \<not> net_done net \<Longrightarrow> \<not> net_done net'"
  by (induction js arbitrary: net es) (fastforce simp: go_bind_Inr)+

lemma kv_client_loop_done: "kv_client_loop ctl rnd js ns net = Inr (ns', net', es) \<Longrightarrow> \<not> net_done net \<Longrightarrow> \<not> net_done net'"
  by (induction js arbitrary: ns net es) (fastforce simp: go_bind_Inr)+

lemma enable_ends_done: "enable_ends g nm b js net = Inr net' \<Longrightarrow> \<not> net_done net \<Longrightarrow> \<not> net_done net'"
  by (induction js arbitrary: net) (fastforce simp: go_bind_Inr split: if_splits)+

lemma kill_instance_nth:
  assumes "j < length insts"
  shows "ki_kv (kv_kill_instance k insts ! j) = ki_kv (insts ! j)"
    and "ki_rf (kv_kill_instance k insts ! j) = (if j = k then Raft_Kill (ki_rf (insts ! j)) else ki_rf (insts ! j))"
    and "length (kv_kill_instance k insts) = length insts"
  using assms by (cases "k < length insts"; auto simp: kv_kill_instance_def kv_Kill_def nth_list_update)+


lemma kv_start_groups:
  assumes "kv_start ps rnd rndm gi i cfg = Inr cfg'"
  shows "\<exists>a. kg_groups cfg' = (kg_groups cfg)[gi := (kg_groups cfg ! gi)
      \<lparr>gg_endnames := (gg_endnames (kg_groups cfg ! gi))[i := Some (map rnd [0..<kg_n cfg])],
       gg_mendnames := (gg_mendnames (kg_groups cfg ! gi))[i := Some (map rndm [0..<cs_n (kg_ctl cfg)])],
       gg_saved := (gg_saved (kg_groups cfg ! gi))[i := Some a],
       gg_servers := (gg_servers (kg_groups cfg ! gi))[i := Some (length (kg_insts cfg))]\<rparr>]"
    and "kg_n cfg' = kg_n cfg" "kg_ctl cfg' = kg_ctl cfg" "kg_ngroups cfg' = kg_ngroups cfg"
    and "\<not> net_done (kg_net cfg) \<Longrightarrow> \<not> net_done (kg_net cfg')"
  using assms
  by (auto simp: kv_start_def go_bind_Inr go_nth_at go_update_at Let_def simp del: pexec.simps
      dest: make_ends_done ctrler_ends_done)

lemma kv_start_inst:
  assumes "kv_start ps rnd rndm gi i cfg = Inr cfg'"
  shows "\<exists>inst bs mends. kg_insts cfg' = kg_insts cfg @ [inst] \<and>
      ki_kv inst = kv_StartServer (kp_decodeSnapshot ps) (kp_clerk ps) (int i) bs (kg_maxraftstate cfg) (gg_gid (kg_groups cfg ! gi)) mends"
  by (rule kv_startD [OF assms]) (simp, blast)

lemma kv_shutdown_groups:
  assumes "kv_shutdown gi i cfg = Inr cfg'"
  shows "\<exists>x. kg_groups cfg' = (kg_groups cfg)[gi := (kg_groups cfg ! gi)
      \<lparr>gg_saved := (gg_saved (kg_groups cfg ! gi))[i := x], gg_servers := (gg_servers (kg_groups cfg ! gi))[i := None]\<rparr>] \<and>
      (gg_saved (kg_groups cfg ! gi) ! i \<noteq> None \<longrightarrow> x \<noteq> None)"
    and "kg_insts cfg' = (case gg_servers (kg_groups cfg ! gi) ! i of None \<Rightarrow> kg_insts cfg | Some k \<Rightarrow> kv_kill_instance k (kg_insts cfg))"
    and "kg_n cfg' = kg_n cfg" "kg_ctl cfg' = kg_ctl cfg" "kg_ngroups cfg' = kg_ngroups cfg"
    and "\<not> net_done (kg_net cfg) \<Longrightarrow> \<not> net_done (kg_net cfg')"
    and "gi < length (kg_groups cfg)" "i < length (gg_servers (kg_groups cfg ! gi))" "i < length (gg_saved (kg_groups cfg ! gi))"
  by (rule kv_shutdownD [OF assms]; auto simp: copy_saved_def go_bind_Inr split: option.splits dest: enable_ends_done simp del: pexec.simps)+

lemma named_update:
  assumes "kg_groups cfg' = (kg_groups cfg)[gi := gg]" and "gi < length (kg_groups cfg)" and "g \<noteq> gi \<or> x \<noteq> i"
    and "gg_endnames gg = (gg_endnames (kg_groups cfg ! gi))[i := e]" "gg_mendnames gg = (gg_mendnames (kg_groups cfg ! gi))[i := me]"
      "gg_saved gg = (gg_saved (kg_groups cfg ! gi))[i := s]"
  shows "named cfg' g x = named cfg g x"
  using assms by (cases "g = gi") (auto simp: named_def)

text \<open>A start, with the slot free.\<close>

lemma start_stoppable:
  assumes st: "stoppable cfg" and start: "kv_start ps rnd rndm gi i cfg = Inr cfg'" and free: "running cfg gi i = None"
    and ok': "disk_ok (kg_disk cfg')" and keep: "\<forall>bs kv. kv_dead (kp_decodeSnapshot ps bs kv) = kv_dead kv"
  shows "stoppable cfg' \<and> named cfg' gi i \<and> (\<forall>g x. named cfg g x \<longrightarrow> named cfg' g x)"
proof -
  have sz: "sized 3 cfg" and insts: "insts_alive cfg" using st by (simp_all add: stoppable_def)
  have room: "gi < length (kg_groups cfg)" "i < length (gg_saved (kg_groups cfg ! gi))" "i < length (gg_servers (kg_groups cfg ! gi))"
    "i < length (gg_mendnames (kg_groups cfg ! gi))" by (rule kv_startD [OF start]; simp)+
  then have gi: "gi < 3" using sz by (simp add: sized_def)
  note at = sized_at [OF sz gi]
  from kv_start_groups(1) [OF start] obtain a where groups: "kg_groups cfg' = (kg_groups cfg)[gi := (kg_groups cfg ! gi)
      \<lparr>gg_endnames := (gg_endnames (kg_groups cfg ! gi))[i := Some (map rnd [0..<kg_n cfg])],
       gg_mendnames := (gg_mendnames (kg_groups cfg ! gi))[i := Some (map rndm [0..<cs_n (kg_ctl cfg)])],
       gg_saved := (gg_saved (kg_groups cfg ! gi))[i := Some a],
       gg_servers := (gg_servers (kg_groups cfg ! gi))[i := Some (length (kg_insts cfg))]\<rparr>]" (is "_ = (kg_groups cfg)[gi := ?gg]") by blast
  note fields = kv_start_groups(2-5) [OF start]
  have "sized 3 cfg'" by (rule sized_update [OF sz groups fields(1,2)]) (simp_all add: at)
  moreover have slot: "group_slot gg_servers (kg_groups cfg') = (group_slot gg_servers (kg_groups cfg))((gi, i) := Some (length (kg_insts cfg)))"
    using room by (simp add: groups group_slot_update)
  from kv_start_inst [OF start] obtain inst bs mends where new: "kg_insts cfg' = kg_insts cfg @ [inst]"
    "ki_kv inst = kv_StartServer (kp_decodeSnapshot ps) (kp_clerk ps) (int i) bs (kg_maxraftstate cfg) (gg_gid (kg_groups cfg ! gi)) mends"
    by blast
  have "\<not> kv_killed (ki_kv inst)" by (simp add: new(2) kv_StartServer_def kv_killed_def keep)
  have "insts_alive cfg'"
    unfolding insts_alive_def
  proof (intro allI impI)
    fix k assume "k < length (kg_insts cfg')"
    then consider "k = length (kg_insts cfg)" | "k < length (kg_insts cfg)" by (fastforce simp: new(1))
    then show "\<not> kv_killed (ki_kv (kg_insts cfg' ! k)) \<and> (Raft_killed (ki_rf (kg_insts cfg' ! k)) \<or> (\<exists>gi i. running cfg' gi i = Some k))"
    proof cases
      case 1
      with \<open>\<not> kv_killed (ki_kv inst)\<close> slot show ?thesis by (auto simp: new(1))
    next
      case 2
      have "running cfg' g x = Some k" if "running cfg g x = Some k" for g x using that free slot by auto
      moreover have "\<not> kv_killed (ki_kv (kg_insts cfg ! k)) \<and> (Raft_killed (ki_rf (kg_insts cfg ! k)) \<or> (\<exists>gi i. running cfg gi i = Some k))"
        using 2 insts unfolding insts_alive_def by blast
      ultimately show ?thesis using 2 by (auto simp: new(1) nth_append)
    qed
  qed
  ultimately have "stoppable cfg'" using st fields ok' by (simp add: stoppable_def)
  moreover have "kg_n cfg = 3" using sz by (simp add: sized_def)
  then have here: "named cfg' gi i" using room at by (simp add: named_def groups)
  moreover have "named cfg' g x" if "named cfg g x" for g x
    using named_update [OF groups room(1), of g x i] that here by fastforce
  ultimately show ?thesis by blast
qed

lemma shutdown_stoppable:
  assumes st: "stoppable cfg" and shut: "kv_shutdown gi i cfg = Inr cfg'" and ok': "disk_ok (kg_disk cfg')"
  shows "stoppable cfg' \<and> (\<forall>g x. named cfg g x \<longrightarrow> named cfg' g x)"
    and "(\<forall>g x. running cfg' g x = (if g = gi \<and> x = i then None else running cfg g x))"
proof -
  have sz: "sized 3 cfg" and insts: "insts_alive cfg" using st by (simp_all add: stoppable_def)
  note fields = kv_shutdown_groups(3-6) [OF shut] and room = kv_shutdown_groups(7-9) [OF shut]
  then have gi: "gi < 3" using sz by (simp add: sized_def)
  note at = sized_at [OF sz gi]
  from kv_shutdown_groups(1) [OF shut] obtain y where groups: "kg_groups cfg' = (kg_groups cfg)[gi := (kg_groups cfg ! gi)
      \<lparr>gg_saved := (gg_saved (kg_groups cfg ! gi))[i := y], gg_servers := (gg_servers (kg_groups cfg ! gi))[i := None]\<rparr>]"
    and y: "gg_saved (kg_groups cfg ! gi) ! i \<noteq> None \<longrightarrow> y \<noteq> None" by blast
  have "sized 3 cfg'" by (rule sized_update [OF sz groups fields(1,2)]) (simp_all add: at)
  moreover have slot: "group_slot gg_servers (kg_groups cfg') = (group_slot gg_servers (kg_groups cfg))((gi, i) := None)"
    using room by (simp add: groups group_slot_update)
  then show "(\<forall>g x. running cfg' g x = (if g = gi \<and> x = i then None else running cfg g x))" by auto
  have here: "running cfg gi i = gg_servers (kg_groups cfg ! gi) ! i" using room by (simp add: group_slot_at)
  have "insts_alive cfg'"
    unfolding insts_alive_def
  proof (intro allI impI)
    fix k assume "k < length (kg_insts cfg')"
    then have k: "k < length (kg_insts cfg)"
      using kv_shutdown_groups(2) [OF shut] by (auto simp: kv_kill_instance_def kv_Kill_def split: option.splits)
    have "running cfg' g x = Some k \<or> Raft_killed (ki_rf (kg_insts cfg' ! k))" if "running cfg g x = Some k" for g x
    proof (cases "g = gi \<and> x = i")
      case True
      with that here kv_shutdown_groups(2) [OF shut] kill_instance_nth(2) [OF k, of k] show ?thesis
        by (simp add: Raft_killed_def Raft_Kill_def)
    qed (use that slot in auto)
    with insts k show "\<not> kv_killed (ki_kv (kg_insts cfg' ! k)) \<and> (Raft_killed (ki_rf (kg_insts cfg' ! k)) \<or> (\<exists>gi i. running cfg' gi i = Some k))"
      using kv_shutdown_groups(2) [OF shut] kill_instance_nth(1,2) [OF k]
      unfolding insts_alive_def by (auto simp: Raft_killed_def Raft_Kill_def split: option.splits if_splits)
  qed
  ultimately have "stoppable cfg'" using st fields ok' by (simp add: stoppable_def)
  moreover have "named cfg' g x" if "named cfg g x" for g x
    using that y room by (cases "g = gi"; cases "x = i") (auto simp: named_def groups)
  ultimately show "stoppable cfg' \<and> (\<forall>g x. named cfg g x \<longrightarrow> named cfg' g x)" by blast
qed


lemma kg_exec_stoppable:
  assumes st: "stoppable cfg" and pre: "life_pre cfg act" and ex: "kg_exec ps cfg act = Inr (cfg', u)"
    and keep: "\<forall>bs kv. kv_dead (kp_decodeSnapshot ps bs kv) = kv_dead kv"
  shows "stoppable cfg' \<and> (\<forall>g x. named cfg g x \<longrightarrow> named cfg' g x) \<and> (\<forall>gi i d dm. act = GStart gi i d dm \<longrightarrow> named cfg' gi i)"
proof -
  have kgp: "kg_pre cfg act" using pre by (simp add: life_pre_def)
  have ok: "disk_ok (kg_disk cfg)" using st by (simp add: stoppable_def)
  have "go_run (kg_exec ps) cfg [act] = Inr (cfg', [u])" "go_allowed (kg_exec ps) kg_pre cfg [act]"
    using ex kgp by (simp_all del: kg_pre.simps)
  from kg.run_disk_ok [OF TrueI ok this(2,1)] have ok': "disk_ok (kg_disk cfg')" .
  show ?thesis
  proof (cases act)
    case (GStart gi i rnd rndm)
    with ex have start: "kv_start ps rnd rndm gi i cfg = Inr cfg'" by (auto simp: go_bind_Inr)
    from start_stoppable [OF st start _ ok' keep] pre GStart show ?thesis by (simp add: life_pre_def)
  next
    case (GShut gi i)
    with ex have "kv_shutdown gi i cfg = Inr cfg'" by (auto simp: go_bind_Inr)
    from shutdown_stoppable(1) [OF st this ok'] GShut show ?thesis by simp
  next
    case (GClient rnd ck)
    with ex obtain ns net es where loop: "kv_client_loop (kg_ctl cfg) rnd [0..<cs_n (kg_ctl cfg)] (replicate (kg_n cfg) []) (kg_net cfg) = Inr (ns, net, es)"
      and cfg': "cfg' = cfg\<lparr>kg_net := net, kg_clerks := (kg_clerks cfg)(ck \<mapsto> ns), kg_nextClientId := kg_nextClientId cfg + 1\<rparr>"
      by (auto simp: kv_makeClient_def go_bind_Inr)
    have "\<not> net_done net" using kv_client_loop_done [OF loop] st by (simp add: stoppable_def)
    with st ok' GClient show ?thesis by (simp add: stoppable_def sized_def insts_alive_def named_def cfg')
  next
    case (GEnd name servernm)
    with ex obtain net e where "MakeEnd (NStr name) (kg_net cfg) = Inr (net, e)"
      and cfg': "cfg' = cfg\<lparr>kg_net := Enable (NStr name) True (Connect (NStr name) (NStr servernm) net)\<rparr>"
      by (auto simp: make_end_def go_bind_Inr)
    with net_done_simps(6) st have "\<not> net_done net" by (simp add: stoppable_def)
    with st ok' GEnd show ?thesis by (simp add: stoppable_def sized_def insts_alive_def named_def cfg')
  next
    case (GInst k call)
    with ex st ok' show ?thesis
      by (auto simp: stoppable_def sized_def insts_alive_def named_def go_bind_Inr simp del: pexec.simps)
  qed
qed

lemma run_stoppable:
  assumes keep: "\<forall>bs kv. kv_dead (kp_decodeSnapshot ps bs kv) = kv_dead kv"
  shows "stoppable cfg \<Longrightarrow> go_allowed (kg_exec ps) life_pre cfg xs \<Longrightarrow> go_run (kg_exec ps) cfg xs = Inr (cfg', os) \<Longrightarrow>
     stoppable cfg' \<and> (\<forall>g x. named cfg g x \<longrightarrow> named cfg' g x) \<and> (\<forall>gi i d dm. GStart gi i d dm \<in> set xs \<longrightarrow> named cfg' gi i)"
proof (induction xs arbitrary: cfg os)
  case (Cons x xs)
  then obtain cfg1 u os1 where step: "kg_exec ps cfg x = Inr (cfg1, u)" and run: "go_run (kg_exec ps) cfg1 xs = Inr (cfg', os1)"
    and pre: "life_pre cfg x" and al: "go_allowed (kg_exec ps) life_pre cfg1 xs" by (auto simp: go_bind_Inr)
  note one = kg_exec_stoppable [OF Cons.prems(1) pre step keep]
  from Cons.IH [OF _ al run] one have rest: "stoppable cfg' \<and> (\<forall>g x. named cfg1 g x \<longrightarrow> named cfg' g x) \<and>
      (\<forall>gi i d dm. GStart gi i d dm \<in> set xs \<longrightarrow> named cfg' gi i)" by blast
  have "named cfg' gi i" if "GStart gi i d dm \<in> set (x # xs)" for gi i d dm
  proof -
    from that consider "x = GStart gi i d dm" | "GStart gi i d dm \<in> set xs" by fastforce
    then show ?thesis using one rest by cases blast+
  qed
  with one rest show ?case by blast
qed simp

section \<open>The configuration before the groups start\<close>

lemma StartCtrlerServer_ctl:
  assumes "StartCtrlerServer ps rnd i cfg = Inr cfg'"
  shows "\<exists>rf. kg_ctl cfg' = (kg_ctl cfg)\<lparr>cs_servers := (cs_servers (kg_ctl cfg))[i := Some (StartServer (int i), rf)]\<rparr>"
    and "\<not> net_done (kg_net cfg) \<Longrightarrow> \<not> net_done (kg_net cfg')"
  using assms by (auto simp: StartCtrlerServer_def go_bind_Inr go_update_at Let_def dest: ctrler_ends_done)

lemma start_ctrlers_alive:
  "start_ctrlers ps rnd is cfg = Inr cfg' \<Longrightarrow> \<not> net_done (kg_net cfg) \<Longrightarrow>
     \<not> net_done (kg_net cfg') \<and> length (cs_servers (kg_ctl cfg')) = length (cs_servers (kg_ctl cfg)) \<and>
     (\<forall>j < length (cs_servers (kg_ctl cfg)). j \<in> set is \<or> serving (cs_servers (kg_ctl cfg) ! j) \<longrightarrow>
        serving (cs_servers (kg_ctl cfg') ! j))"
proof (induction "is" arbitrary: cfg)
  case (Cons i "is")
  then obtain cfg1 where start: "StartCtrlerServer ps (rnd i) i cfg = Inr cfg1" and rest: "start_ctrlers ps rnd is cfg1 = Inr cfg'"
    by (auto simp: go_bind_Inr)
  from StartCtrlerServer_ctl(1) [OF start] obtain rf where
    ctl: "kg_ctl cfg1 = (kg_ctl cfg)\<lparr>cs_servers := (cs_servers (kg_ctl cfg))[i := Some (StartServer (int i), rf)]\<rparr>" by blast
  have up: "serving (Some (StartServer (int i), rf))" by (simp add: serving_def killed_def StartServer_def)
  have "serving (cs_servers (kg_ctl cfg1) ! j)" if "j < length (cs_servers (kg_ctl cfg))" "j = i \<or> serving (cs_servers (kg_ctl cfg) ! j)" for j
    using that up by (cases "j = i") (auto simp: ctl)
  with Cons.IH [OF rest StartCtrlerServer_ctl(2) [OF start Cons.prems(2)]] show ?case
    by (auto simp: ctl)
qed auto

lemma prepared_stoppable:
  assumes "kv_prepare ps rndn rnd rndc r 3 m = Inr cfg"
  shows "stoppable cfg"
proof -
  let ?ctl = "\<lparr>cs_n = 3, cs_servers = replicate 3 None, cs_names = map (\<lambda>i. ''ctlr-'' @ rndn i) [0..<3], cs_ck = None\<rparr>"
  from assms obtain cfg1 cfg2 ck where start: "start_ctrlers ps rnd [0..<3] ((empty_kconfig m)\<lparr>kg_ctl := ?ctl\<rparr>) = Inr cfg1"
    and clerk: "ctrlerclerk rndc r cfg1 = Inr (cfg2, ck)"
    and cfg: "kg_net cfg = kg_net cfg2" "kg_ctl cfg = (kg_ctl cfg2)\<lparr>cs_ck := Some ck\<rparr>"
    by (auto simp: kv_prepare_def StartCtrlerService_def go_bind_Inr Let_def)
  from start_ctrlers_alive [OF start] have one: "\<not> net_done (kg_net cfg1)" "length (cs_servers (kg_ctl cfg1)) = 3"
    "\<forall>j < 3. serving (cs_servers (kg_ctl cfg1) ! j)"
    by (auto simp: empty_kconfig_def MakeNetwork_def)
  have two: "\<not> net_done (kg_net cfg2)" "kg_ctl cfg2 = kg_ctl cfg1"
    using clerk one(1) by (auto simp: ctrlerclerk_def go_bind_Inr dest: ctrler_ends_done)
  have "ctl_alive (kg_ctl cfg)"
    using one two(2) by (auto simp: ctl_alive_def cfg in_set_conv_nth)
  then show ?thesis
    using kv_prepare_sized [OF assms] kv_prepare_fields [OF assms] prepared_disk_ok [OF assms] two(1)
    by (simp add: stoppable_def insts_alive_def cfg(1))
qed


section \<open>Cleaning up returns\<close>

lemma shutdown_stops:
  assumes st: "stoppable cfg" and named: "named cfg gi i" and gi: "gi < 3" and i: "i < 3"
  shows "\<exists>cfg'. kv_shutdown gi i cfg = Inr cfg' \<and> stoppable cfg' \<and> (\<forall>g x. named cfg g x \<longrightarrow> named cfg' g x) \<and>
     (\<forall>g x. running cfg' g x = (if g = gi \<and> x = i then None else running cfg g x)) \<and> length (kg_insts cfg') = length (kg_insts cfg)"
proof -
  have sz: "sized 3 cfg" and ok: "disk_ok (kg_disk cfg)" using st by (simp_all add: stoppable_def)
  note at = sized_at [OF sz gi]
  from named obtain ns ms b where n: "gg_endnames (kg_groups cfg ! gi) ! i = Some ns" "length ns = 3"
    "gg_mendnames (kg_groups cfg ! gi) ! i = Some ms" "gg_saved (kg_groups cfg ! gi) ! i = Some b" by (auto simp: named_def)
  have "dk_saved (kg_disk cfg) (gi, i) = Some b" using at i n(4) by (simp add: kg_disk_def group_slot_at)
  from disk_okD(4) [OF ok this] disk_okD(1) [OF ok] have b: "b < length (pt_ps (kg_pt cfg))" "psound (kg_pt cfg)"
    by (simp_all add: kg_disk_def)
  obtain cfg' where shut: "kv_shutdown gi i cfg = Inr cfg'"
    using kv_shutdown_returns [OF sz gi i i b(2) n(4) b(1) n(1,2,3)] by blast
  then have "go_run (kg_exec (undefined :: kparams)) cfg [GShut gi i] = Inr (cfg', [()])" by simp
  moreover have "go_allowed (kg_exec (undefined :: kparams)) kg_pre cfg [GShut gi i]" using shut by simp
  ultimately have "disk_ok (kg_disk cfg')" using kg.run_disk_ok [OF TrueI ok] by blast
  note stop = shutdown_stoppable [OF st shut this]
  have "length (kg_insts cfg') = length (kg_insts cfg)"
    using kv_shutdown_groups(2) [OF shut] by (simp add: kv_kill_instance_def kv_Kill_def split: option.splits)
  with shut stop show ?thesis by blast
qed

lemma shutdown_each_stops:
  assumes gi: "gi < 3"
  shows "stoppable cfg \<Longrightarrow> set is \<subseteq> {..<3} \<Longrightarrow> \<forall>g < 3. \<forall>x < 3. named cfg g x \<Longrightarrow>
     \<exists>cfg'. shutdown_each gi is cfg = Inr cfg' \<and> stoppable cfg' \<and> (\<forall>g < 3. \<forall>x < 3. named cfg' g x) \<and>
       (\<forall>g x. running cfg' g x = (if g = gi \<and> x \<in> set is then None else running cfg g x)) \<and> length (kg_insts cfg') = length (kg_insts cfg)"
proof (induction "is" arbitrary: cfg)
  case (Cons i "is")
  then have i: "i < 3" by simp
  from shutdown_stops [OF Cons.prems(1) _ gi i] Cons.prems(3) gi i obtain cfg1
    where c1: "kv_shutdown gi i cfg = Inr cfg1" "stoppable cfg1" "\<forall>g x. named cfg g x \<longrightarrow> named cfg1 g x"
      "(\<forall>g x. running cfg1 g x = (if g = gi \<and> x = i then None else running cfg g x))" "length (kg_insts cfg1) = length (kg_insts cfg)"
    by blast
  have "\<forall>g < 3. \<forall>x < 3. named cfg1 g x" using c1(3) Cons.prems(3) by blast
  with Cons.IH [OF c1(2)] Cons.prems(2) obtain cfg' where c2: "shutdown_each gi is cfg1 = Inr cfg'" "stoppable cfg'"
      "\<forall>g < 3. \<forall>x < 3. named cfg' g x" "(\<forall>g x. running cfg' g x = (if g = gi \<and> x \<in> set is then None else running cfg1 g x))"
      "length (kg_insts cfg') = length (kg_insts cfg1)" by auto
  have "(\<forall>g x. running cfg' g x = (if g = gi \<and> x \<in> set (i # is) then None else running cfg g x))"
    using c2(4) c1(4) by auto
  with c1 c2 show ?case by simp
qed auto

lemma shutdown_groups_stops:
  "stoppable cfg \<Longrightarrow> set gis \<subseteq> {..<3} \<Longrightarrow> \<forall>g < 3. \<forall>x < 3. named cfg g x \<Longrightarrow>
     \<exists>cfg'. shutdown_groups gis cfg = Inr cfg' \<and> stoppable cfg' \<and> (\<forall>g < 3. \<forall>x < 3. named cfg' g x) \<and>
       (\<forall>g x. running cfg' g x = (if g \<in> set gis \<and> x < 3 then None else running cfg g x)) \<and> length (kg_insts cfg') = length (kg_insts cfg)"
proof (induction gis arbitrary: cfg)
  case (Cons gi gis)
  then have gi: "gi < 3" by simp
  have n: "kg_n cfg = 3" using Cons.prems(1) by (simp add: stoppable_def sized_def)
  from shutdown_each_stops [OF gi Cons.prems(1), of "[0..<3]"] Cons.prems(3) obtain cfg1
    where c1: "ShutdownGroup gi cfg = Inr cfg1" "stoppable cfg1" "\<forall>g < 3. \<forall>x < 3. named cfg1 g x"
      "(\<forall>g x. running cfg1 g x = (if g = gi \<and> x \<in> set [0..<3] then None else running cfg g x))" "length (kg_insts cfg1) = length (kg_insts cfg)"
    by (auto simp: ShutdownGroup_def n atLeast0LessThan)
  from Cons.IH [OF c1(2) _ c1(3)] Cons.prems(2) obtain cfg' where c2: "shutdown_groups gis cfg1 = Inr cfg'" "stoppable cfg'"
      "\<forall>g < 3. \<forall>x < 3. named cfg' g x" "(\<forall>g x. running cfg' g x = (if g \<in> set gis \<and> x < 3 then None else running cfg1 g x))"
      "length (kg_insts cfg') = length (kg_insts cfg1)" by auto
  have "(\<forall>g x. running cfg' g x = (if g \<in> set (gi # gis) \<and> x < 3 then None else running cfg g x))"
    using c2(4) c1(4) by auto
  with c1 c2 show ?case by simp
qed auto

definition raft_stopped :: "(ShardCtrler \<times> Op Raft) option \<Rightarrow> bool" where
  "raft_stopped x \<longleftrightarrow> (\<exists>sc rf. x = Some (sc, rf) \<and> Raft_killed rf)"

lemma kill_ctrlers_stops:
  "\<forall>x \<in> set srv. serving x \<Longrightarrow> set is \<subseteq> {..<length srv} \<Longrightarrow>
     \<exists>srv'. kill_ctrlers is srv = Inr srv' \<and> length srv' = length srv \<and> (\<forall>x \<in> set srv'. serving x) \<and>
       (\<forall>j < length srv. j \<in> set is \<or> raft_stopped (srv ! j) \<longrightarrow> raft_stopped (srv' ! j))"
proof (induction "is" arbitrary: srv)
  case (Cons i "is")
  then have i: "i < length srv" by simp
  with Cons.prems(1) obtain sc rf where at: "srv ! i = Some (sc, rf)" and up: "\<not> killed sc" by (metis nth_mem serving_def)
  let ?srv = "srv[i := Some (Kill (sc, rf))]"
  have new: "serving (Some (Kill (sc, rf)))" "raft_stopped (Some (Kill (sc, rf)))"
    using up by (simp_all add: serving_def raft_stopped_def Kill_def Raft_Kill_def Raft_killed_def)
  have "\<forall>x \<in> set ?srv. serving x" using Cons.prems(1) new(1) by (auto dest: set_update_subset_insert [THEN subsetD])
  with Cons.IH [of ?srv] Cons.prems(2) obtain srv' where rest: "kill_ctrlers is ?srv = Inr srv'" "length srv' = length srv"
      "\<forall>x \<in> set srv'. serving x" "\<forall>j < length srv. j \<in> set is \<or> raft_stopped (?srv ! j) \<longrightarrow> raft_stopped (srv' ! j)" by auto
  have "raft_stopped (?srv ! j)" if "j < length srv" "j = i \<or> raft_stopped (srv ! j)" for j
    using that new(2) by (cases "j = i") auto
  with rest i at show ?case by (auto simp: go_nth_def)
qed auto

lemma all_stopped:
  assumes st: "stoppable cfg" and none: "\<forall>g < 3. \<forall>x < 3. running cfg g x = None" and "inst \<in> set (kg_insts cfg)"
  shows "Raft_killed (ki_rf inst)" and "\<not> kv_killed (ki_kv inst)"
proof -
  from assms(3) obtain k where k: "k < length (kg_insts cfg)" "inst = kg_insts cfg ! k" by (auto simp: in_set_conv_nth)
  have sz: "sized 3 cfg" and insts: "insts_alive cfg" using st by (simp_all add: stoppable_def)
  have "running cfg g x = None" for g x
  proof (cases "g < 3 \<and> x < 3")
    case False
    then show ?thesis using sz by (cases "g < 3") (auto simp: group_slot_def at_slot_def sized_def)
  qed (use none in blast)
  then show "Raft_killed (ki_rf inst)" "\<not> kv_killed (ki_kv inst)"
    using insts k unfolding insts_alive_def by auto
qed

text \<open>
  C22: After any sequence of starts and shutdowns of servers, clerks that are made, ends that are opened and calls of instances
  to their persisters, in which every server has been started and none is started while it runs, \<^verbatim>\<open>cleanup\<close>
  returns. Then every Raft instance that was ever started, in a group or for the controller, leaves its loop at the next turn. But no
  key/value server and no controller leaves its own: \<^verbatim>\<open>Kill\<close> does not set \<^verbatim>\<open>dead\<close>, so the loop takes another turn for every
  message. The code of \<^verbatim>\<open>decodeSnapshot\<close> is taken to leave \<^verbatim>\<open>dead\<close> alone.
\<close>

theorem cleanup_stops_raft_only:
  assumes "kv_prepare ps rndn rnd rndc r 3 m = Inr cfg0" and "\<forall>bs kv. kv_dead (kp_decodeSnapshot ps bs kv) = kv_dead kv"
    and "go_allowed (kg_exec ps) life_pre cfg0 xs" and "go_run (kg_exec ps) cfg0 xs = Inr (cfg, os)"
    and "\<forall>gi < 3. \<forall>i < 3. \<exists>d dm. GStart gi i d dm \<in> set xs"
  shows "\<exists>cfg'. kv_cleanup failed elapsed cfg = Inr (cfg', checkTimeout failed elapsed) \<and> length (kg_insts cfg') = length (kg_insts cfg) \<and>
     (\<forall>inst \<in> set (kg_insts cfg'). runServer_turn code (ki_rf inst) = None \<and> runKVServer_turn kcode (ki_kv inst) msg \<noteq> None) \<and>
     (\<forall>x \<in> set (cs_servers (kg_ctl cfg')). \<exists>sc rf. x = Some (sc, rf) \<and> runServer_turn ccode rf = None \<and>
        snd (runShardCtrler_turn hs sc cmsg) \<noteq> Exited)"
proof -
  from run_stoppable [OF assms(2) prepared_stoppable [OF assms(1)] assms(3,4)] assms(5)
  have st: "stoppable cfg" and named: "\<forall>g < 3. \<forall>x < 3. named cfg g x" by blast+
  have three: "kg_ngroups cfg = 3" using st by (simp add: stoppable_def)
  from shutdown_groups_stops [OF st _ named, of "[0..<3]"] obtain cfg1 where c1: "shutdown_groups [0..<3] cfg = Inr cfg1" "stoppable cfg1"
      "(\<forall>g x. running cfg1 g x = (if g \<in> set [0..<3] \<and> x < 3 then None else running cfg g x))" "length (kg_insts cfg1) = length (kg_insts cfg)"
    by (auto simp: atLeast0LessThan)
  have ctl: "cs_n (kg_ctl cfg1) = 3" "ctl_alive (kg_ctl cfg1)" "\<not> net_done (kg_net cfg1)" using c1(2) by (auto simp: stoppable_def sized_def)
  then have srv: "length (cs_servers (kg_ctl cfg1)) = 3" "\<forall>x \<in> set (cs_servers (kg_ctl cfg1)). serving x" by (auto simp: ctl_alive_def)
  from kill_ctrlers_stops [OF srv(2), of "[0..<3]"] srv(1) obtain srv' where c2: "kill_ctrlers [0..<3] (cs_servers (kg_ctl cfg1)) = Inr srv'"
      "length srv' = 3" "\<forall>x \<in> set srv'. serving x" "\<forall>j < 3. raft_stopped (srv' ! j)" by (auto simp: atLeast0LessThan)
  let ?cfg' = "cfg1\<lparr>kg_net := (kg_net cfg1)\<lparr>net_done := True\<rparr>, kg_ctl := (kg_ctl cfg1)\<lparr>cs_servers := srv'\<rparr>\<rparr>"
  have "kv_cleanup failed elapsed cfg = Inr (?cfg', checkTimeout failed elapsed)"
    using c1(1) c2(1) ctl three by (simp add: kv_cleanup_def Cleanup_def)
  moreover have "runServer_turn code (ki_rf inst) = None \<and> runKVServer_turn kcode (ki_kv inst) msg \<noteq> None" if "inst \<in> set (kg_insts cfg1)" for inst
    using all_stopped [OF c1(2) _ that] c1(3) by (simp add: runServer_turn_def runKVServer_turn_def)
  moreover have "\<exists>sc rf. x = Some (sc, rf) \<and> runServer_turn ccode rf = None \<and> snd (runShardCtrler_turn hs sc cmsg) \<noteq> Exited" if "x \<in> set srv'" for x
  proof -
    from that c2 obtain sc rf where "x = Some (sc, rf)" "\<not> killed sc" "Raft_killed rf"
      by (metis in_set_conv_nth option.inject prod.inject raft_stopped_def serving_def)
    then show ?thesis
      by (auto simp: runServer_turn_def runShardCtrler_turn_def Let_def split: option.splits prod.splits)
  qed
  ultimately show ?thesis using c1(4) by (intro exI [of _ ?cfg']) simp
qed


section \<open>Starting all groups, as a sequence\<close>

abbreviation start_acts :: "draws \<Rightarrow> nat \<Rightarrow> nat list \<Rightarrow> kg_act list" where
  "start_acts draws gi is \<equiv> map (\<lambda>i. GStart gi i (fst (draws gi i)) (snd (draws gi i))) is"

lemma kv_start_running:
  assumes "kv_start ps rnd rndm gi i cfg = Inr cfg'"
  shows "running cfg' g x = (if g = gi \<and> x = i then Some (length (kg_insts cfg)) else running cfg g x)" and "kg_n cfg' = kg_n cfg"
proof -
  have room: "gi < length (kg_groups cfg)" "i < length (gg_servers (kg_groups cfg ! gi))" by (rule kv_startD [OF assms]; simp)+
  from kv_start_groups(1) [OF assms] obtain gg where "kg_groups cfg' = (kg_groups cfg)[gi := gg]"
    "gg_servers gg = (gg_servers (kg_groups cfg ! gi))[i := Some (length (kg_insts cfg))]" by auto
  with room show "running cfg' g x = (if g = gi \<and> x = i then Some (length (kg_insts cfg)) else running cfg g x)"
    by (simp add: group_slot_update)
  show "kg_n cfg' = kg_n cfg" using kv_start_groups(2) [OF assms] .
qed

lemma kv_start_each_run:
  "kv_start_each ps draws gi is cfg = Inr cfg' \<Longrightarrow> distinct is \<Longrightarrow> \<forall>i \<in> set is. running cfg gi i = None \<Longrightarrow>
     \<exists>os. go_run (kg_exec ps) cfg (start_acts draws gi is) = Inr (cfg', os) \<and>
       go_allowed (kg_exec ps) life_pre cfg (start_acts draws gi is) \<and>
       (\<forall>g x. g \<noteq> gi \<longrightarrow> running cfg' g x = running cfg g x) \<and> kg_n cfg' = kg_n cfg"
proof (induction "is" arbitrary: cfg)
  case (Cons i "is")
  then obtain cfg1 where start: "kv_start ps (fst (draws gi i)) (snd (draws gi i)) gi i cfg = Inr cfg1"
    and rest: "kv_start_each ps draws gi is cfg1 = Inr cfg'" by (auto simp: go_bind_Inr)
  note run = kv_start_running [OF start]
  have "\<forall>i' \<in> set is. running cfg1 gi i' = None" using Cons.prems(2,3) run(1) by auto
  from Cons.IH [OF rest _ this] Cons.prems(2) obtain os where "go_run (kg_exec ps) cfg1 (start_acts draws gi is) = Inr (cfg', os)"
    "go_allowed (kg_exec ps) life_pre cfg1 (start_acts draws gi is)" "\<forall>g x. g \<noteq> gi \<longrightarrow> running cfg' g x = running cfg1 g x"
    "kg_n cfg' = kg_n cfg1" by auto
  moreover have "life_pre cfg (GStart gi i (fst (draws gi i)) (snd (draws gi i)))" using Cons.prems(3) by (simp add: life_pre_def)
  ultimately show ?case using start run by simp
qed simp

lemma start_groups_run:
  "start_groups ps draws gis cfg = Inr cfg' \<Longrightarrow> distinct gis \<Longrightarrow> \<forall>gi \<in> set gis. \<forall>i. running cfg gi i = None \<Longrightarrow>
     \<exists>os. go_run (kg_exec ps) cfg (concat (map (\<lambda>gi. start_acts draws gi [0..<kg_n cfg]) gis)) = Inr (cfg', os) \<and>
       go_allowed (kg_exec ps) life_pre cfg (concat (map (\<lambda>gi. start_acts draws gi [0..<kg_n cfg]) gis))"
proof (induction gis arbitrary: cfg)
  case (Cons gi gis)
  then obtain cfg1 where start: "kv_start_each ps draws gi [0..<kg_n cfg] cfg = Inr cfg1"
    and rest: "start_groups ps draws gis cfg1 = Inr cfg'" by (auto simp: go_bind_Inr StartGroup_def)
  from kv_start_each_run [OF start] Cons.prems(3) obtain os1 where one: "go_run (kg_exec ps) cfg (start_acts draws gi [0..<kg_n cfg]) = Inr (cfg1, os1)"
    "go_allowed (kg_exec ps) life_pre cfg (start_acts draws gi [0..<kg_n cfg])" "\<forall>g x. g \<noteq> gi \<longrightarrow> running cfg1 g x = running cfg g x"
    "kg_n cfg1 = kg_n cfg" by auto
  have "\<forall>g \<in> set gis. \<forall>i. running cfg1 g i = None" using Cons.prems(2,3) one(3) by auto
  from Cons.IH [OF rest _ this] Cons.prems(2) one(1,2,4) show ?case by (auto simp: go_run_append go_allowed_append)
qed simp

lemma cleanup_stops_raft_only_witness:
  "\<exists>cfg0 xs cfg os cfg'. kv_prepare example_ps (\<lambda>i. itoa (int i)) (\<lambda>i j. example_draw (DCtl i j)) (\<lambda>j. example_draw (DClerk j)) 7 3 1000 = Inr cfg0 \<and>
     go_run (kg_exec example_ps) cfg0 xs = Inr (cfg, os) \<and> kv_cleanup False 7 cfg = Inr (cfg', Inr ()) \<and> kg_insts cfg \<noteq> [] \<and>
     runServer_turn \<lparr>rc_Leader = id, rc_Follower = id, rc_Candidate = id\<rparr> (ki_rf (hd (kg_insts cfg'))) = None"
proof -
  obtain cfg0 V where prep: "kv_prepare example_ps (\<lambda>i. itoa (int i)) (\<lambda>i j. example_draw (DCtl i j)) (\<lambda>j. example_draw (DClerk j)) 7 3 1000 = Inr cfg0"
    and used0: "used example_draw V cfg0" and V: "V \<subseteq> {DCtl i j | i j. True} \<union> range DClerk"
    using kv_prepare_ok [OF inj_example_draw] by blast
  note f0 = kv_prepare_fields [OF prep]
  obtain cfg where start: "start_groups example_ps (place_names example_draw) [0..<3] cfg0 = Inr cfg"
    using start_groups_ok [OF inj_example_draw _ used0 kv_prepare_sized [OF prep] f0(5), of "[0..<3]" example_ps] V
    by (auto simp: f0(1) group_slot_new unused_def atLeast0LessThan)
  let ?xs = "concat (map (\<lambda>gi. start_acts (place_names example_draw) gi [0..<kg_n cfg0]) [0..<3])"
  obtain os where run: "go_run (kg_exec example_ps) cfg0 ?xs = Inr (cfg, os)" and al: "go_allowed (kg_exec example_ps) life_pre cfg0 ?xs"
    using start_groups_run [OF start] by (auto simp: f0(1) group_slot_new)
  have all: "\<forall>gi < 3. \<forall>i < 3. \<exists>d dm. GStart gi i d dm \<in> set ?xs" by (simp add: f0(2) image_iff)
  have keep: "\<forall>bs kv. kv_dead (kp_decodeSnapshot example_ps bs kv) = kv_dead kv" by (simp add: example_ps_def)
  obtain cfg' where cl: "kv_cleanup False 7 cfg = Inr (cfg', checkTimeout False 7)" "length (kg_insts cfg') = length (kg_insts cfg)"
    and stop: "\<forall>inst \<in> set (kg_insts cfg'). runServer_turn \<lparr>rc_Leader = id, rc_Follower = id, rc_Candidate = id\<rparr> (ki_rf inst) = None"
    using cleanup_stops_raft_only [OF prep keep al run all, of False 7 "\<lparr>rc_Leader = id, rc_Follower = id, rc_Candidate = id\<rparr>"] by blast
  have "checkTimeout False 7 = Inr ()" by (simp add: checkTimeout_def)
  let ?last = "GStart 2 2 (\<lambda>j. example_draw (DEnd 2 2 j)) (\<lambda>j. example_draw (DMend 2 2 j))"
  have "\<exists>ys. ?xs = ys @ [?last]"
    by (rule exI [of _ "butlast ?xs"]) (simp add: f0(2) upt_rec numeral_2_eq_2)
  then obtain ys where "?xs = ys @ [?last]" by blast
  from run [unfolded this] obtain cfg2 u where "kg_exec example_ps cfg2 ?last = Inr (cfg, u)" unfolding go_run_snoc_Inr by blast
  then have "kv_start example_ps (\<lambda>j. example_draw (DEnd 2 2 j)) (\<lambda>j. example_draw (DMend 2 2 j)) 2 2 cfg2 = Inr cfg"
    by (auto simp: go_bind_Inr)
  from kv_start_inst [OF this] have "kg_insts cfg \<noteq> []" by auto
  then have "hd (kg_insts cfg') \<in> set (kg_insts cfg')" using cl(2) by (metis hd_in_set length_0_conv)
  with prep run cl(1) [unfolded \<open>checkTimeout False 7 = Inr ()\<close>] stop \<open>kg_insts cfg \<noteq> []\<close> show ?thesis by blast
qed

end
