(* ===== verification/Spec2Isabelle.thy ===== *)
theory Spec2Isabelle
  imports GoPrelude MR_Coordinator MR_Interleaving MR_Json MR_Worker MR_Job MR_Cluster MR_Process Labgob Messages Labrpc Labrpc_Calls
    RaftBase Randstring RaftConfig Tester Restart RaftTester RaftStats ShardCtrler Replicas ShardCtrler_Clerk CtrlerConfig CtrlerSession
    ShardKV_Clerk ShardKV KVClient KVNetwork ShardKVConfig KVLifecycle
begin

text \<open>
  A verification of a fault-tolerant, sharded key/value store in Go and of the systems it is built from. A
  simulated network (\<^verbatim>\<open>labrpc\<close>) carries messages that \<^verbatim>\<open>labgob\<close> encodes. Raft servers replicate a log of commands
  through it and save their state in a \<^verbatim>\<open>Persister\<close>. The shard controller and the key/value servers are state
  machines above Raft: an RPC handler submits an operation with \<^verbatim>\<open>Start\<close> and waits on the channel of the index for the loop that applies
  what Raft commits; clerks retry until a leader answers. Each of the three has a tester (\<^verbatim>\<open>config.go\<close>) that starts, crashes,
  partitions and restarts servers and checks what they commit. MapReduce (\<^verbatim>\<open>mr\<close>) stands beside them, with
  a coordinator, its monitors and workers that share a directory.

  \<^bold>\<open>How the code is modelled.\<close> A Go struct is a record, an operation a function from the state to the
  result type \<open>'a go\<close> = \<open>go_error + 'a\<close>, in which an index out of range, a nil dereference, a division by zero and \<^verbatim>\<open>log.Fatal\<close>
  are values of \<open>go_error\<close> (theory \<open>GoPrelude\<close>). Objects that are shared or outlive their place (byte
  arrays, persisters, server instances) live on heaps, lists indexed by address. Concurrent code is cut into
  the sections between two points where another goroutine can run; a schedule is a list of sections, and \<open>go_run\<close> executes it. Random
  draws, clocks, the network seen by a clerk and what Raft decides are arguments. The locales
  \<open>go_machine\<close>, \<open>go_machine_total\<close> and \<open>go_history\<close> give induction over schedules once for all components, and every
  component interprets them on its own step function; \<open>restartable\<close> does so for the disks of the three testers.

  \<^bold>\<open>The theories and the sources.\<close>

  \<^item> \<open>MR_Coordinator\<close> (\<^verbatim>\<open>src/mr/coordinator.go\<close>, \<^verbatim>\<open>rpc.go\<close>): the coordinator's record and each RPC handler, the monitors, \<open>callWorker\<close>.
    Shown: counters agree with flags, tasks are handed out in order and once.
  \<^item> \<open>MR_Interleaving\<close>: the handlers cut at the places where they leave the mutex. Shown: what survives every
    interleaving, and the races that do not (a panic, a reduce phase that starts too early).
  \<^item> \<open>MR_Json\<close>, \<open>MR_Worker\<close> (\<^verbatim>\<open>src/mr/worker.go\<close>): the JSON of the intermediate files and its round trip; hashing,
    bucketing, grouping, and the loops of a worker.
  \<^item> \<open>MR_Job\<close>, \<open>MR_Cluster\<close>: the job. Shown: when the coordinator says it is done, all output is right,
    under every interleaving of whole handlers and executions, with deaths and tasks done twice; and the job never gets stuck.
  \<^item> \<open>MR_Process\<close>: the processes on their sockets, \<^verbatim>\<open>call\<close>, and \<^verbatim>\<open>Worker\<close> from start to end. Shown: it ends only by failing, when the coordinator is gone.
  \<^item> \<open>Labgob\<close> (\<^verbatim>\<open>src/labgob/labgob.go\<close>): \<open>checkValue\<close> and \<open>checkDefault\<close> over graphs of types. \<open>Messages\<close>: the
    types of all messages of the services as such a graph, and what the check says about them.
  \<^item> \<open>Labrpc\<close> (\<^verbatim>\<open>src/labrpc/labrpc.go\<close>): the network's state and its operations, request processing as steps of goroutines. Shown: at most
    once, no success after deletion, delivery on a reliable network. \<open>Labrpc_Calls\<close>: the calling side of \<open>Call\<close>, with
    what its two results mean and that it always can return.
  \<^item> \<open>RaftBase\<close> (\<^verbatim>\<open>src/raft/persister.go\<close>, \<^verbatim>\<open>raft.go\<close>, \<^verbatim>\<open>util.go\<close>): the persister as a refinement of pairs of byte strings; the
    data and the visible operations of Raft.
  \<^item> \<open>Tester\<close>, \<open>Restart\<close>, \<open>Randstring\<close>: what the three testers do alike to the network and to the disks, the limit on the time of a test, and the names they draw
    for ends: how long they are, and when two are the same.
  \<^item> \<open>RaftConfig\<close>, \<open>RaftTester\<close>, \<open>RaftStats\<close> (\<^verbatim>\<open>src/raft/config.go\<close>): the apply readers, with and without snapshots, the questions
    the tests ask, crashes and restarts, \<open>one\<close>, and the report at the end of a test.
  \<^item> \<open>ShardCtrler\<close>, \<open>ShardCtrler_Clerk\<close> (\<^verbatim>\<open>src/shardctrler/server.go\<close>, \<^verbatim>\<open>common.go\<close>, \<^verbatim>\<open>client.go\<close>): the apply loop with its duplicate
    detection, the routing of replies, the clerk; which of its operations are executed once. \<open>Replicas\<close>: all controllers hold states of one log.
  \<^item> \<open>CtrlerConfig\<close>, \<open>CtrlerSession\<close> (\<^verbatim>\<open>src/shardctrler/config.go\<close>): the tester of the controller: partitions and
    restarts; the typing of its state and that no sequence of its operations panics.
  \<^item> \<open>ShardKV_Clerk\<close>, \<open>ShardKV\<close> (\<^verbatim>\<open>src/shardkv/client.go\<close>, \<^verbatim>\<open>common.go\<close>, \<^verbatim>\<open>server.go\<close>): the clerk, and the server as far as its code is there.
    \<open>KVClient\<close>: the clerk with the clerk of the controller inside it, against a system with a state. Shown: where its answers come from, and that it returns once the system settles.
    \<open>KVNetwork\<close>: the same client over the network of \<open>Labrpc\<close>. Shown: a reliable network is transparent to it.
  \<^item> \<open>ShardKVConfig\<close>, \<open>KVLifecycle\<close> (\<^verbatim>\<open>src/shardkv/config.go\<close>): groups, restarts, names; the loops of \<^verbatim>\<open>runServer\<close> and
    \<^verbatim>\<open>runKVServer\<close>, and what \<^verbatim>\<open>cleanup\<close> stops.

  \<^bold>\<open>Composition.\<close> The states of the testers contain the network of \<open>Labrpc\<close> and the persisters of \<open>RaftBase\<close>, and their
  servers are the records of \<open>ShardCtrler\<close> and \<open>ShardKV\<close>. \<open>MR_Cluster\<close> runs the coordinator of \<open>MR_Coordinator\<close> with the task
  code of \<open>MR_Worker\<close>; \<open>RaftStats\<close> runs the goroutines of \<open>Labrpc\<close> and the readers of \<open>RaftConfig\<close> against
  one configuration; \<open>ShardCtrler_Clerk\<close> feeds the requests of a clerk to the duplicate detection of \<open>ShardCtrler\<close>; \<open>Replicas\<close> feeds deliveries that
  the readers of \<open>RaftConfig\<close> accept to the apply loops of \<open>ShardCtrler\<close>; \<open>KVClient\<close> runs the loops of both clerks against one system, and \<open>KVNetwork\<close>
  takes the network of \<open>Labrpc\<close> with its servers as this system.

  \<^bold>\<open>Bounds and fuel.\<close> The RPC and byte counters are words of 32 and 64 bits, as in the code, and so is the hash. Task
  numbers, indexes and terms are \<open>int\<close>: they count objects in memory. Endless loops run on fuel and give None
  when it is used up. A clerk's loop uses one unit per round, and the theorems show that it returns when the fuel exceeds the number of rounds up
  to the first answer; in \<open>KVClient\<close> two more than the number of sleeps until the system settles are enough for all loops together, one of them for a configuration
  that was out of date at that moment; a monitor's loop uses one unit per look; the loops of a worker one per round; \<open>decode_loop\<close> one per value, with the length of the text as fuel, which is
  enough as every value takes a character; \<open>checkValue\<close> one per level, with one more than the number of types, which is enough as a type is
  entered once. Loops that end after some seconds run over a list of what they observe.

  \<^bold>\<open>Not modelled.\<close> The sources leave out the bodies of many functions: in \<^verbatim>\<open>src/raft/raft.go\<close> elections,
  replication, snapshots, \<^verbatim>\<open>Make\<close> and the cases of \<^verbatim>\<open>runServer\<close>; in \<^verbatim>\<open>src/shardctrler/server.go\<close> the RPC handlers, the four \<^verbatim>\<open>handle\<close> functions
  and \<^verbatim>\<open>isOpMatched\<close>; in \<^verbatim>\<open>src/shardkv/server.go\<close> the request handlers, the cases of the apply loop, \<^verbatim>\<open>runConfigPolling\<close>, shard
  transfer and deletion, and the coding of snapshots. Where visible code calls them they are parameters; what is wholly hidden is left out, so nothing
  is claimed about agreement or about the movement of shards. Also left out: what sockets and HTTP do below \<^verbatim>\<open>net/rpc\<close> (whether a dial or a listen succeeds is a parameter); the bytes \<^verbatim>\<open>encoding/gob\<close>
  writes; wall-clock time (clock readings and elapsed times are parameters); the source of randomness (draws are parameters, and the
  testers are given names that are new); printing; \<^verbatim>\<open>testing.T\<close> beyond whether it failed; the test files. Copies of a function in several packages
  (\<^verbatim>\<open>randstring\<close>, \<^verbatim>\<open>makeSeed\<close>, \<^verbatim>\<open>nrand\<close>, \<^verbatim>\<open>random_handles\<close>, \<^verbatim>\<open>checkTimeout\<close>) are modelled once.
\<close>

end
